(* ===== verification/Prelude.thy ===== *)
theory Prelude
  imports Main "HOL-Library.Word" "HOL-Library.Monad_Syntax" "HOL-Library.Sublist"
begin

text \<open>
  Shared vocabulary of the development: the machine types of src/types.h, C strings and raw
  memory, little-endian words, the C library string functions the sources call, and the generic
  lemmas every component uses.

  Conventions. A model function whose C original can reach undefined behaviour (a read or write
  out of bounds, a null dereference, an unterminated string) or a failed assert returns an
  option: None is such a fault and nothing follows it, Some carries the ordinary C result, error
  codes included. Sequencing is the do-notation of the option monad, one line per C statement.
\<close>

section \<open>Machine types (types.h)\<close>

type_synonym byte = "8 word"
type_synonym u16 = "16 word"
type_synonym u32 = "32 word"
type_synonym u64 = "64 word"
type_synonym usize = u64

text \<open>A uuid_t is an array of 16 bytes; an address is a pointer value, 0 being NULL.\<close>

type_synonym uuid = "byte list"
type_synonym addr = nat

abbreviation (input) NULL :: addr where
  "NULL \<equiv> 0"

section \<open>Collections\<close>

named_theorems codec_simps \<open>sizes and inverses of the wire formats\<close>
named_theorems frame_simps \<open>which parts of the state an operation leaves alone\<close>

section \<open>Faults\<close>

text \<open>assert: a condition that must hold, a fault otherwise.\<close>

definition assert_that :: "bool \<Rightarrow> unit option" where
  "assert_that b = (if b then Some () else None)"

lemma assert_that_simps [simp]:
  "assert_that True = Some ()"
  "assert_that False = None"
  by (simp_all add: assert_that_def)

lemma assert_that_eq_Some [simp]: "assert_that b = Some u \<longleftrightarrow> b"
  by (simp add: assert_that_def)

lemma length_dropWhile_less [termination_simp]: "length (dropWhile P xs) < Suc (length xs)"
  by (simp add: length_dropWhile_le less_Suc_eq_le)

lemma drop_split: "drop i xs = take k (drop i xs) @ drop (i + k) xs"
  by (metis add.commute append_take_drop_id drop_drop)

section \<open>Little-endian integers\<close>

fun le_bytes :: "nat \<Rightarrow> nat \<Rightarrow> byte list" where
  "le_bytes 0 n = []"
| "le_bytes (Suc k) n = of_nat (n mod 256) # le_bytes k (n div 256)"

fun le_nat :: "byte list \<Rightarrow> nat" where
  "le_nat [] = 0"
| "le_nat (b # bs) = unat b + 256 * le_nat bs"

lemma length_le_bytes [simp, codec_simps]: "length (le_bytes k n) = k"
  by (induction k arbitrary: n) auto

lemma unat_byte_lt: "unat (b :: byte) < 256"
  using unsigned_less [of b] by simp

lemma le_nat_le_bytes: "n < 256 ^ k \<Longrightarrow> le_nat (le_bytes k n) = n"
proof (induction k arbitrary: n)
  case 0
  then show ?case by simp
next
  case (Suc k)
  have "n div 256 < 256 ^ k"
    using Suc.prems by (simp add: less_mult_imp_div_less mult.commute)
  with Suc.IH [of "n div 256"] show ?case
    by (simp add: unat_of_nat)
qed

lemma le_nat_less: "le_nat bs < 256 ^ length bs"
proof (induction bs)
  case Nil
  then show ?case by simp
next
  case (Cons b bs)
  with unat_byte_lt [of b] show ?case by simp
qed

lemma le_bytes_le_nat: "length bs = k \<Longrightarrow> le_bytes k (le_nat bs) = bs"
proof (induction bs arbitrary: k)
  case Nil
  then show ?case by simp
next
  case (Cons b bs)
  have "(unat b + 256 * le_nat bs) mod 256 = unat b"
    using unat_byte_lt [of b] by simp
  moreover have "(unat b + 256 * le_nat bs) div 256 = le_nat bs"
    using unat_byte_lt [of b] by simp
  ultimately show ?case using Cons by (cases k) auto
qed

definition le_of_u64 :: "u64 \<Rightarrow> byte list" where
  "le_of_u64 w = le_bytes 8 (unat w)"

definition u64_of_le :: "byte list \<Rightarrow> u64" where
  "u64_of_le bs = of_nat (le_nat bs)"

definition le_of_u32 :: "u32 \<Rightarrow> byte list" where
  "le_of_u32 w = le_bytes 4 (unat w)"

definition u32_of_le :: "byte list \<Rightarrow> u32" where
  "u32_of_le bs = of_nat (le_nat bs)"

lemma length_le_of [simp, codec_simps]:
  "length (le_of_u64 w) = 8" "length (le_of_u32 v) = 4"
  by (simp_all add: le_of_u64_def le_of_u32_def)

lemma u64_of_le_of_u64 [simp, codec_simps]: "u64_of_le (le_of_u64 w) = w"
proof -
  have "unat w < 256 ^ 8" using unsigned_less [of w] by simp
  then show ?thesis by (simp add: u64_of_le_def le_of_u64_def le_nat_le_bytes)
qed

lemma u32_of_le_of_u32 [simp, codec_simps]: "u32_of_le (le_of_u32 w) = w"
proof -
  have "unat w < 256 ^ 4" using unsigned_less [of w] by simp
  then show ?thesis by (simp add: u32_of_le_def le_of_u32_def le_nat_le_bytes)
qed

lemma le_of_u64_of_le [codec_simps]: "length bs = 8 \<Longrightarrow> le_of_u64 (u64_of_le bs) = bs"
  using le_nat_less [of bs]
  by (simp add: u64_of_le_def le_of_u64_def unat_of_nat le_bytes_le_nat)

lemma le_of_u32_of_le [codec_simps]: "length bs = 4 \<Longrightarrow> le_of_u32 (u32_of_le bs) = bs"
  using le_nat_less [of bs]
  by (simp add: u32_of_le_def le_of_u32_def unat_of_nat le_bytes_le_nat)

section \<open>C strings\<close>

text \<open>
  A C string is its characters before the terminator (a \<open>string\<close>, no NUL inside). In memory it
  is a byte list with a zero byte after it; \<open>cstr\<close> reads one from the start of a memory area
  and faults when the area holds no terminator (the read would leave the area).
\<close>

definition NUL :: char where
  "NUL = CHR 0x00"

definition byte_of_char :: "char \<Rightarrow> byte" where
  "byte_of_char c = of_nat (of_char c)"

definition char_of_byte :: "byte \<Rightarrow> char" where
  "char_of_byte b = char_of (unat b)"

lemma char_of_byte_of_char [simp]: "char_of_byte (byte_of_char c) = c"
proof -
  have "of_char c < (256 :: nat)" by simp
  then show ?thesis by (simp add: byte_of_char_def char_of_byte_def unat_of_nat)
qed

lemma byte_of_char_of_byte [simp]: "byte_of_char (char_of_byte b) = b"
  using unat_byte_lt [of b] by (simp add: byte_of_char_def char_of_byte_def)

lemma byte_of_char_inject [simp]: "byte_of_char a = byte_of_char b \<longleftrightarrow> a = b"
  by (metis char_of_byte_of_char)

lemma byte_of_char_NUL [simp]: "byte_of_char NUL = 0"
  by (simp add: byte_of_char_def NUL_def)

lemma byte_of_char_eq_0 [simp]: "byte_of_char c = 0 \<longleftrightarrow> c = NUL"
  by (metis byte_of_char_NUL byte_of_char_inject)

lemma takeWhile_to_NUL: "NUL \<notin> set xs \<Longrightarrow> takeWhile (\<lambda>c. c \<noteq> NUL) (xs @ NUL # zs) = xs"
  by (induction xs) auto

definition cbytes :: "string \<Rightarrow> byte list" where
  "cbytes s = map byte_of_char s @ [0]"

definition cstr :: "byte list \<Rightarrow> string option" where
  "cstr mem = (if 0 \<in> set mem then Some (map char_of_byte (takeWhile (\<lambda>b. b \<noteq> 0) mem)) else None)"

lemma length_cbytes [simp]: "length (cbytes s) = length s + 1"
  by (simp add: cbytes_def)

lemma cstr_cbytes: "NUL \<notin> set s \<Longrightarrow> cstr (cbytes s @ rest) = Some s"
proof -
  assume "NUL \<notin> set s"
  then have "takeWhile (\<lambda>b. b \<noteq> 0) (map byte_of_char s @ 0 # rest) = map byte_of_char s"
    by (induction s) auto
  then show ?thesis by (simp add: cstr_def cbytes_def o_def)
qed

lemma cstr_no_NUL: "cstr mem = Some s \<Longrightarrow> NUL \<notin> set s"
  by (auto simp: cstr_def split: if_splits dest!: set_takeWhileD)
    (metis byte_of_char_NUL byte_of_char_of_byte)

lemma cstr_length: "cstr mem = Some s \<Longrightarrow> length s < length mem"
proof -
  assume s: "cstr mem = Some s"
  then have z: "0 \<in> set mem" and len: "length s = length (takeWhile (\<lambda>b. b \<noteq> 0) mem)"
    by (auto simp: cstr_def split: if_splits)
  have "takeWhile (\<lambda>b. b \<noteq> 0) mem \<noteq> mem" using z by (metis (mono_tags) set_takeWhileD)
  then have "length (takeWhile (\<lambda>b. b \<noteq> 0) mem) < length mem"
    by (metis (no_types) length_takeWhile_le le_neq_implies_less takeWhile_eq_take take_all order_refl)
  with len show ?thesis by simp
qed

text \<open>
  snprintf into a buffer of n bytes keeps at most n - 1 characters; strncmp with a length
  compares that many characters, so with the length of its first argument it is a prefix test;
  strrchr returns the suffix that starts at the last occurrence, or NULL.
\<close>

definition snprintf_str :: "nat \<Rightarrow> string \<Rightarrow> string" where
  "snprintf_str n s = take (n - 1) s"

lemma snprintf_str_id [simp]: "length s < n \<Longrightarrow> snprintf_str n s = s"
  by (simp add: snprintf_str_def)

lemma length_snprintf_str: "0 < n \<Longrightarrow> length (snprintf_str n s) < n"
  by (simp add: snprintf_str_def min_def; linarith)

definition strncmp_eq :: "string \<Rightarrow> string \<Rightarrow> nat \<Rightarrow> bool" where
  "strncmp_eq a b n \<longleftrightarrow> take n a = take n b"

lemma strncmp_eq_prefix: "strncmp_eq a b (length a) \<longleftrightarrow> prefix a b"
  by (auto simp: strncmp_eq_def prefix_def) (metis append_take_drop_id)

fun strrchr :: "string \<Rightarrow> char \<Rightarrow> string option" where
  "strrchr [] c = None"
| "strrchr (x # xs) c =
     (case strrchr xs c of
        Some r \<Rightarrow> Some r
      | None \<Rightarrow> if x = c then Some (x # xs) else None)"

fun strchr_index :: "string \<Rightarrow> char \<Rightarrow> nat option" where
  "strchr_index [] c = None"
| "strchr_index (x # xs) c = (if x = c then Some 0 else map_option Suc (strchr_index xs c))"

lemma strrchr_None: "strrchr s c = None \<longleftrightarrow> c \<notin> set s"
  by (induction s) (auto split: option.splits)

lemma strrchr_Some: "strrchr s c = Some r \<Longrightarrow> \<exists>t. r = c # t \<and> c \<notin> set t \<and> suffix r s"
proof (induction s)
  case Nil
  then show ?case by simp
next
  case (Cons x xs)
  show ?case
  proof (cases "strrchr xs c")
    case None
    with Cons.prems have "x = c" "r = x # xs" by (auto split: if_splits)
    with None show ?thesis by (auto simp: strrchr_None)
  next
    case (Some r')
    with Cons show ?thesis by (auto intro: suffix_ConsI)
  qed
qed

end
