(* ===== verification/Paths.thy ===== *)
theory Paths
  imports Prelude
begin

text \<open>
  The path functions of src/util.c: normalize_path (lines 168-248), stridx (250-256),
  path_next_dir (258-287), get_user_root and get_user_path (410-439). They decide which file a
  client's request touches, so the theory relates them to an abstract reading of a path as a
  list of components, and proves what a resolved path can and cannot denote.
\<close>

section \<open>normalize_path\<close>

text \<open>
  The output buffer has room for cap characters (the malloc of strlen(path) + 2); out is what the
  code has written so far, so its length is the C variable i. Every write is checked against
  the capacity: a write past the end of the buffer is a fault. Moving i back drops characters.
\<close>

definition out_put :: "nat \<Rightarrow> string \<Rightarrow> string \<Rightarrow> string option" where
  "out_put cap out s = (if length out + length s \<le> cap then Some (out @ s) else None)"

text \<open>while (i > lim && out[i - 1] != '/') i--;\<close>

function rewind_to_slash :: "nat \<Rightarrow> string \<Rightarrow> string" where
  "rewind_to_slash lim out =
     (if lim < length out \<and> last out \<noteq> CHR ''/'' then rewind_to_slash lim (butlast out) else out)"
  by pat_completeness auto
termination
  by (relation "measure (\<lambda>(lim, out). length out)") auto

declare rewind_to_slash.simps [simp del]

definition normalize_up_abs :: "string \<Rightarrow> string" where
  "normalize_up_abs out =
     (if 1 < length out then rewind_to_slash 1 (butlast out) else out)"

definition normalize_up_rel :: "nat \<Rightarrow> string \<Rightarrow> string option" where
  "normalize_up_rel cap out =
     (let i = length out in
      if 0 < i \<and> \<not> (out ! (i - 1) = CHR ''.'' \<and> (i < 2 \<or> out ! (i - 2) = CHR ''/''))
      then (let out' = rewind_to_slash 0 (butlast out)
            in Some (if 0 < length out' then butlast out' else out'))
      else do {
        out' \<leftarrow> (if 0 < i then out_put cap out ''/'' else Some out);
        out_put cap out' ''..''
      })"

definition normalize_component :: "bool \<Rightarrow> nat \<Rightarrow> string \<Rightarrow> string \<Rightarrow> string option" where
  "normalize_component is_absolute cap seg out =
     (if seg = ''.'' then Some out
      else if seg = ''..'' then
        (if is_absolute then Some (normalize_up_abs out) else normalize_up_rel cap out)
      else do {
        out' \<leftarrow> (if 0 < length out \<and> last out \<noteq> CHR ''/'' then out_put cap out ''/'' else Some out);
        out_put cap out' seg
      })"

text \<open>The main loop over the rest p of the input.\<close>

fun normalize_loop :: "bool \<Rightarrow> nat \<Rightarrow> string \<Rightarrow> string \<Rightarrow> string option" where
  "normalize_loop is_absolute cap [] out = Some out"
| "normalize_loop is_absolute cap (c # p) out =
     (if c = CHR ''/'' then normalize_loop is_absolute cap p out
      else do {
        out' \<leftarrow> normalize_component is_absolute cap (c # takeWhile (\<lambda>x. x \<noteq> CHR ''/'') p) out;
        normalize_loop is_absolute cap (dropWhile (\<lambda>x. x \<noteq> CHR ''/'') p) out'
      })"

text \<open>
  The result: the outer option is the fault, the inner one the returned pointer (NULL or a
  string). malloc_ok says whether malloc returned memory. The last write is the terminator.
\<close>

definition normalize_path :: "bool \<Rightarrow> string option \<Rightarrow> string option option" where
  "normalize_path malloc_ok path =
     (case path of
        None \<Rightarrow> Some None
      | Some p \<Rightarrow>
          if \<not> malloc_ok then Some None
          else do {
            let cap = length p + 2;
            let is_absolute = (p \<noteq> [] \<and> hd p = CHR ''/'');
            out \<leftarrow> (if is_absolute then out_put cap [] ''/'' else Some []);
            out \<leftarrow> normalize_loop is_absolute cap p out;
            out \<leftarrow> (if out = [] then out_put cap out ''.'' else Some out);
            _ \<leftarrow> out_put cap out [NUL];
            Some (Some out)
          })"

section \<open>stridx\<close>

text \<open>The code returns str - p, the negated offset.\<close>

definition stridx :: "string \<Rightarrow> char \<Rightarrow> int" where
  "stridx str c = (case strchr_index str c of None \<Rightarrow> -1 | Some p \<Rightarrow> 0 - int p)"

section \<open>path_next_dir\<close>

text \<open>
  The three static variables. The buffer of strdup is the string and its terminator; the code
  cuts the buffer by writing NUL over a slash and puts the slash back on the next call. Before
  the first call the statics are zero.
\<close>

record next_dir_state =
  nd_path :: string
  nd_len :: int
  nd_curr_slash :: int

definition next_dir_statics :: next_dir_state where
  "next_dir_statics = \<lparr>nd_path = [], nd_len = 0, nd_curr_slash = 0\<rparr>"

text \<open>
  while ((path[i] != '/' || i <= skip_chars) && path[i] != NUL) i++; on the buffer from index
  i on; reading past the buffer is a fault.
\<close>

fun next_dir_scan :: "int \<Rightarrow> int \<Rightarrow> string \<Rightarrow> int option" where
  "next_dir_scan skip_chars i [] = None"
| "next_dir_scan skip_chars i (c # cs) =
     (if (c \<noteq> CHR ''/'' \<or> i \<le> skip_chars) \<and> c \<noteq> NUL
      then next_dir_scan skip_chars (i + 1) cs else Some i)"

definition path_next_dir ::
  "string option \<Rightarrow> int \<Rightarrow> next_dir_state \<Rightarrow> (string option \<times> next_dir_state) option" where
  "path_next_dir full_path skip_chars st0 =
     (let st = (case full_path of
                  Some s \<Rightarrow> \<lparr>nd_path = s @ [NUL], nd_len = int (length s), nd_curr_slash = -1\<rparr>
                | None \<Rightarrow> st0)
      in if nd_len st \<le> nd_curr_slash st then Some (None, st)
         else do {
           let path = (if 0 \<le> nd_curr_slash st \<and> nd_curr_slash st < nd_len st
                       then (nd_path st)[nat (nd_curr_slash st) := CHR ''/''] else nd_path st);
           i \<leftarrow> next_dir_scan skip_chars (nd_curr_slash st + 1)
                  (drop (nat (nd_curr_slash st + 1)) path);
           let path' = path[nat i := NUL];
           Some (Some (takeWhile (\<lambda>c. c \<noteq> NUL) path'),
                 st\<lparr>nd_path := path', nd_curr_slash := i\<rparr>)
         })"

section \<open>get_user_root and get_user_path\<close>

text \<open>
  uuid_unparse is libuuid's, so it is a parameter: the text of a token. PATH_MAX is 4096 on
  Linux. The root is snprintf'ed into PATH_MAX bytes, the absolute path into twice as many.
\<close>

definition PATH_MAX :: nat where
  "PATH_MAX = 4096"

definition STORAGE_DIR :: string where
  "STORAGE_DIR = ''/var/minibox''"

definition get_user_root :: "('u \<Rightarrow> string) \<Rightarrow> 'u \<Rightarrow> string" where
  "get_user_root uuid_unparse token =
     snprintf_str PATH_MAX (STORAGE_DIR @ ''/'' @ uuid_unparse token)"

definition get_user_path ::
  "('u \<Rightarrow> string) \<Rightarrow> bool \<Rightarrow> string \<Rightarrow> 'u \<Rightarrow> string option option" where
  "get_user_path uuid_unparse malloc_ok path token =
     (let root_dir = get_user_root uuid_unparse token;
          abs_path = snprintf_str (PATH_MAX * 2) (root_dir @ ''/'' @ path)
      in do {
        normalized \<leftarrow> normalize_path malloc_ok (Some abs_path);
        case normalized of
          None \<Rightarrow> Some None
        | Some n \<Rightarrow>
            if \<not> strncmp_eq n root_dir (length root_dir) then Some None else Some (Some n)
      })"

section \<open>Paths as lists of components\<close>

text \<open>
  The abstract reading: a path is the list of its nonempty segments; resolving it applies each
  segment to a stack, where a single dot stays and a double dot goes up. Going up from the
  root stays there; a relative path the code resolves keeps a double dot only when the stack is
  empty and otherwise drops the last segment, whatever it is.
\<close>

abbreviation non_slash :: "char \<Rightarrow> bool" where
  "non_slash x \<equiv> x \<noteq> CHR ''/''"

fun segments :: "string \<Rightarrow> string list" where
  "segments [] = []"
| "segments (c # p) =
     (if c = CHR ''/'' then segments p
      else (c # takeWhile non_slash p) # segments (dropWhile non_slash p))"

definition abs_step :: "string list \<Rightarrow> string \<Rightarrow> string list" where
  "abs_step st seg = (if seg = ''.'' then st else if seg = ''..'' then butlast st else st @ [seg])"

definition rel_step :: "string list \<Rightarrow> string \<Rightarrow> string list" where
  "rel_step st seg =
     (if seg = ''.'' then st
      else if seg = ''..'' then (if st = [] then [''..''] else butlast st)
      else st @ [seg])"

definition resolve_abs :: "string list \<Rightarrow> string list" where
  "resolve_abs segs = foldl abs_step [] segs"

definition resolve_rel :: "string list \<Rightarrow> string list" where
  "resolve_rel segs = foldl rel_step [] segs"

definition render_tail :: "string list \<Rightarrow> string" where
  "render_tail segs = concat (map (\<lambda>s. CHR ''/'' # s) segs)"

definition render_abs :: "string list \<Rightarrow> string" where
  "render_abs segs = (if segs = [] then ''/'' else render_tail segs)"

definition render_rel :: "string list \<Rightarrow> string" where
  "render_rel segs = (if segs = [] then [] else tl (render_tail segs))"

definition seg_ok :: "string \<Rightarrow> bool" where
  "seg_ok s \<longleftrightarrow> s \<noteq> [] \<and> CHR ''/'' \<notin> set s"

definition plain_seg :: "string \<Rightarrow> bool" where
  "plain_seg s \<longleftrightarrow> seg_ok s \<and> s \<noteq> ''.'' \<and> s \<noteq> ''..''"

subsection \<open>Segments\<close>

lemma seg_ok_taken: "non_slash c \<Longrightarrow> seg_ok (c # takeWhile non_slash p)"
  by (auto simp: seg_ok_def dest: set_takeWhileD)

lemma segments_ok: "s \<in> set (segments p) \<Longrightarrow> seg_ok s"
  by (induction p rule: segments.induct) (auto simp: seg_ok_taken split: if_splits)

lemma takeWhile_non_slash_id: "CHR ''/'' \<notin> set s \<Longrightarrow> takeWhile non_slash s = s"
  by (induction s) auto

lemma takeWhile_seg_append:
  "CHR ''/'' \<notin> set s \<Longrightarrow> takeWhile non_slash (s @ CHR ''/'' # q) = s"
  by (induction s) auto

lemma takeWhile_seg_any:
  "CHR ''/'' \<notin> set s \<Longrightarrow> takeWhile non_slash (s @ q) = s @ takeWhile non_slash q"
  by (induction s) auto

lemma dropWhile_seg_append:
  "CHR ''/'' \<notin> set s \<Longrightarrow> dropWhile non_slash (s @ CHR ''/'' # q) = CHR ''/'' # q"
  by (induction s) auto

lemma dropWhile_non_slash_id: "CHR ''/'' \<notin> set s \<Longrightarrow> dropWhile non_slash s = []"
  by (induction s) auto

lemma segments_seg: "seg_ok s \<Longrightarrow> segments s = [s]"
  by (cases s)
    (auto simp: seg_ok_def takeWhile_non_slash_id dropWhile_non_slash_id)

lemma segments_append_slash: "segments (p @ CHR ''/'' # q) = segments p @ segments q"
proof (induction p rule: segments.induct)
  case 1
  then show ?case by simp
next
  case (2 c p)
  show ?case
  proof (cases "CHR ''/'' \<in> set p")
    case True
    then show ?thesis using 2 by (auto simp: takeWhile_append1 dropWhile_append1)
  next
    case False
    then show ?thesis using 2
      by (auto simp: takeWhile_seg_append dropWhile_seg_append takeWhile_non_slash_id
          dropWhile_non_slash_id)
  qed
qed

lemma segments_render_tail: "\<forall>s \<in> set segs. seg_ok s \<Longrightarrow> segments (render_tail segs) = segs"
proof (induction segs rule: rev_induct)
  case Nil
  then show ?case by (simp add: render_tail_def)
next
  case (snoc s segs)
  have "render_tail (segs @ [s]) = render_tail segs @ CHR ''/'' # s"
    by (simp add: render_tail_def)
  with snoc show ?case by (simp add: segments_append_slash segments_seg)
qed

lemma segments_trailing_slash: "segments (p @ ''/'') = segments p"
  using segments_append_slash [of p "[]"] by simp

lemma segments_render_abs:
  "\<forall>s \<in> set segs. seg_ok s \<Longrightarrow> segments (render_abs segs) = segs"
  by (simp add: render_abs_def segments_render_tail)

lemma render_tail_snoc: "render_tail (segs @ [s]) = render_tail segs @ CHR ''/'' # s"
  by (simp add: render_tail_def)

lemma render_tail_Nil [simp]: "render_tail [] = []"
  by (simp add: render_tail_def)

lemma render_tail_nonempty: "segs \<noteq> [] \<Longrightarrow> render_tail segs \<noteq> []"
  by (cases segs) (auto simp: render_tail_def)

lemma resolve_abs_plain:
  "\<forall>s \<in> set segs. seg_ok s \<Longrightarrow> \<forall>s \<in> set (resolve_abs segs). plain_seg s"
proof (induction segs rule: rev_induct)
  case Nil
  then show ?case by (simp add: resolve_abs_def)
next
  case (snoc s segs)
  have "resolve_abs (segs @ [s]) = abs_step (resolve_abs segs) s"
    by (simp add: resolve_abs_def)
  with snoc show ?case
    by (auto simp: abs_step_def plain_seg_def dest: in_set_butlastD)
qed

section \<open>The code computes the abstract resolution\<close>

lemma rewind_stop: "out = [] \<or> last out = CHR ''/'' \<or> length out \<le> lim \<Longrightarrow>
    rewind_to_slash lim out = out"
  by (subst rewind_to_slash.simps) auto

lemma rewind_to_slash_seg:
  "CHR ''/'' \<notin> set s \<Longrightarrow> lim \<le> length p + 1 \<Longrightarrow>
   rewind_to_slash lim (p @ CHR ''/'' # s) = p @ ''/''"
proof (induction s rule: rev_induct)
  case Nil
  then show ?case by (simp add: rewind_stop)
next
  case (snoc c s)
  have "rewind_to_slash lim (p @ CHR ''/'' # s @ [c]) = rewind_to_slash lim (p @ CHR ''/'' # s)"
    using snoc.prems
    by (subst rewind_to_slash.simps) (auto simp: butlast_append)
  with snoc show ?case by simp
qed

lemma rewind_to_slash_all: "CHR ''/'' \<notin> set s \<Longrightarrow> rewind_to_slash 0 s = []"
proof (induction s rule: rev_induct)
  case Nil
  then show ?case by (simp add: rewind_stop)
next
  case (snoc c s)
  then show ?case by (subst rewind_to_slash.simps) auto
qed

text \<open>What the output buffer holds while an absolute path is processed.\<close>

definition abs_out :: "string list \<Rightarrow> string \<Rightarrow> bool" where
  "abs_out st out \<longleftrightarrow>
     (\<forall>s \<in> set st. plain_seg s) \<and>
     (out = render_abs st \<or> (st \<noteq> [] \<and> out = render_tail st @ ''/''))"

lemma normalize_up_abs_out:
  assumes "abs_out st out"
  shows "abs_out (butlast st) (normalize_up_abs out)"
proof (cases st rule: rev_cases)
  case Nil
  with assms show ?thesis by (simp add: abs_out_def render_abs_def normalize_up_abs_def)
next
  case (snoc st' s)
  with assms have s: "s \<noteq> []" "CHR ''/'' \<notin> set s" and st': "\<forall>s \<in> set st'. plain_seg s"
    by (auto simp: abs_out_def plain_seg_def seg_ok_def)
  from assms snoc have "out = render_tail st' @ CHR ''/'' # s
      \<or> out = render_tail st' @ CHR ''/'' # s @ ''/''"
    by (auto simp: abs_out_def render_abs_def render_tail_snoc)
  then have "normalize_up_abs out = render_tail st' @ ''/''"
  proof
    assume out: "out = render_tail st' @ CHR ''/'' # s"
    have "CHR ''/'' \<notin> set (butlast s)" using s(2) by (meson in_set_butlastD)
    with out s(1) show ?thesis
      by (simp add: normalize_up_abs_def butlast_append rewind_to_slash_seg)
  next
    assume out: "out = render_tail st' @ CHR ''/'' # s @ ''/''"
    with s show ?thesis
      by (simp add: normalize_up_abs_def butlast_append rewind_to_slash_seg)
  qed
  with st' snoc show ?thesis by (auto simp: abs_out_def render_abs_def)
qed

lemma last_render_tail_snoc:
  "seg_ok s \<Longrightarrow> last (render_tail (st @ [s])) = last s \<and> last s \<noteq> CHR ''/''"
  by (auto simp: render_tail_snoc seg_ok_def) (metis last_in_set)

lemma abs_out_component:
  assumes out: "abs_out st out" and seg: "seg_ok seg"
    and step: "normalize_component True cap seg out = Some out'"
  shows "abs_out (abs_step st seg) out'"
proof (cases "seg = ''.'' \<or> seg = ''..''")
  case True
  then show ?thesis
    using out step normalize_up_abs_out [OF out]
    by (auto simp: normalize_component_def abs_step_def)
next
  case False
  then have plain: "plain_seg seg" using seg by (simp add: plain_seg_def)
  have "out' = render_tail st @ CHR ''/'' # seg"
  proof (cases st rule: rev_cases)
    case Nil
    with out have "out = ''/''" by (simp add: abs_out_def render_abs_def)
    with False step Nil show ?thesis
      by (auto simp: normalize_component_def out_put_def split: if_splits)
  next
    case (snoc st' s)
    with out have "seg_ok s" by (simp add: abs_out_def plain_seg_def)
    with out False step snoc last_render_tail_snoc [of s st'] render_tail_nonempty [of st]
    show ?thesis
      by (auto simp: abs_out_def render_abs_def normalize_component_def out_put_def
          split: if_splits)
  qed
  with plain out False show ?thesis
    by (auto simp: abs_out_def abs_step_def render_abs_def render_tail_snoc)
qed

lemma normalize_loop_abs:
  "normalize_loop True cap p out = Some out' \<Longrightarrow> abs_out st out \<Longrightarrow>
   abs_out (foldl abs_step st (segments p)) out'"
proof (induction True cap p out arbitrary: st rule: normalize_loop.induct)
  case (1 cap out)
  then show ?case by simp
next
  case (2 cap c p out)
  show ?case
  proof (cases "c = CHR ''/''")
    case True
    with 2 show ?thesis by simp
  next
    case False
    let ?seg = "c # takeWhile non_slash p"
    from False 2(3) obtain o1 where
      comp: "normalize_component True cap ?seg out = Some o1" and
      rest: "normalize_loop True cap (dropWhile non_slash p) o1 = Some out'"
      by (auto simp: bind_eq_Some_conv)
    have "abs_out (abs_step st ?seg) o1"
      using abs_out_component [OF 2(4) seg_ok_taken [OF False] comp] .
    from 2(2) [OF False comp rest this] False show ?thesis by simp
  qed
qed

text \<open>The same for a relative path, whose output never ends in a slash.\<close>

definition rel_out :: "string list \<Rightarrow> string \<Rightarrow> bool" where
  "rel_out st out \<longleftrightarrow> (\<forall>s \<in> set st. seg_ok s \<and> s \<noteq> ''.'') \<and> out = render_rel st"

lemma render_rel_snoc:
  "render_rel (st @ [s]) = (if st = [] then s else render_rel st @ CHR ''/'' # s)"
  using render_tail_nonempty [of st] by (auto simp: render_rel_def render_tail_def)

lemma render_rel_nonempty: "seg_ok s \<Longrightarrow> render_rel (st @ [s]) \<noteq> []"
  by (auto simp: render_rel_snoc seg_ok_def)

lemma not_dot_char_before:
  assumes "seg_ok s" "s \<noteq> ''.''" "p = [] \<or> last p = CHR ''/''"
  shows "\<not> ((p @ s) ! (length (p @ s) - 1) = CHR ''.'' \<and>
             (length (p @ s) < 2 \<or> (p @ s) ! (length (p @ s) - 2) = CHR ''/''))"
proof (cases s rule: rev_cases)
  case Nil
  with assms show ?thesis by (simp add: seg_ok_def)
next
  case (snoc t c)
  show ?thesis
  proof (cases t rule: rev_cases)
    case Nil
    with assms snoc show ?thesis by simp
  next
    case (snoc u d)
    with assms(1) \<open>s = t @ [c]\<close> have "d \<noteq> CHR ''/''" by (auto simp: seg_ok_def)
    with snoc \<open>s = t @ [c]\<close> show ?thesis by (simp add: nth_append)
  qed
qed

lemma normalize_up_rel_out:
  assumes "rel_out st out" and "normalize_up_rel cap out = Some out'"
  shows "rel_out (rel_step st ''..'') out'"
proof (cases st rule: rev_cases)
  case Nil
  with assms show ?thesis
    by (auto simp: rel_out_def render_rel_def render_tail_def normalize_up_rel_def out_put_def
        rel_step_def seg_ok_def split: if_splits)
next
  case (snoc st' s)
  with assms have s: "seg_ok s" "s \<noteq> ''.''" and st': "\<forall>s \<in> set st'. seg_ok s \<and> s \<noteq> ''.''"
    and out: "out = render_rel (st' @ [s])"
    by (auto simp: rel_out_def)
  have bs: "CHR ''/'' \<notin> set (butlast s)"
    using s by (auto simp: seg_ok_def dest: in_set_butlastD)
  have up: "\<not> (out ! (length out - 1) = CHR ''.'' \<and>
      (length out < 2 \<or> out ! (length out - 2) = CHR ''/''))"
    using not_dot_char_before [OF s, of "if st' = [] then [] else render_rel st' @ ''/''"] out
    by (auto simp: render_rel_snoc)
  have ne: "out \<noteq> []" using out s by (simp add: render_rel_nonempty)
  let ?prev = "rewind_to_slash 0 (butlast out)"
  have out': "out' = (if 0 < length ?prev then butlast ?prev else ?prev)"
    using assms(2) up ne unfolding normalize_up_rel_def Let_def by auto
  have "out' = render_rel st'"
  proof (cases "st' = []")
    case True
    with out' out bs show ?thesis
      using render_rel_snoc [of "[]" s] by (simp add: rewind_to_slash_all render_rel_def)
  next
    case False
    have "?prev = render_rel st' @ ''/''"
      using False out bs s by (simp add: render_rel_snoc butlast_append rewind_to_slash_seg seg_ok_def)
    with out' show ?thesis by simp
  qed
  with st' snoc show ?thesis by (auto simp: rel_out_def rel_step_def)
qed

lemma rel_out_component:
  assumes out: "rel_out st out" and seg: "seg_ok seg"
    and step: "normalize_component False cap seg out = Some out'"
  shows "rel_out (rel_step st seg) out'"
proof (cases "seg = ''.'' \<or> seg = ''..''")
  case True
  then show ?thesis
    using out step normalize_up_rel_out [OF out]
    by (auto simp: normalize_component_def rel_step_def)
next
  case False
  have "out' = render_rel (st @ [seg])"
  proof (cases st rule: rev_cases)
    case Nil
    with out False step show ?thesis
      by (auto simp: rel_out_def render_rel_def render_tail_def normalize_component_def out_put_def
          split: if_splits)
  next
    case (snoc st' s)
    with out have s: "seg_ok s" by (simp add: rel_out_def)
    then have "last s \<noteq> CHR ''/''" by (auto simp: seg_ok_def dest: last_in_set)
    moreover have "last out = last s"
      using out snoc s by (auto simp: rel_out_def render_rel_snoc seg_ok_def)
    moreover have "out \<noteq> []"
      using out snoc render_rel_nonempty [OF s] by (simp add: rel_out_def)
    ultimately have "out' = out @ CHR ''/'' # seg" using False step
      by (auto simp: normalize_component_def out_put_def split: if_splits)
    moreover have "st \<noteq> []" using snoc by simp
    ultimately show ?thesis using out render_rel_snoc [of st seg] by (simp add: rel_out_def)
  qed
  with seg out False show ?thesis by (auto simp: rel_out_def rel_step_def)
qed

lemma normalize_loop_rel:
  "normalize_loop False cap p out = Some out' \<Longrightarrow> rel_out st out \<Longrightarrow>
   rel_out (foldl rel_step st (segments p)) out'"
proof (induction False cap p out arbitrary: st rule: normalize_loop.induct)
  case (1 cap out)
  then show ?case by simp
next
  case (2 cap c p out)
  show ?case
  proof (cases "c = CHR ''/''")
    case True
    with 2 show ?thesis by simp
  next
    case False
    let ?seg = "c # takeWhile non_slash p"
    from False 2(3) obtain o1 where
      comp: "normalize_component False cap ?seg out = Some o1" and
      rest: "normalize_loop False cap (dropWhile non_slash p) o1 = Some out'"
      by (auto simp: bind_eq_Some_conv)
    have "rel_out (rel_step st ?seg) o1"
      using rel_out_component [OF 2(4) seg_ok_taken [OF False] comp] .
    from 2(2) [OF False comp rest this] False show ?thesis by simp
  qed
qed

section \<open>The buffer is large enough\<close>

text \<open>
  A separator is written only where the input had one. gap is 1 while the output still needs
  the separator of a segment that starts right now.
\<close>

definition gap :: "string \<Rightarrow> string \<Rightarrow> nat" where
  "gap out p = (if out \<noteq> [] \<and> last out \<noteq> CHR ''/'' \<and> p \<noteq> [] \<and> hd p \<noteq> CHR ''/'' then 1 else 0)"

lemma length_rewind: "length (rewind_to_slash lim out) \<le> length out"
proof (induction lim out rule: rewind_to_slash.induct)
  case (1 lim out)
  show ?case
  proof (cases "lim < length out \<and> last out \<noteq> CHR ''/''")
    case True
    with 1 show ?thesis by (subst rewind_to_slash.simps) auto
  next
    case False
    then show ?thesis by (subst rewind_to_slash.simps) auto
  qed
qed

lemma length_up_abs: "length (normalize_up_abs out) \<le> length out"
  using length_rewind [of 1 "butlast out"] by (auto simp: normalize_up_abs_def)

lemma normalize_up_rel_total:
  assumes "length out + (if out \<noteq> [] \<and> last out \<noteq> CHR ''/'' then 3 else 2) < cap"
  shows "\<exists>out'. normalize_up_rel cap out = Some out' \<and>
    length out' \<le> length out + (if out \<noteq> [] \<and> last out \<noteq> CHR ''/'' then 3 else 2)"
proof (cases "0 < length out \<and> \<not> (out ! (length out - 1) = CHR ''.'' \<and>
    (length out < 2 \<or> out ! (length out - 2) = CHR ''/''))")
  case True
  then show ?thesis using length_rewind [of 0 "butlast out"]
    unfolding normalize_up_rel_def Let_def by auto
next
  case False
  then have "out = [] \<or> last out = CHR ''.''"
    by (cases "out = []") (auto simp: last_conv_nth)
  with assms have "out = [] \<or> (last out = CHR ''.'' \<and> length out + 3 < cap)" by auto
  with False assms show ?thesis
    unfolding normalize_up_rel_def Let_def by (auto simp: out_put_def)
qed

lemma normalize_component_total:
  assumes "length out + length seg + (if out \<noteq> [] \<and> last out \<noteq> CHR ''/'' then 1 else 0) < cap"
  shows "\<exists>out'. normalize_component a cap seg out = Some out' \<and>
    length out' \<le> length out + length seg + (if out \<noteq> [] \<and> last out \<noteq> CHR ''/'' then 1 else 0)"
proof (cases "seg = ''..''")
  case True
  show ?thesis
  proof (cases a)
    case True
    with \<open>seg = ''..''\<close> length_up_abs [of out] show ?thesis
      by (auto simp: normalize_component_def intro: le_trans)
  next
    case False
    with \<open>seg = ''..''\<close> assms normalize_up_rel_total [of out cap] show ?thesis
      by (auto simp: normalize_component_def split: if_splits)
  qed
next
  case False
  with assms show ?thesis by (auto simp: normalize_component_def out_put_def)
qed

lemma takeWhile_dropWhile_length: "length (takeWhile P xs) + length (dropWhile P xs) = length xs"
  by (metis length_append takeWhile_dropWhile_id)

lemma gap_after_segment: "gap out (dropWhile non_slash p) = 0"
  using hd_dropWhile [of non_slash p] by (auto simp: gap_def)

lemma normalize_loop_total:
  "length out + length p + gap out p < cap \<Longrightarrow>
   \<exists>out'. normalize_loop a cap p out = Some out' \<and> length out' < cap"
proof (induction a cap p out rule: normalize_loop.induct)
  case (1 a cap out)
  then show ?case by simp
next
  case (2 a cap c p out)
  show ?case
  proof (cases "c = CHR ''/''")
    case True
    with 2(3) have "length out + length p + gap out p < cap"
      by (auto simp: gap_def split: if_splits)
    with 2(1) True show ?thesis by simp
  next
    case False
    let ?seg = "c # takeWhile non_slash p" and ?rest = "dropWhile non_slash p"
    have len: "length ?seg + length ?rest = Suc (length p)"
      using takeWhile_dropWhile_length [of non_slash p] by simp
    have "length out + length ?seg + (if out \<noteq> [] \<and> last out \<noteq> CHR ''/'' then 1 else 0) < cap"
      using 2(3) False len by (auto simp: gap_def split: if_splits)
    from normalize_component_total [OF this, of a] obtain o1 where
      o1: "normalize_component a cap ?seg out = Some o1" and
      l1: "length o1 \<le> length out + length ?seg + (if out \<noteq> [] \<and> last out \<noteq> CHR ''/'' then 1 else 0)"
      by blast
    have "length o1 + length ?rest + gap o1 ?rest < cap"
      using l1 2(3) False len gap_after_segment [of o1 p]
      by (auto simp: gap_def [of out "c # p"] split: if_splits)
    with 2(2) [OF False o1] o1 False show ?thesis by simp
  qed
qed

lemma normalize_path_runs:
  fixes p :: string
  defines "a \<equiv> (p \<noteq> [] \<and> hd p = CHR ''/'')"
  shows "\<exists>out. normalize_loop a (length p + 2) p (if a then ''/'' else []) = Some out \<and>
    length out < length p + 2 \<and>
    normalize_path True (Some p) = Some (Some (if out = [] then ''.'' else out))"
proof -
  have "length (if a then ''/'' else []) + length p + gap (if a then ''/'' else []) p < length p + 2"
    by (simp add: gap_def)
  from normalize_loop_total [OF this, of a] obtain out where
    out: "normalize_loop a (length p + 2) p (if a then ''/'' else []) = Some out"
      "length out < length p + 2" by blast
  have init: "(if a then out_put (length p + 2) [] ''/'' else Some []) = Some (if a then ''/'' else [])"
    by (simp add: out_put_def)
  have "normalize_path True (Some p) = Some (Some (if out = [] then ''.'' else out))"
  proof (cases a)
    case True
    then have "p \<noteq> []" "hd p = CHR ''/''" by (auto simp: a_def)
    with True out init show ?thesis by (auto simp: normalize_path_def out_put_def)
  next
    case False
    then have "\<not> (p \<noteq> [] \<and> hd p = CHR ''/'')" by (simp add: a_def)
    with False out init show ?thesis by (auto simp: normalize_path_def out_put_def Let_def)
  qed
  with out show ?thesis by blast
qed

lemma plain_seg_ok: "plain_seg s \<Longrightarrow> seg_ok s"
  by (simp add: plain_seg_def)

lemma abs_out_segments:
  assumes "abs_out st out"
  shows "segments out = st"
proof -
  have ok: "\<forall>s \<in> set st. seg_ok s" using assms plain_seg_ok by (simp add: abs_out_def)
  from assms consider "out = render_abs st" | "out = render_tail st @ ''/''"
    by (auto simp: abs_out_def)
  then show ?thesis
    by cases (simp_all add: ok segments_render_abs segments_trailing_slash segments_render_tail)
qed

lemma abs_out_shape: "abs_out st out \<Longrightarrow> out = render_abs st \<or> out = render_abs st @ ''/''"
  by (auto simp: abs_out_def render_abs_def)

lemma normalize_path_abs_out:
  assumes "hd p = CHR ''/''" "p \<noteq> []"
  shows "\<exists>out. normalize_path True (Some p) = Some (Some out) \<and> abs_out (resolve_abs (segments p)) out"
proof -
  from assms normalize_path_runs [of p] obtain out where
    loop: "normalize_loop True (length p + 2) p ''/'' = Some out" and
    res: "normalize_path True (Some p) = Some (Some (if out = [] then ''.'' else out))"
    by auto
  have "abs_out [] ''/''" by (simp add: abs_out_def render_abs_def)
  from normalize_loop_abs [OF loop this]
  have "abs_out (resolve_abs (segments p)) out" by (simp add: resolve_abs_def)
  moreover from this have "out \<noteq> []"
    by (auto simp: abs_out_def render_abs_def dest: render_tail_nonempty split: if_splits)
  ultimately show ?thesis using res by auto
qed

lemma normalize_path_rel_out:
  assumes "p = [] \<or> hd p \<noteq> CHR ''/''"
  shows "\<exists>out. normalize_path True (Some p) = Some (Some (if out = [] then ''.'' else out)) \<and>
    rel_out (resolve_rel (segments p)) out"
proof -
  from assms normalize_path_runs [of p] obtain out where
    loop: "normalize_loop False (length p + 2) p [] = Some out" and
    res: "normalize_path True (Some p) = Some (Some (if out = [] then ''.'' else out))"
    by auto
  have "rel_out [] []" by (simp add: rel_out_def render_rel_def)
  from normalize_loop_rel [OF loop this] res show ?thesis
    by (auto simp: resolve_rel_def)
qed

text \<open>
  C24. normalize_path always returns a string: for every input and at every step, each write,
  the terminator included, stays inside the strlen(path) + 2 bytes that were allocated.
\<close>

theorem normalize_path_in_bounds:
  "\<exists>out. normalize_path True (Some p) = Some (Some out) \<and> length out + 1 \<le> length p + 2"
  using normalize_path_runs [of p] by fastforce

text \<open>
  C25. On an absolute path the code computes the abstract resolution: the result denotes exactly
  the stack of the path's segments with dots dropped and double dots applied (never above the
  root), and is that stack written with single slashes, but for one trailing slash the code may
  leave after a double dot. No segment of it is a dot or a double dot.
\<close>

theorem normalize_path_absolute:
  assumes "p \<noteq> []" and "hd p = CHR ''/''"
  shows "\<exists>out. normalize_path True (Some p) = Some (Some out) \<and>
    segments out = resolve_abs (segments p) \<and>
    (out = render_abs (segments out) \<or> out = render_abs (segments out) @ ''/'') \<and>
    list_all plain_seg (segments out)"
proof -
  from normalize_path_abs_out assms obtain out where
    out: "normalize_path True (Some p) = Some (Some out)" and
    inv: "abs_out (resolve_abs (segments p)) out" by blast
  from out abs_out_segments [OF inv] abs_out_shape [OF inv] inv show ?thesis
    by (auto simp: abs_out_def list_all_iff)
qed

theorem normalize_path_absolute_witness:
  "\<exists>out. normalize_path True (Some ''/usr/../hello/./world.txt'') = Some (Some out) \<and>
    segments out = [''hello'', ''world.txt'']"
  using normalize_path_absolute [of "''/usr/../hello/./world.txt''"]
  by (auto simp: resolve_abs_def abs_step_def)

text \<open>
  On a relative path the code computes the relative resolution, exactly and without a
  trailing slash; the empty result is written as a dot.
\<close>

theorem normalize_path_relative:
  assumes "p = [] \<or> hd p \<noteq> CHR ''/''"
  shows "normalize_path True (Some p) =
    Some (Some (if resolve_rel (segments p) = [] then ''.''
                else render_rel (resolve_rel (segments p))))"
proof -
  from normalize_path_rel_out [OF assms] obtain out where
    res: "normalize_path True (Some p) = Some (Some (if out = [] then ''.'' else out))" and
    inv: "rel_out (resolve_rel (segments p)) out" by blast
  have "out = [] \<longleftrightarrow> resolve_rel (segments p) = []"
    using inv render_rel_nonempty
    by (cases "resolve_rel (segments p)" rule: rev_cases) (auto simp: rel_out_def render_rel_def)
  with res inv show ?thesis by (auto simp: rel_out_def)
qed

theorem normalize_path_relative_witness:
  "hd ''a/./b/../c'' \<noteq> CHR ''/'' \<and> normalize_path True (Some ''a/./b/../c'') = Some (Some ''a/c'')"
  using normalize_path_relative [of "''a/./b/../c''"]
  by (simp add: resolve_rel_def rel_step_def render_rel_def render_tail_def)

text \<open>
  Two leading double dots cancel: the guard that should keep them looks for a dot right
  after a slash, which no output has, so the second one removes the first and a path two levels
  up is resolved to the current directory.
\<close>

theorem normalize_path_double_up:
  "normalize_path True (Some ''../..'') = Some (Some ''.'') \<and>
   normalize_path True (Some ''../../etc'') = Some (Some ''etc'')"
  by (simp add: normalize_path_def normalize_component_def normalize_up_rel_def out_put_def
      rewind_to_slash.simps Let_def)

section \<open>What path_next_dir enumerates\<close>

text \<open>The index of the first slash at or after k, or of the terminator.\<close>

definition next_cut :: "string \<Rightarrow> nat \<Rightarrow> nat" where
  "next_cut s k = k + length (takeWhile non_slash (drop k s))"

lemma next_cut_le: "k \<le> length s \<Longrightarrow> next_cut s k \<le> length s"
  using takeWhile_dropWhile_length [of non_slash "drop k s"] by (simp add: next_cut_def)

lemma next_dir_scan_from:
  "NUL \<notin> set cs \<Longrightarrow> skip < i \<Longrightarrow>
   next_dir_scan skip i (cs @ [NUL]) = Some (i + int (length (takeWhile non_slash cs)))"
  by (induction cs arbitrary: i) (auto simp: NUL_def)

lemma next_dir_scan_skips:
  "NUL \<notin> set cs \<Longrightarrow> i \<le> skip + 1 \<Longrightarrow> nat (skip + 1 - i) \<le> length cs \<Longrightarrow>
   next_dir_scan skip i (cs @ [NUL]) =
     Some (skip + 1 + int (length (takeWhile non_slash (drop (nat (skip + 1 - i)) cs))))"
proof (induction cs arbitrary: i)
  case Nil
  then show ?case by (simp add: NUL_def)
next
  case (Cons c cs)
  show ?case
  proof (cases "i = skip + 1")
    case True
    with Cons.prems next_dir_scan_from [of "c # cs" skip i] show ?thesis by simp
  next
    case False
    with Cons.prems have "nat (skip + 1 - i) = Suc (nat (skip + 1 - (i + 1)))" by simp
    with False Cons show ?thesis by auto
  qed
qed

text \<open>What the static state holds between two calls on a string.\<close>

definition nd_inv :: "string \<Rightarrow> nat \<Rightarrow> next_dir_state \<Rightarrow> bool" where
  "nd_inv s k st \<longleftrightarrow> NUL \<notin> set s \<and> k \<le> length s \<and>
     st = \<lparr>nd_path = (s @ [NUL])[k := NUL], nd_len = int (length s), nd_curr_slash = int k\<rparr>"

lemma takeWhile_cut:
  assumes "NUL \<notin> set s" "k \<le> length s"
  shows "takeWhile (\<lambda>c. c \<noteq> NUL) ((s @ [NUL])[k := NUL]) = take k s"
proof -
  have "(s @ [NUL])[k := NUL] = take k s @ NUL # drop (Suc k) (s @ [NUL])"
    using assms(2) by (simp add: upd_conv_take_nth_drop)
  moreover have "NUL \<notin> set (take k s)" using assms(1) by (meson in_set_takeD)
  ultimately show ?thesis by (simp add: takeWhile_to_NUL)
qed

lemma path_next_dir_first:
  assumes s: "NUL \<notin> set s" and skip: "-1 \<le> skip" "skip < int (length s)"
  defines "k \<equiv> next_cut s (nat (skip + 1))"
  shows "\<exists>st. path_next_dir (Some s) skip st0 = Some (Some (take k s), st) \<and> nd_inv s k st"
proof -
  have "next_dir_scan skip 0 (s @ [NUL]) = Some (int k)"
    using next_dir_scan_skips [OF s, of 0 skip] skip by (simp add: k_def next_cut_def)
  moreover have "k \<le> length s" using skip by (simp add: k_def next_cut_le)
  ultimately show ?thesis using s
    by (simp add: path_next_dir_def takeWhile_cut nd_inv_def)
qed

lemma path_next_dir_next:
  assumes inv: "nd_inv s k st" and k: "k < length s"
  defines "j \<equiv> next_cut s (Suc k)"
  assumes slash: "s ! k = CHR ''/''"
  shows "\<exists>st'. path_next_dir None 0 st = Some (Some (take j s), st') \<and> nd_inv s j st'"
proof -
  from inv have s: "NUL \<notin> set s"
    and st: "st = \<lparr>nd_path = (s @ [NUL])[k := NUL], nd_len = int (length s), nd_curr_slash = int k\<rparr>"
    by (auto simp: nd_inv_def)
  have restore: "(s @ [NUL])[k := NUL, k := CHR ''/''] = s @ [NUL]"
    using k slash by (simp add: list_update_append) (metis list_update_id)
  have "NUL \<notin> set (drop (Suc k) s)" using s by (meson in_set_dropD)
  from next_dir_scan_from [OF this, of 0 "int k + 1"] k
  have "next_dir_scan 0 (int k + 1) (drop (nat (int k + 1)) (s @ [NUL])) = Some (int j)"
    by (simp add: j_def next_cut_def nat_add_distrib add.assoc)
  moreover have "j \<le> length s" using k by (simp add: j_def next_cut_le)
  ultimately show ?thesis using s k restore
    by (simp add: path_next_dir_def takeWhile_cut nd_inv_def st)
qed

lemma path_next_dir_last: "nd_inv s (length s) st \<Longrightarrow> path_next_dir None 0 st = Some (None, st)"
  by (auto simp: nd_inv_def path_next_dir_def)

text \<open>The calls a loop makes after the first one.\<close>

fun next_dir_calls ::
  "nat \<Rightarrow> next_dir_state \<Rightarrow> (string option list \<times> next_dir_state) option" where
  "next_dir_calls 0 st = Some ([], st)"
| "next_dir_calls (Suc n) st = do {
     (d, st) \<leftarrow> path_next_dir None 0 st;
     (ds, st) \<leftarrow> next_dir_calls n st;
     Some (d # ds, st)
   }"

lemma next_dir_calls_step:
  "path_next_dir None 0 st = Some (d, st1) \<Longrightarrow> next_dir_calls n st1 = Some (ds, st2) \<Longrightarrow>
   next_dir_calls (Suc n) st = Some (d # ds, st2)"
  by simp

lemma next_cut_render:
  assumes "seg_ok y"
  shows "next_cut (render_tail (xs @ y # ys)) (Suc (length (render_tail xs))) =
    length (render_tail (xs @ [y]))"
proof -
  have "render_tail (xs @ y # ys) = render_tail xs @ CHR ''/'' # y @ render_tail ys"
    by (simp add: render_tail_def)
  moreover have "takeWhile non_slash (y @ render_tail ys) = y"
    using assms
    by (cases ys) (simp_all add: render_tail_def seg_ok_def takeWhile_seg_append takeWhile_non_slash_id)
  ultimately show ?thesis by (simp add: next_cut_def render_tail_def)
qed

lemma take_render: "take (length (render_tail xs)) (render_tail (xs @ ys)) = render_tail xs"
  by (simp add: render_tail_def)

lemma nth_render: "ys \<noteq> [] \<Longrightarrow> render_tail (xs @ ys) ! length (render_tail xs) = CHR ''/''"
  by (cases ys) (simp_all add: render_tail_def)

lemma next_dir_calls_render:
  "nd_inv (render_tail (xs @ ys)) (length (render_tail xs)) st \<Longrightarrow> \<forall>y \<in> set ys. seg_ok y \<Longrightarrow>
   \<exists>st'. next_dir_calls (length ys + 1) st =
     Some (map (\<lambda>n. Some (render_tail (xs @ take (Suc n) ys))) [0..<length ys] @ [None], st')"
proof (induction ys arbitrary: xs st)
  case Nil
  then show ?case using path_next_dir_last [of "render_tail xs" st] by simp
next
  case (Cons y ys)
  let ?s = "render_tail (xs @ y # ys)"
  have lt: "length (render_tail xs) < length ?s" by (simp add: render_tail_def)
  from path_next_dir_next [OF Cons.prems(1) lt] nth_render [of "y # ys" xs]
    next_cut_render [of y xs ys] Cons.prems(2)
  obtain st1 where
    call: "path_next_dir None 0 st = Some (Some (take (length (render_tail (xs @ [y]))) ?s), st1)" and
    inv: "nd_inv ?s (length (render_tail (xs @ [y]))) st1"
    by auto
  have "take (length (render_tail (xs @ [y]))) ?s = render_tail (xs @ [y])"
    using take_render [of "xs @ [y]" ys] by simp
  with call have call': "path_next_dir None 0 st = Some (Some (render_tail (xs @ [y])), st1)"
    by simp
  from Cons.IH [of "xs @ [y]" st1] inv Cons.prems(2) obtain st' where
    calls: "next_dir_calls (length ys + 1) st1 =
       Some (map (\<lambda>n. Some (render_tail ((xs @ [y]) @ take (Suc n) ys))) [0..<length ys] @ [None], st')"
    by auto
  have "map (\<lambda>n. Some (render_tail (xs @ take (Suc n) (y # ys)))) [0..<length (y # ys)] =
    Some (render_tail (xs @ [y])) #
      map (\<lambda>n. Some (render_tail ((xs @ [y]) @ take (Suc n) ys))) [0..<length ys]"
    by (simp add: upt_conv_Cons map_Suc_upt [symmetric] del: upt_Suc)
  with next_dir_calls_step [OF call' calls] show ?case
    by (simp del: next_dir_calls.simps upt_Suc)
qed

text \<open>
  The directory iterator: on a path with root as its first segments, the call that skips the
  root returns the root, and the following calls return each longer prefix, outermost directory
  first and the whole path last, then NULL; no call leaves the buffer.
\<close>

theorem path_next_dir_enumerates:
  assumes segs: "\<forall>x \<in> set (root @ below). seg_ok x \<and> NUL \<notin> set x" and root: "root \<noteq> []"
  shows "\<exists>st st'.
    path_next_dir (Some (render_tail (root @ below))) (int (length (render_tail root)) - 1) st0 =
      Some (Some (render_tail root), st) \<and>
    next_dir_calls (length below + 1) st =
      Some (map (\<lambda>n. Some (render_tail (root @ take (Suc n) below))) [0..<length below] @ [None], st')"
proof -
  let ?s = "render_tail (root @ below)" and ?l = "length (render_tail root)"
  have nul: "NUL \<notin> set ?s" using segs by (auto simp: render_tail_def NUL_def)
  have l: "0 < ?l" using render_tail_nonempty [OF root] by simp
  have "next_cut ?s ?l = ?l"
    using nth_render [of below root]
    by (cases below) (auto simp: next_cut_def render_tail_def)
  moreover have "?l \<le> length ?s" by (simp add: render_tail_def)
  ultimately obtain st where
    "path_next_dir (Some ?s) (int ?l - 1) st0 = Some (Some (render_tail root), st)" "nd_inv ?s ?l st"
    using path_next_dir_first [OF nul, of "int ?l - 1" st0] l take_render [of root below] by auto
  with next_dir_calls_render [of root below st] segs show ?thesis by auto
qed

theorem path_next_dir_enumerates_witness:
  "\<exists>st st'.
    path_next_dir (Some ''/usr/share/dict/british'') 9 next_dir_statics = Some (Some ''/usr/share'', st) \<and>
    next_dir_calls 3 st =
      Some ([Some ''/usr/share/dict'', Some ''/usr/share/dict/british'', None], st')"
  using path_next_dir_enumerates
    [of "[''usr'', ''share'']" "[''dict'', ''british'']" next_dir_statics]
  by (auto simp: render_tail_def seg_ok_def NUL_def upt_rec numeral_3_eq_3
      simp del: next_dir_calls.simps)

text \<open>
  stridx returns the negated position: a character at position 0 or found nowhere gives 0 or
  -1, and so does a character at position 1, which cannot be told from an absent one.
\<close>

theorem stridx_negated:
  "(c \<notin> set str \<longrightarrow> stridx str c = -1) \<and>
   (\<forall>p < length str. str ! p = c \<and> c \<notin> set (take p str) \<longrightarrow> stridx str c = - int p)"
proof -
  have none: "c \<notin> set str \<Longrightarrow> strchr_index str c = None" by (induction str) auto
  have some: "p < length str \<Longrightarrow> str ! p = c \<Longrightarrow> c \<notin> set (take p str) \<Longrightarrow>
      strchr_index str c = Some p" for p
  proof (induction str arbitrary: p)
    case Nil
    then show ?case by simp
  next
    case (Cons x xs)
    then show ?case by (cases p) auto
  qed
  show ?thesis using none some by (auto simp: stridx_def)
qed

theorem stridx_negated_witness:
  "stridx ''abc'' CHR ''c'' = -2 \<and> stridx ''abc'' CHR ''b'' = -1 \<and> stridx ''abc'' CHR ''z'' = -1"
proof -
  have "stridx ''abc'' CHR ''c'' = - int 2"
    using stridx_negated [of "CHR ''c''" "''abc''"] by (auto simp: numeral_2_eq_2)
  moreover have "stridx ''abc'' CHR ''b'' = - int 1"
    using stridx_negated [of "CHR ''b''" "''abc''"] by auto
  moreover have "stridx ''abc'' CHR ''z'' = -1"
    using stridx_negated [of "CHR ''z''" "''abc''"] by auto
  ultimately show ?thesis by simp
qed

end
