(* ===== verification/UserPath.thy ===== *)
theory UserPath
  imports Paths
begin

text \<open>
  What get_user_root and get_user_path (src/util.c, lines 410-439) promise about the paths a
  client may reach. The prefix test of get_user_path is analysed once, over the contract of a
  path normaliser, and the contract is then discharged by normalize_path.
\<close>

section \<open>The contract of a normaliser and the prefix test\<close>

locale path_normaliser =
  fixes norm :: "string \<Rightarrow> string"
  assumes norm_segments:
    "p \<noteq> [] \<Longrightarrow> hd p = CHR ''/'' \<Longrightarrow> segments (norm p) = resolve_abs (segments p)"
  and norm_shape:
    "p \<noteq> [] \<Longrightarrow> hd p = CHR ''/'' \<Longrightarrow>
     norm p = render_abs (segments (norm p)) \<or> norm p = render_abs (segments (norm p)) @ ''/''"
begin

lemma norm_plain:
  "p \<noteq> [] \<Longrightarrow> hd p = CHR ''/'' \<Longrightarrow> \<forall>s \<in> set (segments (norm p)). plain_seg s"
  using resolve_abs_plain [of "segments p"] segments_ok [of _ p] by (simp add: norm_segments)

text \<open>The test strncmp(norm, root, strlen(root)) accepts the root, everything below it, and also
  what lies in or below a sibling whose name starts with the name of the root directory.\<close>

lemma prefix_test:
  assumes p: "p \<noteq> []" "hd p = CHR ''/''"
    and ds: "\<forall>s \<in> set ds. seg_ok s" and t: "seg_ok t"
  shows "prefix (render_tail (ds @ [t])) (norm p) \<longleftrightarrow>
    (\<exists>suf rest. segments (norm p) = ds @ (t @ suf) # rest)"
proof
  assume "prefix (render_tail (ds @ [t])) (norm p)"
  then obtain m where "norm p = render_tail ds @ CHR ''/'' # (t @ m)"
    by (auto simp: prefix_def render_tail_snoc)
  then have "segments (norm p) = ds @ segments (t @ m)"
    using ds by (simp add: segments_append_slash segments_render_tail)
  moreover have "\<exists>suf rest. segments (t @ m) = (t @ suf) # rest"
    using t by (cases t) (auto simp: seg_ok_def takeWhile_seg_any)
  ultimately show "\<exists>suf rest. segments (norm p) = ds @ (t @ suf) # rest" by auto
next
  assume "\<exists>suf rest. segments (norm p) = ds @ (t @ suf) # rest"
  then obtain suf rest where segs: "segments (norm p) = ds @ (t @ suf) # rest" by blast
  then have "render_abs (segments (norm p)) =
      render_tail (ds @ [t]) @ suf @ render_tail rest"
    by (simp add: render_abs_def render_tail_def)
  with norm_shape [OF p] show "prefix (render_tail (ds @ [t])) (norm p)"
    by (metis append_assoc prefixI)
qed

end

definition normalized :: "string \<Rightarrow> string" where
  "normalized p = (case normalize_path True (Some p) of Some (Some n) \<Rightarrow> n | _ \<Rightarrow> [])"

lemma normalize_path_normalized: "normalize_path True (Some p) = Some (Some (normalized p))"
  using normalize_path_runs [of p] by (auto simp: normalized_def)

lemma normalized_abs_out:
  assumes "p \<noteq> []" "hd p = CHR ''/''"
  shows "abs_out (resolve_abs (segments p)) (normalized p)"
  using normalize_path_abs_out [OF assms(2,1)] by (auto simp: normalized_def)

interpretation np: path_normaliser normalized
proof unfold_locales
  fix p :: string
  assume p: "p \<noteq> []" "hd p = CHR ''/''"
  note inv = normalized_abs_out [OF p]
  show segs: "segments (normalized p) = resolve_abs (segments p)"
    by (rule abs_out_segments [OF inv])
  show "normalized p = render_abs (segments (normalized p)) \<or>
        normalized p = render_abs (segments (normalized p)) @ ''/''"
    unfolding segs by (rule abs_out_shape [OF inv])
qed

section \<open>The root directory of a user\<close>

text \<open>
  libuuid documents the text of a UUID as 36 characters, hexadecimal digits and dashes: in
  particular no slash, no NUL and not a dot name.
\<close>

definition uuid_text :: "('u \<Rightarrow> string) \<Rightarrow> bool" where
  "uuid_text unparse \<longleftrightarrow>
     (\<forall>u. length (unparse u) = 36 \<and> set (unparse u) \<subseteq> set ''0123456789abcdefABCDEF-'')"

lemma uuid_text_seg:
  assumes "uuid_text unparse"
  shows "plain_seg (unparse u)" "NUL \<notin> set (unparse u)" "length (unparse u) = 36"
proof -
  have len: "length (unparse u) = 36" and chars: "set (unparse u) \<subseteq> set ''0123456789abcdefABCDEF-''"
    using assms by (auto simp: uuid_text_def)
  have "CHR ''/'' \<notin> set ''0123456789abcdefABCDEF-''" "NUL \<notin> set ''0123456789abcdefABCDEF-''"
    by (simp_all add: NUL_def)
  with chars have "CHR ''/'' \<notin> set (unparse u)" "NUL \<notin> set (unparse u)" by blast+
  with len show "plain_seg (unparse u)" "NUL \<notin> set (unparse u)" "length (unparse u) = 36"
    by (auto simp: plain_seg_def seg_ok_def)
qed

definition storage_segs :: "string list" where
  "storage_segs = [''var'', ''minibox'']"

lemma storage_segs_ok: "\<forall>s \<in> set storage_segs. plain_seg s"
  by (simp add: storage_segs_def plain_seg_def seg_ok_def)

lemma get_user_root_eq:
  "uuid_text unparse \<Longrightarrow> get_user_root unparse u = STORAGE_DIR @ ''/'' @ unparse u"
  using uuid_text_seg(3) [of unparse u] by (simp add: get_user_root_def PATH_MAX_def STORAGE_DIR_def)

lemma get_user_root_render:
  "uuid_text unparse \<Longrightarrow> get_user_root unparse u = render_tail (storage_segs @ [unparse u])"
  by (simp add: get_user_root_eq STORAGE_DIR_def storage_segs_def render_tail_def)

lemma length_get_user_root: "uuid_text unparse \<Longrightarrow> length (get_user_root unparse u) = 49"
  using uuid_text_seg(3) [of unparse u] by (simp add: get_user_root_eq STORAGE_DIR_def)

lemma segments_get_user_root:
  "uuid_text unparse \<Longrightarrow> segments (get_user_root unparse u) = storage_segs @ [unparse u]"
  using uuid_text_seg(1) [of unparse u] storage_segs_ok
  by (auto simp: get_user_root_render segments_render_tail plain_seg_def)

section \<open>get_user_path\<close>

text \<open>Only the first 8141 characters of the client's path survive the snprintf.\<close>

definition kept_path :: "string \<Rightarrow> string" where
  "kept_path path = take 8141 path"

lemma get_user_path_eq:
  assumes "uuid_text unparse"
  shows "get_user_path unparse True path u =
    (let n = normalized (get_user_root unparse u @ ''/'' @ kept_path path)
     in Some (if prefix (get_user_root unparse u) n then Some n else None))"
proof -
  have "snprintf_str (PATH_MAX * 2) (get_user_root unparse u @ ''/'' @ path) =
      get_user_root unparse u @ ''/'' @ kept_path path"
    using length_get_user_root [OF assms, of u]
    by (simp add: snprintf_str_def PATH_MAX_def kept_path_def)
  moreover have "strncmp_eq n r (length r) \<longleftrightarrow> prefix r n" for n r :: string
    using strncmp_eq_prefix [of r n] by (auto simp: strncmp_eq_def)
  ultimately show ?thesis
    by (simp add: get_user_path_def Let_def normalize_path_normalized)
qed

lemma segments_user_path:
  assumes "uuid_text unparse"
  shows "segments (normalized (get_user_root unparse u @ ''/'' @ path)) =
    resolve_abs (storage_segs @ unparse u # segments path)"
proof -
  let ?p = "get_user_root unparse u @ ''/'' @ path"
  have "?p \<noteq> []" "hd ?p = CHR ''/''" by (auto simp: get_user_root_eq [OF assms] STORAGE_DIR_def)
  then show ?thesis
    using segments_append_slash [of "get_user_root unparse u" path]
    by (simp add: np.norm_segments segments_get_user_root [OF assms])
qed

text \<open>Where the client's path leads, below the user's root.\<close>

definition user_target :: "('u \<Rightarrow> string) \<Rightarrow> string \<Rightarrow> 'u \<Rightarrow> string list" where
  "user_target unparse path u =
     resolve_abs (storage_segs @ unparse u # segments (kept_path path))"

definition user_file :: "('u \<Rightarrow> string) \<Rightarrow> string \<Rightarrow> 'u \<Rightarrow> string" where
  "user_file unparse path u = normalized (get_user_root unparse u @ ''/'' @ kept_path path)"

text \<open>What get_user_path returns, in terms of segments.\<close>

lemma get_user_path_exact:
  assumes "uuid_text unparse"
  shows "get_user_path unparse True path u =
    (if \<exists>suf rest. user_target unparse path u = storage_segs @ (unparse u @ suf) # rest
     then Some (Some (user_file unparse path u)) else Some None)
   \<and> segments (user_file unparse path u) = user_target unparse path u"
proof -
  let ?p = "get_user_root unparse u @ ''/'' @ kept_path path"
  have p: "?p \<noteq> []" "hd ?p = CHR ''/''" by (auto simp: get_user_root_eq [OF assms] STORAGE_DIR_def)
  have segs: "segments (normalized ?p) = user_target unparse path u"
    using segments_user_path [OF assms] by (simp add: user_target_def)
  have "prefix (get_user_root unparse u) (normalized ?p) \<longleftrightarrow>
      (\<exists>suf rest. user_target unparse path u = storage_segs @ (unparse u @ suf) # rest)"
    using np.prefix_test [OF p, of storage_segs "unparse u"] storage_segs_ok
      uuid_text_seg(1) [OF assms, of u] segs
    by (simp add: get_user_root_render [OF assms] plain_seg_def)
  then show ?thesis
    using get_user_path_eq [OF assms] segs by (simp add: Let_def user_file_def)
qed

text \<open>The sample token text of the witnesses: 36 times the same digit.\<close>

definition sample_uuid :: "bool \<Rightarrow> string" where
  "sample_uuid b = replicate 36 (if b then CHR ''1'' else CHR ''2'')"

lemma sample_uuid_text: "uuid_text sample_uuid"
  by (simp add: uuid_text_def sample_uuid_def)

lemma sample_uuid_names [simp]: "sample_uuid b \<noteq> ''.''" "sample_uuid b \<noteq> ''..''"
  using uuid_text_seg(1) [OF sample_uuid_text, of b] by (auto simp: plain_seg_def)

text \<open>
  C26. get_user_path, exactly: it never faults; with the segments of the client's path resolved
  below the user's root, it returns a path that denotes the result when the result lies in or below
  a directory of the storage whose name starts with the user's token, and NULL otherwise. The root
  of the user is such a directory, and it need not be the only one.
\<close>

theorem get_user_path_functional:
  assumes "uuid_text unparse"
  shows "get_user_path unparse True path u =
    (if \<exists>suf rest. user_target unparse path u = storage_segs @ (unparse u @ suf) # rest
     then Some (Some (user_file unparse path u)) else Some None)
   \<and> segments (user_file unparse path u) = user_target unparse path u"
  by (rule get_user_path_exact [OF assms])

theorem get_user_path_functional_witness:
  "get_user_path sample_uuid True ''../../../etc/passwd'' True = Some None \<and>
   segments (user_file sample_uuid ''docs/../a.txt'' True) = storage_segs @ [sample_uuid True, ''a.txt'']"
  using get_user_path_functional [OF sample_uuid_text, of "''../../../etc/passwd''" True]
    get_user_path_functional [OF sample_uuid_text, of "''docs/../a.txt''" True]
  by (simp add: user_target_def kept_path_def resolve_abs_def abs_step_def storage_segs_def)

text \<open>
  C15. get_user_path does not lead into another user's storage: a path it returns has no dot segment,
  lies below the storage directory, and never lies in or below the root directory of a user with
  a different token. This is about its result; download_reads_anything (theory Downloads) shows
  that handle_download can open a path that does not come from get_user_path.
\<close>

theorem get_user_path_isolated:
  assumes "uuid_text unparse"
    and "get_user_path unparse True path u = Some (Some p)"
    and "unparse v \<noteq> unparse u"
  shows "list_all plain_seg (segments p) \<and>
    (\<exists>d rest. segments p = storage_segs @ d # rest \<and> d \<noteq> unparse v)"
proof -
  from get_user_path_exact [OF assms(1), of path u] assms(2)
  obtain suf rest where p: "segments p = user_target unparse path u"
    and t: "user_target unparse path u = storage_segs @ (unparse u @ suf) # rest"
    by (auto split: if_splits)
  have "unparse u @ suf \<noteq> unparse v"
  proof
    assume eq: "unparse u @ suf = unparse v"
    then have "length (unparse u @ suf) = length (unparse v)" by simp
    then have "suf = []" by (simp add: uuid_text_seg(3) [OF assms(1)])
    with eq assms(3) show False by simp
  qed
  moreover have "\<forall>s \<in> set (storage_segs @ unparse u # segments (kept_path path)). seg_ok s"
    using storage_segs_ok uuid_text_seg(1) [OF assms(1), of u] segments_ok
    by (auto simp: plain_seg_def)
  from resolve_abs_plain [OF this] p have "list_all plain_seg (segments p)"
    by (simp add: user_target_def list_all_iff)
  ultimately show ?thesis using p t by auto
qed

lemma sample_path: "get_user_path sample_uuid True ''a'' True =
    Some (Some (user_file sample_uuid ''a'' True))"
proof -
  have "\<exists>suf rest. user_target sample_uuid ''a'' True = storage_segs @ (sample_uuid True @ suf) # rest"
    by (rule exI [of _ "[]"], rule exI [of _ "[''a'']"])
      (simp add: user_target_def kept_path_def resolve_abs_def abs_step_def storage_segs_def)
  with get_user_path_exact [OF sample_uuid_text, of "''a''" True] show ?thesis by simp
qed

theorem get_user_path_isolated_witness:
  "sample_uuid False \<noteq> sample_uuid True \<and>
   (\<exists>d rest. segments (user_file sample_uuid ''a'' True) = storage_segs @ d # rest \<and>
      d \<noteq> sample_uuid False)"
proof -
  have ne: "sample_uuid False \<noteq> sample_uuid True" by (simp add: sample_uuid_def)
  from get_user_path_isolated [OF sample_uuid_text sample_path ne] ne show ?thesis by blast
qed

text \<open>
  C27. The prefix test is on characters, not on segments: a path to a sibling of the user's root
  whose name only starts with the token is accepted, although it lies outside the root.
\<close>

theorem get_user_path_sibling:
  assumes "uuid_text unparse" and "seg_ok suf" and "length suf < 100"
  shows "\<exists>p. get_user_path unparse True (''../'' @ unparse u @ suf) u = Some (Some p) \<and>
    segments p = storage_segs @ [unparse u @ suf] \<and>
    \<not> prefix (storage_segs @ [unparse u]) (segments p)"
proof -
  have tok: "plain_seg (unparse u)" "length (unparse u) = 36"
    using uuid_text_seg [OF assms(1)] by auto
  then have ok: "seg_ok (unparse u @ suf)" using assms(2) by (auto simp: plain_seg_def seg_ok_def)
  have "kept_path (''../'' @ unparse u @ suf) = ''..'' @ CHR ''/'' # (unparse u @ suf)"
    using tok assms(3) by (simp add: kept_path_def)
  then have "segments (kept_path (''../'' @ unparse u @ suf)) = [''..'', unparse u @ suf]"
    using segments_append_slash [of "''..''" "unparse u @ suf"] segments_seg [OF ok] by simp
  moreover have "unparse u @ suf \<noteq> ''.''" "unparse u @ suf \<noteq> ''..''"
  proof -
    have "length (unparse u @ suf) \<noteq> length ''.''" "length (unparse u @ suf) \<noteq> length ''..''"
      using tok(2) by auto
    then show "unparse u @ suf \<noteq> ''.''" "unparse u @ suf \<noteq> ''..''" by metis+
  qed
  ultimately have t: "user_target unparse (''../'' @ unparse u @ suf) u = storage_segs @ [unparse u @ suf]"
    using tok by (simp add: user_target_def resolve_abs_def abs_step_def storage_segs_def plain_seg_def)
  have "suf \<noteq> []" using assms(2) by (simp add: seg_ok_def)
  then have "\<not> prefix (storage_segs @ [unparse u]) (storage_segs @ [unparse u @ suf])"
    by simp
  with get_user_path_exact [OF assms(1), of "''../'' @ unparse u @ suf" u] t show ?thesis by auto
qed

theorem get_user_path_sibling_witness:
  "\<exists>p. get_user_path sample_uuid True (''../'' @ sample_uuid True @ ''x'') True = Some (Some p) \<and>
    segments p = storage_segs @ [sample_uuid True @ ''x'']"
  using get_user_path_sibling [OF sample_uuid_text, of "''x''" True] by (auto simp: seg_ok_def)

end
