(* ===== verification/Wire.thy ===== *)
theory Wire
  imports Prelude
begin

text \<open>
  The contract of a C struct that is sent over a socket as its bytes. MessageHdr (msg.h), ChunkHdr
  (chunk.h) and FileInfo (file.h) all are: each theory interprets the contract with its layout.
\<close>

locale wire_struct =
  fixes enc :: "'a \<Rightarrow> byte list" and dec :: "byte list \<Rightarrow> 'a"
    and sz :: nat and wf :: "'a \<Rightarrow> bool"
  assumes length_enc: "wf x \<Longrightarrow> length (enc x) = sz"
    and dec_enc: "wf x \<Longrightarrow> dec (enc x) = x"
    and enc_dec: "length bs = sz \<Longrightarrow> enc (dec bs) = bs"
    and wf_dec: "length bs = sz \<Longrightarrow> wf (dec bs)"
begin

lemma enc_inject: "wf x \<Longrightarrow> wf y \<Longrightarrow> enc x = enc y \<Longrightarrow> x = y"
  by (metis dec_enc)

lemma dec_inject: "length a = sz \<Longrightarrow> length b = sz \<Longrightarrow> dec a = dec b \<Longrightarrow> a = b"
  by (metis enc_dec)

text \<open>A struct in front of more bytes.\<close>

lemma take_enc [simp]: "wf x \<Longrightarrow> take sz (enc x @ rest) = enc x"
  by (simp add: length_enc)

lemma drop_enc [simp]: "wf x \<Longrightarrow> drop sz (enc x @ rest) = rest"
  by (simp add: length_enc)

text \<open>Overwriting the first bytes of a struct in memory.\<close>

lemma overwrite_all: "wf x \<Longrightarrow> length got = sz \<Longrightarrow> got @ drop (length got) (enc x) = got"
  by (simp add: length_enc)

lemma length_overwrite:
  "wf x \<Longrightarrow> length got \<le> sz \<Longrightarrow> length (got @ drop (length got) (enc x)) = sz"
  by (simp add: length_enc)

lemma wf_overwrite: "wf x \<Longrightarrow> length got \<le> sz \<Longrightarrow> wf (dec (got @ drop (length got) (enc x)))"
  by (rule wf_dec) (rule length_overwrite)

text \<open>Reading a struct back from a stream that was written as structs.\<close>

lemma stream_inject:
  "wf x \<Longrightarrow> wf y \<Longrightarrow> enc x @ s = enc y @ t \<longleftrightarrow> x = y \<and> s = t"
  by (metis append_eq_append_conv enc_inject length_enc)

end

end
