(* ===== verification/Msg.thy ===== *)
theory Msg
  imports Wire
begin

text \<open>
  The message protocol: src/msg.h and src/msg.c. Message headers are raw structs on the wire,
  so the theory gives their byte layout (x86-64 Linux: 48 bytes, 4 of them padding), the kernel's
  side of a stream socket (what recv and send may answer), send_all and recv_all, and the
  message operations built on them.
\<close>

section \<open>Message types\<close>

datatype MessageType =
    MSGTYPE_NONE
  | MSGTYPE_ERROR
  | MSGTYPE_AUTH_REQ
  | MSGTYPE_AUTH_OK
  | MSGTYPE_AUTH_FAIL
  | MSGTYPE_UPLOAD_REQ
  | MSGTYPE_UPLOAD_RES
  | MSGTYPE_UPLOAD_FIN
  | MSGTYPE_DOWNLOAD_REQ
  | MSGTYPE_DOWNLOAD_RES
  | MSGTYPE_DOWNLOAD_FIN
  | MSGTYPE_LIST_REQ
  | MSGTYPE_LIST_RES
  | MSGTYPE_REMOVE_REQ
  | MSGTYPE_REMOVE_RES
  | MSGTYPE_MKDIR_REQ
  | MSGTYPE_MKDIR_RES
  | MSGTYPE_FILEINFO
  | MSGTYPE_SEND_CHUNK
  | MSGTYPE_CHUNK_OK
  | MSGTYPE_CHUNK_AGAIN

text \<open>The X-macro table: the types in order, each with its name.\<close>

definition MSGTYPES :: "(MessageType \<times> string) list" where
  "MSGTYPES =
    [(MSGTYPE_NONE, ''MSGTYPE_NONE''),
     (MSGTYPE_ERROR, ''MSGTYPE_ERROR''),
     (MSGTYPE_AUTH_REQ, ''MSGTYPE_AUTH_REQ''),
     (MSGTYPE_AUTH_OK, ''MSGTYPE_AUTH_OK''),
     (MSGTYPE_AUTH_FAIL, ''MSGTYPE_AUTH_FAIL''),
     (MSGTYPE_UPLOAD_REQ, ''MSGTYPE_UPLOAD_REQ''),
     (MSGTYPE_UPLOAD_RES, ''MSGTYPE_UPLOAD_RES''),
     (MSGTYPE_UPLOAD_FIN, ''MSGTYPE_UPLOAD_FIN''),
     (MSGTYPE_DOWNLOAD_REQ, ''MSGTYPE_DOWNLOAD_REQ''),
     (MSGTYPE_DOWNLOAD_RES, ''MSGTYPE_DOWNLOAD_RES''),
     (MSGTYPE_DOWNLOAD_FIN, ''MSGTYPE_DOWNLOAD_FIN''),
     (MSGTYPE_LIST_REQ, ''MSGTYPE_LIST_REQ''),
     (MSGTYPE_LIST_RES, ''MSGTYPE_LIST_RES''),
     (MSGTYPE_REMOVE_REQ, ''MSGTYPE_REMOVE_REQ''),
     (MSGTYPE_REMOVE_RES, ''MSGTYPE_REMOVE_RES''),
     (MSGTYPE_MKDIR_REQ, ''MSGTYPE_MKDIR_REQ''),
     (MSGTYPE_MKDIR_RES, ''MSGTYPE_MKDIR_RES''),
     (MSGTYPE_FILEINFO, ''MSGTYPE_FILEINFO''),
     (MSGTYPE_SEND_CHUNK, ''MSGTYPE_SEND_CHUNK''),
     (MSGTYPE_CHUNK_OK, ''MSGTYPE_CHUNK_OK''),
     (MSGTYPE_CHUNK_AGAIN, ''MSGTYPE_CHUNK_AGAIN'')]"

text \<open>
  In memory a MessageType is an unsigned 32-bit integer, and one that came from the network may
  be any. \<open>type_code\<close> is the enumerator's value, \<open>msgtype_of\<close> the enumerator of a value.
\<close>

fun index_in :: "MessageType \<Rightarrow> (MessageType \<times> string) list \<Rightarrow> nat" where
  "index_in t [] = 0"
| "index_in t ((t', _) # xs) = (if t = t' then 0 else Suc (index_in t xs))"

definition type_code :: "MessageType \<Rightarrow> u32" where
  "type_code t = of_nat (index_in t MSGTYPES)"

definition msgtype_of :: "u32 \<Rightarrow> MessageType option" where
  "msgtype_of w = (if unat w < length MSGTYPES then Some (fst (MSGTYPES ! unat w)) else None)"

text \<open>The switch over the table; the default case is assert(0).\<close>

definition msg_type_to_str :: "u32 \<Rightarrow> string option" where
  "msg_type_to_str w = (case msgtype_of w of Some t \<Rightarrow> map_of MSGTYPES t | None \<Rightarrow> None)"

section \<open>The structs\<close>

record timespec =
  tv_sec :: u64
  tv_nsec :: u64

text \<open>
  hdr_pad stands for the 4 bytes of padding between token and sent_at, which the struct also
  carries over the wire. A uuid_t is 16 bytes.
\<close>

record MessageHdr =
  hdr_length :: usize
  hdr_type :: u32
  hdr_token :: uuid
  hdr_pad :: "byte list"
  hdr_sent_at :: timespec

text \<open>payload is the memory the pointer points to, None for NULL.\<close>

record Message =
  hdr :: MessageHdr
  rcvd_at :: timespec
  payload :: "byte list option"
  payload_len :: usize

definition MessageHdr_size :: nat where
  "MessageHdr_size = 48"

definition enc_timespec :: "timespec \<Rightarrow> byte list" where
  "enc_timespec t = le_of_u64 (tv_sec t) @ le_of_u64 (tv_nsec t)"

definition dec_timespec :: "byte list \<Rightarrow> timespec" where
  "dec_timespec bs = \<lparr>tv_sec = u64_of_le (take 8 bs), tv_nsec = u64_of_le (take 8 (drop 8 bs))\<rparr>"

definition enc_hdr :: "MessageHdr \<Rightarrow> byte list" where
  "enc_hdr h = le_of_u64 (hdr_length h) @ le_of_u32 (hdr_type h) @ hdr_token h @ hdr_pad h @
     enc_timespec (hdr_sent_at h)"

definition dec_hdr :: "byte list \<Rightarrow> MessageHdr" where
  "dec_hdr bs =
     \<lparr>hdr_length = u64_of_le (take 8 bs),
      hdr_type = u32_of_le (take 4 (drop 8 bs)),
      hdr_token = take 16 (drop 12 bs),
      hdr_pad = take 4 (drop 28 bs),
      hdr_sent_at = dec_timespec (drop 32 bs)\<rparr>"

definition wf_hdr :: "MessageHdr \<Rightarrow> bool" where
  "wf_hdr h \<longleftrightarrow> length (hdr_token h) = 16 \<and> length (hdr_pad h) = 4"

section \<open>The kernel's side of a connection\<close>

text \<open>
  rx is what the rest of the connection's life brings to recv, in order: data that arrives, or a
  call that fails with an errno (EINTR for a signal, EAGAIN on a non-blocking socket with nothing
  to read). One recv takes at most the bytes asked for from the first arrival and leaves the rest.
  The end of the list is the peer's shutdown: recv returns 0. tx_plan is how send answers, one
  entry per call: it takes some of the bytes, or fails; at the end of the list every call takes
  all its bytes. tx is what has been sent. clock and junk are the answers of clock_gettime and the
  contents of uninitialised memory; every call uses up what it reads.
\<close>

datatype rx_event = RxData "byte list" | RxErr int
datatype tx_event = TxTake nat | TxErr int

record conn =
  rx :: "rx_event list"
  tx_plan :: "tx_event list"
  tx :: "byte list"
  clock :: "nat \<Rightarrow> timespec"
  junk :: "nat \<Rightarrow> byte"
  errno :: int

definition EINTR :: int where "EINTR = 4"
definition EAGAIN :: int where "EAGAIN = 11"

definition clock_gettime :: "'a conn_scheme \<Rightarrow> timespec \<times> 'a conn_scheme" where
  "clock_gettime c = (clock c 0, c\<lparr>clock := \<lambda>i. clock c (Suc i)\<rparr>)"

text \<open>n bytes of memory that hold whatever was there: malloc, or an uninitialised local.\<close>

definition uninit :: "nat \<Rightarrow> 'a conn_scheme \<Rightarrow> byte list \<times> 'a conn_scheme" where
  "uninit n c = (map (junk c) [0..<n], c\<lparr>junk := \<lambda>i. junk c (n + i)\<rparr>)"

text \<open>recv: (return value, bytes stored, state). An empty arrival is no arrival.\<close>

fun recv_from :: "rx_event list \<Rightarrow> nat \<Rightarrow> int \<times> byte list \<times> rx_event list \<times> int option" where
  "recv_from [] n = (0, [], [], None)"
| "recv_from (RxErr e # r) n = (-1, [], r, Some e)"
| "recv_from (RxData bs # r) n =
     (if bs = [] then recv_from r n
      else (int (min n (length bs)), take n bs,
            if length bs \<le> n then r else RxData (drop n bs) # r, None))"

definition recv :: "nat \<Rightarrow> 'a conn_scheme \<Rightarrow> int \<times> byte list \<times> 'a conn_scheme" where
  "recv n c =
     (case recv_from (rx c) n of (ret, bs, r, e) \<Rightarrow>
        (ret, bs, c\<lparr>rx := r, errno := (case e of None \<Rightarrow> errno c | Some x \<Rightarrow> x)\<rparr>))"

text \<open>send of the bytes bs.\<close>

definition send :: "byte list \<Rightarrow> 'a conn_scheme \<Rightarrow> int \<times> 'a conn_scheme" where
  "send bs c =
     (case tx_plan c of
        [] \<Rightarrow> (int (length bs), c\<lparr>tx := tx c @ bs\<rparr>)
      | TxErr e # ps \<Rightarrow> (-1, c\<lparr>tx_plan := ps, errno := e\<rparr>)
      | TxTake n # ps \<Rightarrow>
          (int (min n (length bs)), c\<lparr>tx_plan := ps, tx := tx c @ take n bs\<rparr>))"

section \<open>msg_init, msg_clear\<close>

definition zero_time :: timespec where
  "zero_time = \<lparr>tv_sec = 0, tv_nsec = 0\<rparr>"

text \<open>token and padding keep their values.\<close>

definition msg_init :: "Message \<Rightarrow> MessageType \<Rightarrow> byte list option \<Rightarrow> usize \<Rightarrow> Message" where
  "msg_init self ty pl len =
     self\<lparr>hdr := (hdr self)\<lparr>hdr_length := len, hdr_type := type_code ty, hdr_sent_at := zero_time\<rparr>,
          rcvd_at := zero_time, payload := pl, payload_len := len\<rparr>"

definition zero_hdr :: MessageHdr where
  "zero_hdr = \<lparr>hdr_length = 0, hdr_type = 0, hdr_token = replicate 16 0, hdr_pad = replicate 4 0,
     hdr_sent_at = zero_time\<rparr>"

definition msg_clear :: "Message \<Rightarrow> Message" where
  "msg_clear self =
     self\<lparr>hdr := zero_hdr, rcvd_at := zero_time, payload := None, payload_len := 0\<rparr>"

definition zero_msg :: Message where
  "zero_msg = \<lparr>hdr = zero_hdr, rcvd_at = zero_time, payload = None, payload_len = 0\<rparr>"

section \<open>send_all and recv_all\<close>

text \<open>The loop of send_all over the bytes left.\<close>

function send_loop :: "byte list \<Rightarrow> 'a conn_scheme \<Rightarrow> int \<times> 'a conn_scheme" where
  "send_loop left c =
     (if left = [] then (0, c)
      else case send left c of (nbytes, c') \<Rightarrow>
        if nbytes < 0 then (if errno c' = EINTR then send_loop left c' else (-1, c'))
        else if nbytes = 0 then (-2, c')
        else send_loop (drop (nat nbytes) left) c')"
  by pat_completeness auto
termination
  by (relation "measure (\<lambda>(left, c). length left + length (tx_plan c))")
    (auto simp: send_def split: list.splits tx_event.splits if_splits)

declare send_loop.simps [simp del]

text \<open>
  assert(buf != NULL && len > 0); buf is the memory the pointer points to, and reading past it is
  a fault.
\<close>

definition send_all ::
  "byte list option \<Rightarrow> nat \<Rightarrow> 'a conn_scheme \<Rightarrow> (int \<times> 'a conn_scheme) option" where
  "send_all buf len c =
     (case buf of
        None \<Rightarrow> None
      | Some mem \<Rightarrow>
          if len = 0 \<or> length mem < len then None else Some (send_loop (take len mem) c))"

lemma recv_from_uses:
  "recv_from r n = (ret, bs, r', e) \<Longrightarrow>
   length r' \<le> length r \<and> ret \<le> int n \<and> (ret < 0 \<longrightarrow> length r' < length r)"
  by (induction r n rule: recv_from.induct) (fastforce split: if_splits)+

lemma recv_uses:
  "recv n c = (ret, bs, c') \<Longrightarrow>
   length (rx c') \<le> length (rx c) \<and> ret \<le> int n \<and> (ret < 0 \<longrightarrow> length (rx c') < length (rx c))"
  using recv_from_uses [of "rx c" n] by (auto simp: recv_def split: prod.splits)

text \<open>The loop of recv_all: got are the bytes stored so far.\<close>

function recv_loop ::
  "nat \<Rightarrow> byte list \<Rightarrow> 'a conn_scheme \<Rightarrow> int \<times> byte list \<times> 'a conn_scheme" where
  "recv_loop bytes_left got c =
     (if bytes_left = 0 then (0, got, c)
      else case recv bytes_left c of (nbytes, bs, c') \<Rightarrow>
        if nbytes < 0 then (if errno c' = EINTR then recv_loop bytes_left got c' else (-1, got, c'))
        else if nbytes = 0 then (-2, got, c')
        else recv_loop (bytes_left - nat nbytes) (got @ bs) c')"
  by pat_completeness auto

termination
  by (relation "measure (\<lambda>(n, got, c). n + length (rx c))")
    (auto dest!: recv_uses [OF sym])

declare recv_loop.simps [simp del]

text \<open>assert(buf != NULL && len > 0); the buffer has room for len bytes at every call.\<close>

definition recv_all :: "nat \<Rightarrow> 'a conn_scheme \<Rightarrow> (int \<times> byte list \<times> 'a conn_scheme) option" where
  "recv_all len c = (if len = 0 then None else Some (recv_loop len [] c))"

section \<open>msg_send, msg_recv_header, msg_recv_payload, msg_recv\<close>

text \<open>
  The header as msg_send sends it: the time, and the length that counts the payload header. The
  two optional sends that follow are skipped for a null pointer.
\<close>

definition sent_hdr :: "Message \<Rightarrow> byte list option \<Rightarrow> usize \<Rightarrow> timespec \<Rightarrow> MessageHdr" where
  "sent_hdr m payload_hdr payload_hdr_len now = (hdr m)\<lparr>hdr_sent_at := now,
     hdr_length := hdr_length (hdr m) + (if payload_hdr \<noteq> None then payload_hdr_len else 0)\<rparr>"

definition send_opt ::
  "byte list option \<Rightarrow> usize \<Rightarrow> 'a conn_scheme \<Rightarrow> (int \<times> 'a conn_scheme) option" where
  "send_opt buf len c = (if buf \<noteq> None then send_all buf (unat len) c else Some (0, c))"

definition msg_send ::
  "Message \<Rightarrow> byte list option \<Rightarrow> usize \<Rightarrow> 'a conn_scheme \<Rightarrow> (int \<times> Message \<times> 'a conn_scheme) option"
where
  "msg_send self payload_hdr payload_hdr_len c = do {
     let (now, c) = clock_gettime c;
     let self = self\<lparr>hdr := sent_hdr self payload_hdr payload_hdr_len now\<rparr>;
     (ret, c) \<leftarrow> send_all (Some (enc_hdr (hdr self))) MessageHdr_size c;
     if ret < 0 then Some (ret, self, c)
     else do {
       (ret, c) \<leftarrow> send_opt payload_hdr payload_hdr_len c;
       if ret < 0 then Some (ret, self, c)
       else do {
         (ret, c) \<leftarrow> send_opt (payload self) (payload_len self) c;
         if ret < 0 then Some (ret, self, c) else Some (0, self, c)
       }
     }
   }"

text \<open>recv_all into a header in memory: the bytes received overwrite its first bytes.\<close>

definition recv_hdr :: "MessageHdr \<Rightarrow> 'a conn_scheme \<Rightarrow> (int \<times> MessageHdr \<times> 'a conn_scheme) option"
where
  "recv_hdr h c = do {
     (ret, got, c) \<leftarrow> recv_all MessageHdr_size c;
     Some (ret, dec_hdr (got @ drop (length got) (enc_hdr h)), c)
   }"

definition msg_recv_header :: "Message \<Rightarrow> 'a conn_scheme \<Rightarrow> (int \<times> Message \<times> 'a conn_scheme) option"
where
  "msg_recv_header msg c = do {
     (ret, h, c) \<leftarrow> recv_hdr (hdr msg) c;
     let msg = msg\<lparr>hdr := h\<rparr>;
     if ret < 0 then Some (ret, msg, c)
     else do {
       let (now, c) = clock_gettime c;
       Some (0, msg\<lparr>rcvd_at := now\<rparr>, c)
     }
   }"

definition msg_recv_payload ::
  "usize \<Rightarrow> Message \<Rightarrow> 'a conn_scheme \<Rightarrow> (int \<times> Message \<times> 'a conn_scheme) option"
where
  "msg_recv_payload maxlen msg c =
     (if maxlen < hdr_length (hdr msg) then Some (-3, msg, c)
      else if 0 < hdr_length (hdr msg) then do {
        let len = unat (hdr_length (hdr msg));
        let (mem, c) = uninit len c;
        (ret, got, c) \<leftarrow> recv_all len c;
        let msg = msg\<lparr>payload := Some (got @ drop (length got) mem)\<rparr>;
        if ret < 0 then Some (ret, msg, c) else Some (0, msg, c)
      }
      else Some (0, msg, c))"

definition msg_recv ::
  "usize \<Rightarrow> Message \<Rightarrow> 'a conn_scheme \<Rightarrow> (int \<times> Message \<times> 'a conn_scheme) option"
where
  "msg_recv maxlen msg c = do {
     (ret, h, c) \<leftarrow> recv_hdr (hdr msg) c;
     let msg = msg\<lparr>hdr := h\<rparr>;
     if ret < 0 then Some (ret, msg, c)
     else if maxlen < hdr_length (hdr msg) then Some (-3, msg, c)
     else do {
       (ret, msg, c) \<leftarrow>
         (if 0 < hdr_length (hdr msg) then do {
            let len = unat (hdr_length (hdr msg));
            let (mem, c) = uninit len c;
            (ret, got, c) \<leftarrow> recv_all len c;
            Some (ret, msg\<lparr>payload := Some (got @ drop (length got) mem)\<rparr>, c)
          }
          else Some (0, msg, c));
       if ret < 0 then Some (ret, msg, c)
       else do {
         let (now, c) = clock_gettime c;
         Some (0, msg\<lparr>rcvd_at := now\<rparr>, c)
       }
     }
   }"

section \<open>The header layout is a wire format\<close>

lemma length_enc_timespec [simp]: "length (enc_timespec t) = 16"
  by (simp add: enc_timespec_def)

lemma dec_enc_timespec [simp]: "dec_timespec (enc_timespec t) = t"
  by (simp add: enc_timespec_def dec_timespec_def)

lemma enc_dec_timespec: "length bs = 16 \<Longrightarrow> enc_timespec (dec_timespec bs) = bs"
  by (simp add: enc_timespec_def dec_timespec_def le_of_u64_of_le)

lemma split_48:
  "length bs = 48 \<Longrightarrow>
   take 8 bs @ take 4 (drop 8 bs) @ take 16 (drop 12 bs) @ take 4 (drop 28 bs) @ drop 32 bs = bs"
  using append_take_drop_id [of 8 bs] drop_split [of 8 bs 4] drop_split [of 12 bs 16]
    drop_split [of 28 bs 4] by simp

interpretation mh: wire_struct enc_hdr dec_hdr MessageHdr_size wf_hdr
proof unfold_locales
  fix x
  assume wf: "wf_hdr x"
  then show "length (enc_hdr x) = MessageHdr_size"
    by (simp add: enc_hdr_def wf_hdr_def MessageHdr_size_def)
  from wf show "dec_hdr (enc_hdr x) = x"
    by (simp add: enc_hdr_def dec_hdr_def wf_hdr_def)
next
  fix bs :: "byte list"
  assume len: "length bs = MessageHdr_size"
  then show "wf_hdr (dec_hdr bs)" by (simp add: dec_hdr_def wf_hdr_def MessageHdr_size_def)
  from len show "enc_hdr (dec_hdr bs) = bs"
    by (simp add: enc_hdr_def dec_hdr_def MessageHdr_size_def le_of_u64_of_le le_of_u32_of_le
        enc_dec_timespec split_48)
qed

lemma wf_zero_hdr [simp]: "wf_hdr zero_hdr"
  by (simp add: wf_hdr_def zero_hdr_def)

lemma wf_msg_init [simp]: "wf_hdr (hdr (msg_init m ty pl len)) = wf_hdr (hdr m)"
  by (simp add: msg_init_def wf_hdr_def)

section \<open>What a connection still holds\<close>

fun rx_data :: "rx_event list \<Rightarrow> byte list" where
  "rx_data [] = []"
| "rx_data (RxData bs # r) = bs @ rx_data r"
| "rx_data (RxErr e # r) = rx_data r"

text \<open>Nothing but data and signals: the peer sends, then shuts down.\<close>

fun rx_quiet :: "rx_event list \<Rightarrow> bool" where
  "rx_quiet [] = True"
| "rx_quiet (RxData bs # r) = rx_quiet r"
| "rx_quiet (RxErr e # r) = (e = EINTR \<and> rx_quiet r)"

fun tx_quiet :: "tx_event list \<Rightarrow> bool" where
  "tx_quiet [] = True"
| "tx_quiet (TxTake n # ps) = (0 < n \<and> tx_quiet ps)"
| "tx_quiet (TxErr e # ps) = (e = EINTR \<and> tx_quiet ps)"

abbreviation incoming :: "'a conn_scheme \<Rightarrow> byte list" where
  "incoming c \<equiv> rx_data (rx c)"

text \<open>What receiving and sending leave alone.\<close>

definition rx_step :: "'a conn_scheme \<Rightarrow> 'a conn_scheme \<Rightarrow> bool" where
  "rx_step c c' \<longleftrightarrow> tx c' = tx c \<and> tx_plan c' = tx_plan c \<and> conn.more c' = conn.more c"

definition tx_step :: "'a conn_scheme \<Rightarrow> 'a conn_scheme \<Rightarrow> bool" where
  "tx_step c c' \<longleftrightarrow> rx c' = rx c \<and> conn.more c' = conn.more c"

lemma rx_step_refl [frame_simps]: "rx_step c c"
  by (simp add: rx_step_def)

lemma rx_step_trans [trans]: "rx_step a b \<Longrightarrow> rx_step b c \<Longrightarrow> rx_step a c"
  by (simp add: rx_step_def)

lemma tx_step_refl [frame_simps]: "tx_step c c"
  by (simp add: tx_step_def)

lemma tx_step_trans [trans]: "tx_step a b \<Longrightarrow> tx_step b c \<Longrightarrow> tx_step a c"
  by (simp add: tx_step_def)

lemma clock_gettime_eq: "clock_gettime c = (clock c 0, snd (clock_gettime c))"
  by (simp add: clock_gettime_def)

lemma clock_gettime_frame [frame_simps]:
  "rx (snd (clock_gettime c)) = rx c" "tx (snd (clock_gettime c)) = tx c"
  "tx_plan (snd (clock_gettime c)) = tx_plan c" "errno (snd (clock_gettime c)) = errno c"
  "rx_step c (snd (clock_gettime c))" "tx_step c (snd (clock_gettime c))"
  by (simp_all add: clock_gettime_def rx_step_def tx_step_def)

lemma uninit_frame [frame_simps]:
  "rx (snd (uninit n c)) = rx c" "tx (snd (uninit n c)) = tx c"
  "tx_plan (snd (uninit n c)) = tx_plan c" "errno (snd (uninit n c)) = errno c"
  "rx_step c (snd (uninit n c))" "tx_step c (snd (uninit n c))" "length (fst (uninit n c)) = n"
  by (simp_all add: uninit_def rx_step_def tx_step_def)

section \<open>recv_all\<close>

text \<open>One recv: what it stores comes off the front of the incoming data.\<close>

lemma recv_from_data:
  "recv_from r n = (ret, bs, r', e) \<Longrightarrow>
   rx_data r = bs @ rx_data r' \<and> length bs \<le> n \<and>
   (ret < 0 \<longrightarrow> bs = []) \<and> (0 \<le> ret \<longrightarrow> ret = int (length bs)) \<and>
   (0 < n \<longrightarrow> ret = 0 \<longrightarrow> rx_data r = [] \<and> r' = [])"
proof (induction r n rule: recv_from.induct)
  case (3 b r n)
  then show ?case by (auto simp: min_def split: if_splits)
qed auto

lemma recv_from_quiet:
  "recv_from r n = (ret, bs, r', e) \<Longrightarrow> rx_quiet r \<Longrightarrow>
   rx_quiet r' \<and> (ret < 0 \<longrightarrow> e = Some EINTR)"
  by (induction r n rule: recv_from.induct) (auto split: if_splits)

lemma recv_data:
  assumes "recv n c = (ret, bs, c')"
  shows "incoming c = bs @ incoming c'" "length bs \<le> n" "ret < 0 \<Longrightarrow> bs = []"
    "0 \<le> ret \<Longrightarrow> ret = int (length bs)" "0 < n \<Longrightarrow> ret = 0 \<Longrightarrow> incoming c = []"
    "rx_step c c'" "rx_quiet (rx c) \<Longrightarrow> rx_quiet (rx c')"
    "rx_quiet (rx c) \<Longrightarrow> ret < 0 \<Longrightarrow> errno c' = EINTR"
  using assms recv_from_data [of "rx c" n] recv_from_quiet [of "rx c" n]
  by (auto simp: recv_def rx_step_def split: prod.splits)

text \<open>
  Whatever the kernel does, recv_all stores a prefix of the incoming data, exactly len bytes when
  it returns 0, and leaves the rest for the next call: no byte is lost, duplicated or reordered.
\<close>

lemma recv_loop_data:
  "recv_loop n got c = (ret, got', c') \<Longrightarrow>
   \<exists>bs. got' = got @ bs \<and> incoming c = bs @ incoming c' \<and> length bs \<le> n \<and>
     (ret = 0 \<longleftrightarrow> length bs = n) \<and> ret \<in> {0, -1, -2} \<and> rx_step c c'"
proof (induction n got c rule: recv_loop.induct)
  case (1 n got c)
  show ?case
  proof (cases "n = 0")
    case True
    with 1(3) show ?thesis by (simp add: recv_loop.simps rx_step_refl)
  next
    case False
    obtain r1 b1 c1 where r1: "recv n c = (r1, b1, c1)" by (cases "recv n c")
    note d = recv_data [OF r1]
    show ?thesis
    proof (cases "r1 \<le> 0 \<and> \<not> (r1 < 0 \<and> errno c1 = EINTR)")
      case True
      with 1(3) False r1 d show ?thesis
        by (subst (asm) recv_loop.simps) (auto split: if_splits)
    next
      case again: False
      let ?n = "if r1 < 0 then n else n - nat r1" and ?g = "if r1 < 0 then got else got @ b1"
      have loop: "recv_loop ?n ?g c1 = (ret, got', c')"
        using 1(3) False r1 again by (subst (asm) recv_loop.simps) (auto split: if_splits)
      have "\<exists>bs. got' = ?g @ bs \<and> incoming c1 = bs @ incoming c' \<and> length bs \<le> ?n \<and>
          (ret = 0 \<longleftrightarrow> length bs = ?n) \<and> ret \<in> {0, -1, -2} \<and> rx_step c1 c'"
        using 1(1) [OF False r1 [symmetric] refl] 1(2) [OF False r1 [symmetric] refl]
          again loop by (cases "r1 < 0") auto
      then obtain bs where "got' = ?g @ bs" "incoming c1 = bs @ incoming c'" "length bs \<le> ?n"
        "ret = 0 \<longleftrightarrow> length bs = ?n" "ret \<in> {0, -1, -2}" "rx_step c1 c'" by blast
      with d show ?thesis
        by (intro exI [of _ "b1 @ bs"]) (auto split: if_splits intro: rx_step_trans)
    qed
  qed
qed

text \<open>On a quiet connection only a shutdown can stop it: fragmentation and signals do not matter.\<close>

lemma recv_loop_quiet:
  "recv_loop n got c = (ret, got', c') \<Longrightarrow> rx_quiet (rx c) \<Longrightarrow>
   rx_quiet (rx c') \<and> (ret = 0 \<longleftrightarrow> n \<le> length (incoming c)) \<and>
   (ret = 0 \<or> (ret = -2 \<and> incoming c' = []))"
proof (induction n got c rule: recv_loop.induct)
  case (1 n got c)
  show ?case
  proof (cases "n = 0")
    case True
    with 1(3,4) show ?thesis by (simp add: recv_loop.simps)
  next
    case False
    obtain r1 b1 c1 where r1: "recv n c = (r1, b1, c1)" by (cases "recv n c")
    note d = recv_data [OF r1]
    show ?thesis
    proof (cases "r1 = 0")
      case True
      with 1(3,4) False r1 d show ?thesis
        by (subst (asm) recv_loop.simps) (auto split: if_splits)
    next
      case again: False
      let ?n = "if r1 < 0 then n else n - nat r1" and ?g = "if r1 < 0 then got else got @ b1"
      have loop: "recv_loop ?n ?g c1 = (ret, got', c')"
        using 1(3,4) False r1 again d
        by (subst (asm) recv_loop.simps) (auto split: if_splits)
      have "rx_quiet (rx c') \<and> (ret = 0 \<longleftrightarrow> ?n \<le> length (incoming c1)) \<and>
          (ret = 0 \<or> (ret = -2 \<and> incoming c' = []))"
        using 1(1) [OF False r1 [symmetric] refl] 1(2) [OF False r1 [symmetric] refl]
          again loop d 1(4) by (cases "r1 < 0") auto
      with d show ?thesis by (auto split: if_splits)
    qed
  qed
qed

section \<open>send_all\<close>

lemma send_data:
  assumes "send bs c = (ret, c')"
  shows "tx_step c c'" "ret < 0 \<Longrightarrow> tx c' = tx c" "0 \<le> ret \<Longrightarrow> tx c' = tx c @ take (nat ret) bs"
    "ret \<le> int (length bs)" "ret < 0 \<Longrightarrow> ret = -1"
    "tx_quiet (tx_plan c) \<Longrightarrow> tx_quiet (tx_plan c')"
    "tx_quiet (tx_plan c) \<Longrightarrow> ret < 0 \<Longrightarrow> errno c' = EINTR"
    "tx_quiet (tx_plan c) \<Longrightarrow> bs \<noteq> [] \<Longrightarrow> ret \<noteq> 0"
  using assms
  by (auto simp: send_def tx_step_def min_def split: list.splits tx_event.splits if_splits)

text \<open>
  Whatever the kernel does, what was sent is a prefix of the bytes, in order and once each, and
  it is all of them exactly when send_loop returns 0.
\<close>

lemma send_loop_data:
  "send_loop bs c = (ret, c') \<Longrightarrow>
   \<exists>sent. tx c' = tx c @ sent \<and> prefix sent bs \<and> (ret = 0 \<longleftrightarrow> sent = bs) \<and>
     ret \<in> {0, -1, -2} \<and> tx_step c c'"
proof (induction bs c rule: send_loop.induct)
  case (1 bs c)
  show ?case
  proof (cases "bs = []")
    case True
    with 1(3) show ?thesis by (simp add: send_loop.simps tx_step_refl)
  next
    case False
    obtain r1 c1 where r1: "send bs c = (r1, c1)" by (cases "send bs c")
    note d = send_data [OF r1]
    show ?thesis
    proof (cases "r1 \<le> 0 \<and> \<not> (r1 < 0 \<and> errno c1 = EINTR)")
      case True
      with 1(3) False r1 d show ?thesis
        by (subst (asm) send_loop.simps) (auto split: if_splits)
    next
      case again: False
      let ?b = "if r1 < 0 then bs else drop (nat r1) bs"
      and ?s = "if r1 < 0 then [] else take (nat r1) bs"
      have loop: "send_loop ?b c1 = (ret, c')"
        using 1(3) False r1 again by (subst (asm) send_loop.simps) (auto split: if_splits)
      have "\<exists>sent. tx c' = tx c1 @ sent \<and> prefix sent ?b \<and> (ret = 0 \<longleftrightarrow> sent = ?b) \<and>
          ret \<in> {0, -1, -2} \<and> tx_step c1 c'"
        using 1(1) [OF False r1 [symmetric]] 1(2) [OF False r1 [symmetric]] again loop
        by (cases "r1 < 0") auto
      then obtain sent where s: "tx c' = tx c1 @ sent" "prefix sent ?b" "ret = 0 \<longleftrightarrow> sent = ?b"
        "ret \<in> {0, -1, -2}" "tx_step c1 c'" by blast
      have "tx c' = tx c @ (?s @ sent)" using d s(1) by auto
      moreover have bs: "?s @ ?b = bs" by simp
      have "prefix (?s @ sent) (?s @ ?b)" "sent = ?b \<longleftrightarrow> ?s @ sent = ?s @ ?b"
        using s(2) by simp_all
      ultimately show ?thesis using s(3-5) tx_step_trans [OF d(1) s(5)] unfolding bs by blast
    qed
  qed
qed

lemma send_loop_quiet:
  "send_loop bs c = (ret, c') \<Longrightarrow> tx_quiet (tx_plan c) \<Longrightarrow> ret = 0 \<and> tx_quiet (tx_plan c')"
proof (induction bs c rule: send_loop.induct)
  case (1 bs c)
  show ?case
  proof (cases "bs = []")
    case True
    with 1(3,4) show ?thesis by (simp add: send_loop.simps)
  next
    case False
    obtain r1 c1 where r1: "send bs c = (r1, c1)" by (cases "send bs c")
    note d = send_data [OF r1]
    let ?b = "if r1 < 0 then bs else drop (nat r1) bs"
    have loop: "send_loop ?b c1 = (ret, c')"
      using 1(3,4) False r1 d by (subst (asm) send_loop.simps) (auto split: if_splits)
    show ?thesis
      using 1(1) [OF False r1 [symmetric]] 1(2) [OF False r1 [symmetric]] loop d False 1(4)
      by (cases "r1 < 0") auto
  qed
qed

lemma send_all_data:
  assumes "send_all (Some bs) n c = Some (ret, c')"
  shows "\<exists>sent. tx c' = tx c @ sent \<and> prefix sent (take n bs) \<and> (ret = 0 \<longleftrightarrow> sent = take n bs) \<and>
     ret \<in> {0, -1, -2} \<and> tx_step c c'"
  using assms send_loop_data by (auto simp: send_all_def split: if_splits)

lemma send_all_quiet:
  assumes "tx_quiet (tx_plan c)" "0 < n" "n \<le> length bs"
  shows "\<exists>c'. send_all (Some bs) n c = Some (0, c') \<and> tx c' = tx c @ take n bs \<and>
    tx_step c c' \<and> tx_quiet (tx_plan c')"
proof -
  obtain r c' where l: "send_loop (take n bs) c = (r, c')" by fastforce
  with send_loop_quiet [OF l assms(1)] send_loop_data [OF l] assms show ?thesis
    by (auto simp: send_all_def)
qed

section \<open>msg_send\<close>

text \<open>The bytes a message stands for, sent at a given time with an optional payload header.\<close>

definition opt_bytes :: "byte list option \<Rightarrow> usize \<Rightarrow> byte list" where
  "opt_bytes b n = (case b of None \<Rightarrow> [] | Some bs \<Rightarrow> take (unat n) bs)"

definition wire_image :: "Message \<Rightarrow> byte list option \<Rightarrow> usize \<Rightarrow> timespec \<Rightarrow> byte list" where
  "wire_image m ph n now =
     enc_hdr (sent_hdr m ph n now) @ opt_bytes ph n @ opt_bytes (payload m) (payload_len m)"

text \<open>A buffer that send_all accepts: not empty, and as long as announced.\<close>

definition sendable :: "byte list option \<Rightarrow> usize \<Rightarrow> bool" where
  "sendable b n \<longleftrightarrow> (case b of None \<Rightarrow> True | Some bs \<Rightarrow> 0 < unat n \<and> unat n \<le> length bs)"

lemma wf_sent_hdr [simp]: "wf_hdr (sent_hdr m ph n now) = wf_hdr (hdr m)"
  by (simp add: sent_hdr_def wf_hdr_def)

lemma send_opt_data:
  assumes "send_opt b n c = Some (ret, c')"
  shows "\<exists>sent. tx c' = tx c @ sent \<and> prefix sent (opt_bytes b n) \<and>
     (ret = 0 \<longleftrightarrow> sent = opt_bytes b n) \<and> ret \<in> {0, -1, -2} \<and> tx_step c c'"
  using assms send_all_data [of _ "unat n" c ret c']
  by (cases b) (auto simp: send_opt_def opt_bytes_def tx_step_refl)

lemma send_opt_quiet:
  assumes "tx_quiet (tx_plan c)" "sendable b n"
  shows "\<exists>c'. send_opt b n c = Some (0, c') \<and> tx c' = tx c @ opt_bytes b n \<and>
    tx_step c c' \<and> tx_quiet (tx_plan c')"
  using assms send_all_quiet [of c "unat n"]
  by (cases b) (auto simp: send_opt_def opt_bytes_def tx_step_refl sendable_def)

text \<open>Two sends in a row, the second only if the first succeeded.\<close>

lemma sent_append:
  assumes "prefix s1 w1" "r1 = (0::int) \<longleftrightarrow> s1 = w1" "r1 = 0" "prefix s2 w2" "r2 = (0::int) \<longleftrightarrow> s2 = w2"
  shows "prefix (s1 @ s2) (w1 @ w2)" "r2 = 0 \<longleftrightarrow> s1 @ s2 = w1 @ w2"
  using assms by auto

lemma sent_stop:
  assumes "prefix s1 w1" "r1 = (0::int) \<longleftrightarrow> s1 = w1" "r1 \<noteq> 0"
  shows "prefix s1 (w1 @ w2)" "r1 = 0 \<longleftrightarrow> s1 = w1 @ w2"
  using assms by (auto simp: prefix_def)

lemma msg_send_data:
  assumes wf: "wf_hdr (hdr m)" and snd: "msg_send m ph n c = Some (ret, m', c')"
  shows "\<exists>sent. tx c' = tx c @ sent \<and> prefix sent (wire_image m ph n (clock c 0)) \<and>
    (ret = 0 \<longleftrightarrow> sent = wire_image m ph n (clock c 0)) \<and> ret \<in> {0, -1, -2} \<and> tx_step c c' \<and>
    m' = m\<lparr>hdr := sent_hdr m ph n (clock c 0)\<rparr>"
proof -
  let ?c0 = "c\<lparr>clock := \<lambda>i. clock c (Suc i)\<rparr>" and ?h = "sent_hdr m ph n (clock c 0)"
  have c0: "tx_step c ?c0" "tx ?c0 = tx c" by (simp_all add: tx_step_def)
  have len: "take MessageHdr_size (enc_hdr ?h) = enc_hdr ?h"
    using wf mh.length_enc [of ?h] by simp
  from snd obtain r1 c1 where s1: "send_all (Some (enc_hdr ?h)) MessageHdr_size ?c0 = Some (r1, c1)"
    by (auto simp: msg_send_def clock_gettime_def Let_def bind_eq_Some_conv)
  from send_all_data [OF s1] obtain t1 where
    t1: "tx c1 = tx c @ t1" "prefix t1 (enc_hdr ?h)" "r1 = 0 \<longleftrightarrow> t1 = enc_hdr ?h"
      "r1 \<in> {0, -1, -2}" "tx_step c c1"
    using tx_step_trans [OF c0(1)] by (auto simp: len)
  show ?thesis
  proof (cases "r1 = 0")
    case False
    with snd s1 t1(4) have "ret = r1" "c' = c1" "m' = m\<lparr>hdr := ?h\<rparr>"
      by (auto simp: msg_send_def clock_gettime_def)
    with t1 sent_stop [OF t1(2,3) False] show ?thesis by (auto simp: wire_image_def)
  next
    case r1: True
    with snd s1 obtain r2 c2 where s2: "send_opt ph n c1 = Some (r2, c2)"
      by (auto simp: msg_send_def clock_gettime_def Let_def bind_eq_Some_conv)
    from send_opt_data [OF s2] obtain t2 where
      t2: "tx c2 = tx c1 @ t2" "prefix t2 (opt_bytes ph n)" "r2 = 0 \<longleftrightarrow> t2 = opt_bytes ph n"
        "r2 \<in> {0, -1, -2}" "tx_step c1 c2" by blast
    note t12 = sent_append [OF t1(2,3) r1 t2(2,3)]
    show ?thesis
    proof (cases "r2 = 0")
      case False
      with snd s1 s2 r1 t2(4) have "ret = r2" "c' = c2" "m' = m\<lparr>hdr := ?h\<rparr>"
        by (auto simp: msg_send_def clock_gettime_def)
      with t1 t2 sent_stop [OF t12 False] show ?thesis
        by (auto simp: wire_image_def intro!: exI [of _ "t1 @ t2"] intro: tx_step_trans)
    next
      case r2: True
      with snd s1 s2 r1 obtain r3 where
        s3: "send_opt (payload m) (payload_len m) c2 = Some (r3, c')" and
        ret: "ret = (if r3 < 0 then r3 else 0)" and m': "m' = m\<lparr>hdr := ?h\<rparr>"
        by (auto simp: msg_send_def clock_gettime_def Let_def bind_eq_Some_conv split: if_splits)
      from send_opt_data [OF s3] obtain t3 where
        t3: "tx c' = tx c2 @ t3" "prefix t3 (opt_bytes (payload m) (payload_len m))"
          "r3 = 0 \<longleftrightarrow> t3 = opt_bytes (payload m) (payload_len m)"
          "r3 \<in> {0, -1, -2}" "tx_step c2 c'" by blast
      have "ret = r3" using ret t3(4) by auto
      with m' t1 t2 t3 sent_append [OF t12 r2 t3(2,3)] show ?thesis
        by (auto simp: wire_image_def intro!: exI [of _ "t1 @ t2 @ t3"] intro: tx_step_trans)
    qed
  qed
qed

lemma msg_send_quiet:
  assumes wf: "wf_hdr (hdr m)" and tq: "tx_quiet (tx_plan c)"
    and ph: "sendable ph n" and pl: "sendable (payload m) (payload_len m)"
  shows "\<exists>c'. msg_send m ph n c = Some (0, m\<lparr>hdr := sent_hdr m ph n (clock c 0)\<rparr>, c') \<and>
    tx c' = tx c @ wire_image m ph n (clock c 0) \<and> tx_step c c' \<and> tx_quiet (tx_plan c')"
proof -
  let ?c0 = "c\<lparr>clock := \<lambda>i. clock c (Suc i)\<rparr>" and ?h = "sent_hdr m ph n (clock c 0)"
  have c0: "tx_step c ?c0" "tx ?c0 = tx c" "tx_quiet (tx_plan ?c0)" using tq by (simp_all add: tx_step_def)
  have len: "length (enc_hdr ?h) = MessageHdr_size" using wf mh.length_enc [of ?h] by simp
  have pos: "0 < MessageHdr_size" by (simp add: MessageHdr_size_def)
  from send_all_quiet [OF c0(3) pos, of "enc_hdr ?h"] len obtain c1 where
    c1: "send_all (Some (enc_hdr ?h)) MessageHdr_size ?c0 = Some (0, c1)"
      "tx c1 = tx c @ enc_hdr ?h" "tx_step ?c0 c1" "tx_quiet (tx_plan c1)" by auto
  from send_opt_quiet [OF c1(4) ph] obtain c2 where
    c2: "send_opt ph n c1 = Some (0, c2)" "tx c2 = tx c1 @ opt_bytes ph n" "tx_step c1 c2"
      "tx_quiet (tx_plan c2)" by blast
  from send_opt_quiet [OF c2(4) pl] obtain c3 where
    c3: "send_opt (payload m) (payload_len m) c2 = Some (0, c3)"
      "tx c3 = tx c2 @ opt_bytes (payload m) (payload_len m)" "tx_step c2 c3" "tx_quiet (tx_plan c3)"
    by blast
  have "msg_send m ph n c = Some (0, m\<lparr>hdr := ?h\<rparr>, c3)"
    using c1(1) c2(1) c3(1) by (simp add: msg_send_def clock_gettime_def)
  moreover have "tx_step c c3" using c0(1) c1(3) c2(3) c3(3) by (blast intro: tx_step_trans)
  ultimately show ?thesis using c1(2) c2(2) c3(2,4) by (auto simp: wire_image_def)
qed

section \<open>Receiving a message\<close>

lemma recv_all_total: "0 < n \<Longrightarrow> \<exists>ret got c'. recv_all n c = Some (ret, got, c')"
  by (cases "recv_loop n [] c") (simp add: recv_all_def)

lemma recv_all_data:
  assumes "recv_all n c = Some (ret, got, c')"
  shows "incoming c = got @ incoming c'" "length got \<le> n" "ret = 0 \<longleftrightarrow> length got = n"
    "ret \<in> {0, -1, -2}" "rx_step c c'"
  using assms recv_loop_data [of n "[]" c ret got c'] by (auto simp: recv_all_def split: if_splits)

lemma recv_all_quiet:
  assumes "0 < n" "rx_quiet (rx c)" "n \<le> length (incoming c)"
  shows "\<exists>c'. recv_all n c = Some (0, take n (incoming c), c') \<and> incoming c' = drop n (incoming c) \<and>
    rx_step c c' \<and> rx_quiet (rx c')"
proof -
  obtain ret got c' where l: "recv_all n c = Some (ret, got, c')"
    using recv_all_total [OF assms(1)] by blast
  then have "recv_loop n [] c = (ret, got, c')" using assms(1) by (simp add: recv_all_def)
  note q = recv_loop_quiet [OF this assms(2)]
  with assms(3) have "ret = 0" "rx_quiet (rx c')" by auto
  with l recv_all_data [OF l] show ?thesis by auto
qed

lemma recv_all_eof:
  assumes "rx_quiet (rx c)" "length (incoming c) < n"
  shows "\<exists>c'. recv_all n c = Some (-2, incoming c, c') \<and> incoming c' = [] \<and> rx_step c c'"
proof -
  have "0 < n" using assms(2) by linarith
  then obtain ret got c' where l: "recv_all n c = Some (ret, got, c')"
    using recv_all_total by blast
  then have "recv_loop n [] c = (ret, got, c')" using \<open>0 < n\<close> by (simp add: recv_all_def)
  from recv_loop_quiet [OF this assms(1)] assms(2) have "ret = -2" "incoming c' = []" by auto
  with l recv_all_data [OF l] show ?thesis by auto
qed

lemma recv_hdr_data:
  assumes "wf_hdr h"
  shows "\<exists>ret h' c' bs. recv_hdr h c = Some (ret, h', c') \<and> wf_hdr h' \<and> incoming c = bs @ incoming c' \<and>
    ret \<in> {0, -1, -2} \<and> (ret = 0 \<longleftrightarrow> length bs = MessageHdr_size) \<and> (ret = 0 \<longrightarrow> h' = dec_hdr bs) \<and>
    length bs \<le> MessageHdr_size \<and> rx_step c c'"
proof -
  have "0 < MessageHdr_size" by (simp add: MessageHdr_size_def)
  from recv_all_total [OF this, of c] obtain ret got c' where
    r: "recv_all MessageHdr_size c = Some (ret, got, c')" by blast
  note d = recv_all_data [OF r]
  have "ret = 0 \<Longrightarrow> drop (length got) (enc_hdr h) = []"
    using d(3) mh.length_enc [OF assms] by simp
  with r d mh.wf_overwrite [OF assms d(2)] show ?thesis by (auto simp: recv_hdr_def)
qed

lemma recv_hdr_quiet:
  assumes "wf_hdr h" "rx_quiet (rx c)" "MessageHdr_size \<le> length (incoming c)"
  shows "\<exists>c'. recv_hdr h c = Some (0, dec_hdr (take MessageHdr_size (incoming c)), c') \<and>
    incoming c' = drop MessageHdr_size (incoming c) \<and> rx_step c c' \<and> rx_quiet (rx c')"
proof -
  have "0 < MessageHdr_size" by (simp add: MessageHdr_size_def)
  from recv_all_quiet [OF this assms(2,3)] obtain c' where
    r: "recv_all MessageHdr_size c = Some (0, take MessageHdr_size (incoming c), c')"
      "incoming c' = drop MessageHdr_size (incoming c)" "rx_step c c'" "rx_quiet (rx c')" by blast
  have "drop MessageHdr_size (enc_hdr h) = []" using mh.length_enc [OF assms(1)] by simp
  with r assms(3) show ?thesis by (auto simp: recv_hdr_def min_def)
qed

text \<open>msg_recv_header never faults; it consumes a whole header or reports why not.\<close>

lemma msg_recv_header_data:
  assumes "wf_hdr (hdr m)"
  shows "\<exists>ret m' c' bs. msg_recv_header m c = Some (ret, m', c') \<and> wf_hdr (hdr m') \<and>
    incoming c = bs @ incoming c' \<and> ret \<in> {0, -1, -2} \<and> (ret = 0 \<longleftrightarrow> length bs = MessageHdr_size) \<and>
    (ret = 0 \<longrightarrow> hdr m' = dec_hdr bs) \<and> payload m' = payload m \<and> rx_step c c'"
proof -
  from recv_hdr_data [OF assms, of c] obtain ret h' c' bs where
    r: "recv_hdr (hdr m) c = Some (ret, h', c')" "wf_hdr h'" "incoming c = bs @ incoming c'"
      "ret \<in> {0, -1, -2}" "ret = 0 \<longleftrightarrow> length bs = MessageHdr_size" "ret = 0 \<longrightarrow> h' = dec_hdr bs"
      "rx_step c c'" by blast
  show ?thesis
  proof (cases "ret = 0")
    case True
    with r show ?thesis
      by (auto simp: msg_recv_header_def clock_gettime_def rx_step_def)
  next
    case False
    with r(4) have "ret < 0" by auto
    with r show ?thesis by (auto simp: msg_recv_header_def)
  qed
qed

lemma hdr_front:
  assumes "wf_hdr h" "bs = enc_hdr h @ rest"
  shows "dec_hdr (take MessageHdr_size bs) = h" "drop MessageHdr_size bs = rest" "MessageHdr_size \<le> length bs"
  using mh.take_enc [OF assms(1), of rest] mh.drop_enc [OF assms(1), of rest] mh.dec_enc [OF assms(1)]
    mh.length_enc [OF assms(1)] by (simp_all only: assms(2) length_append le_add1)

lemma msg_recv_header_quiet:
  assumes "wf_hdr (hdr m)" "rx_quiet (rx c)" "MessageHdr_size \<le> length (incoming c)"
  shows "\<exists>c' t. msg_recv_header m c =
      Some (0, m\<lparr>hdr := dec_hdr (take MessageHdr_size (incoming c)), rcvd_at := t\<rparr>, c') \<and>
    incoming c' = drop MessageHdr_size (incoming c) \<and> rx_step c c' \<and> rx_quiet (rx c')"
proof -
  from recv_hdr_quiet [OF assms] obtain c' where
    "recv_hdr (hdr m) c = Some (0, dec_hdr (take MessageHdr_size (incoming c)), c')"
    "incoming c' = drop MessageHdr_size (incoming c)" "rx_step c c'" "rx_quiet (rx c')" by blast
  then show ?thesis by (auto simp: msg_recv_header_def clock_gettime_def rx_step_def)
qed

lemma msg_recv_payload_data:
  "\<exists>ret m' c' bs. msg_recv_payload maxlen m c = Some (ret, m', c') \<and> hdr m' = hdr m \<and>
    incoming c = bs @ incoming c' \<and> ret \<in> {0, -1, -2, -3} \<and> rx_step c c' \<and>
    (ret = -3 \<longleftrightarrow> maxlen < hdr_length (hdr m)) \<and> (ret = -3 \<longrightarrow> m' = m \<and> c' = c) \<and>
    (ret = 0 \<longrightarrow> length bs = unat (hdr_length (hdr m)) \<and>
       payload m' = (if bs = [] then payload m else Some bs)) \<and>
    (ret \<noteq> -3 \<longrightarrow> 0 < hdr_length (hdr m) \<longrightarrow>
       (\<exists>mem. payload m' = Some mem \<and> length mem = unat (hdr_length (hdr m))))"
proof (cases "maxlen < hdr_length (hdr m) \<or> hdr_length (hdr m) = 0")
  case True
  then show ?thesis by (auto simp: msg_recv_payload_def rx_step_refl word_neq_0_conv)
next
  case False
  let ?n = "unat (hdr_length (hdr m))"
  have pos: "0 < ?n" using False by (simp add: unat_gt_0)
  obtain mem c0 where u: "uninit ?n c = (mem, c0)" by fastforce
  then have c0: "length mem = ?n" "rx c0 = rx c" "rx_step c c0"
    using uninit_frame [where n = ?n and c = c] by auto
  from recv_all_total [OF pos, of c0] obtain ret got c' where
    r: "recv_all ?n c0 = Some (ret, got, c')" by blast
  note d = recv_all_data [OF r]
  have "msg_recv_payload maxlen m c =
      Some (ret, m\<lparr>payload := Some (got @ drop (length got) mem)\<rparr>, c')"
    using False u r d(4) by (auto simp: msg_recv_payload_def word_neq_0_conv)
  with d c0 False pos show ?thesis
    by (auto intro!: exI [of _ got] intro: rx_step_trans)
qed

lemma msg_recv_payload_quiet:
  assumes "rx_quiet (rx c)" "hdr_length (hdr m) \<le> maxlen" "0 < hdr_length (hdr m)"
    "unat (hdr_length (hdr m)) \<le> length (incoming c)"
  shows "\<exists>c'. msg_recv_payload maxlen m c =
      Some (0, m\<lparr>payload := Some (take (unat (hdr_length (hdr m))) (incoming c))\<rparr>, c') \<and>
    incoming c' = drop (unat (hdr_length (hdr m))) (incoming c) \<and> rx_step c c' \<and> rx_quiet (rx c')"
proof -
  let ?n = "unat (hdr_length (hdr m))"
  have pos: "0 < ?n" using assms(3) by (simp add: unat_gt_0 word_neq_0_conv)
  obtain mem c0 where u: "uninit ?n c = (mem, c0)" by fastforce
  then have c0: "length mem = ?n" "rx c0 = rx c" "rx_step c c0"
    using uninit_frame [where n = ?n and c = c] by auto
  have "rx_quiet (rx c0)" "?n \<le> length (incoming c0)" using c0 assms by auto
  from recv_all_quiet [OF pos this] c0 obtain c' where
    r: "recv_all ?n c0 = Some (0, take ?n (incoming c), c')" "incoming c' = drop ?n (incoming c)"
      "rx_step c0 c'" "rx_quiet (rx c')" by auto
  have "msg_recv_payload maxlen m c = Some (0, m\<lparr>payload := Some (take ?n (incoming c))\<rparr>, c')"
    using assms u r c0(1) by (auto simp: msg_recv_payload_def min_def)
  with r c0 show ?thesis by (auto intro: rx_step_trans)
qed

text \<open>msg_recv is the header and then the payload, with the same checks.\<close>

lemma msg_recv_data:
  assumes "wf_hdr (hdr m)"
  shows "\<exists>ret m' c' bs. msg_recv maxlen m c = Some (ret, m', c') \<and> wf_hdr (hdr m') \<and>
    incoming c = bs @ incoming c' \<and> ret \<in> {0, -1, -2, -3} \<and> rx_step c c' \<and>
    (ret \<in> {0, -3} \<longrightarrow> MessageHdr_size \<le> length bs \<and> hdr m' = dec_hdr (take MessageHdr_size bs)) \<and>
    (ret = 0 \<longrightarrow> hdr_length (hdr m') \<le> maxlen \<and> length bs = MessageHdr_size + unat (hdr_length (hdr m')) \<and>
       payload m' = (if hdr_length (hdr m') = 0 then payload m else Some (drop MessageHdr_size bs))) \<and>
    (ret = -3 \<longrightarrow> length bs = MessageHdr_size \<and> payload m' = payload m \<and> maxlen < hdr_length (hdr m')) \<and>
    (ret \<in> {-1, -2} \<longrightarrow> length bs < MessageHdr_size \<or>
       hdr_length (hdr m') \<le> maxlen \<and> length bs < MessageHdr_size + unat (hdr_length (hdr m')))"
proof -
  from recv_hdr_data [OF assms, of c] obtain ret h' c1 bs where
    r: "recv_hdr (hdr m) c = Some (ret, h', c1)" "wf_hdr h'" "incoming c = bs @ incoming c1"
      "ret \<in> {0, -1, -2}" "ret = 0 \<longleftrightarrow> length bs = MessageHdr_size" "ret = 0 \<longrightarrow> h' = dec_hdr bs"
      "length bs \<le> MessageHdr_size" "rx_step c c1" by blast
  consider (err) "ret < 0" | (big) "ret = 0" "maxlen < hdr_length h'"
    | (none) "ret = 0" "hdr_length h' = 0" | (some) "ret = 0" "\<not> maxlen < hdr_length h'" "0 < hdr_length h'"
    using r(4) word_neq_0_conv [of "hdr_length h'"] by fastforce
  then show ?thesis
  proof cases
    case err
    with r show ?thesis by (auto simp: msg_recv_def)
  next
    case big
    with r show ?thesis by (auto simp: msg_recv_def intro!: exI [of _ bs])
  next
    case none
    with r show ?thesis
      by (auto simp: msg_recv_def clock_gettime_def rx_step_def intro!: exI [of _ bs])
  next
    case some
    let ?n = "unat (hdr_length h')"
    have pos: "0 < ?n" using some by (simp add: unat_gt_0 word_neq_0_conv)
    obtain mem c2 where u: "uninit ?n c1 = (mem, c2)" by fastforce
    then have c2: "rx c2 = rx c1" "rx_step c1 c2" "length mem = ?n"
      using uninit_frame [where n = ?n and c = c1] by auto
    from recv_all_total [OF pos, of c2] obtain ret2 got c3 where
      a: "recv_all ?n c2 = Some (ret2, got, c3)" by blast
    note d = recv_all_data [OF a]
    have "\<exists>m' c'. msg_recv maxlen m c = Some (ret2, m', c') \<and> hdr m' = h' \<and> rx c' = rx c3 \<and>
        rx_step c3 c' \<and> (ret2 = 0 \<longrightarrow> payload m' = Some got)"
      using some r(1) u a d(3,4) c2(3) by (auto simp: msg_recv_def clock_gettime_def rx_step_def)
    then obtain m' c' where m': "msg_recv maxlen m c = Some (ret2, m', c')" "hdr m' = h'"
      "rx c' = rx c3" "rx_step c3 c'" "ret2 = 0 \<longrightarrow> payload m' = Some got" by blast
    have "rx_step c c'" using r(8) c2(2) d(5) m'(4) by (meson rx_step_trans)
    with r(2-6) some c2(1) d(1-4) m' show ?thesis
      by (intro exI [of _ ret2] exI [of _ m'] exI [of _ c'] exI [of _ "bs @ got"]) auto
  qed
qed

lemma msg_recv_quiet:
  assumes "wf_hdr (hdr m)" "rx_quiet (rx c)" "incoming c = enc_hdr h @ bs @ rest" "wf_hdr h"
    "length bs = unat (hdr_length h)" "hdr_length h \<le> maxlen"
  shows "\<exists>c' t. msg_recv maxlen m c = Some (0, m\<lparr>hdr := h, rcvd_at := t,
      payload := (if bs = [] then payload m else Some bs)\<rparr>, c') \<and>
    incoming c' = rest \<and> rx_step c c' \<and> rx_quiet (rx c')"
proof -
  have len: "MessageHdr_size \<le> length (incoming c)"
    using mh.length_enc [OF assms(4)] assms(3) by simp
  have front: "take MessageHdr_size (incoming c) = enc_hdr h"
    "drop MessageHdr_size (incoming c) = bs @ rest"
    unfolding assms(3) by (rule mh.take_enc [OF assms(4)], rule mh.drop_enc [OF assms(4)])
  from recv_hdr_quiet [OF assms(1,2) len] obtain c1 where
    r: "recv_hdr (hdr m) c = Some (0, h, c1)" "incoming c1 = bs @ rest" "rx_step c c1" "rx_quiet (rx c1)"
    unfolding front mh.dec_enc [OF assms(4)] by blast
  show ?thesis
  proof (cases "bs = []")
    case True
    with assms(5) have "hdr_length h = 0" by (metis list.size(3) unat_eq_zero)
    with True r show ?thesis
      by (cases m) (auto simp: msg_recv_def clock_gettime_def rx_step_def)
  next
    case False
    let ?n = "unat (hdr_length h)"
    have pos: "0 < ?n" using False assms(5) by (metis length_greater_0_conv)
    then have pos': "0 < hdr_length h" by (simp add: unat_gt_0 word_neq_0_conv)
    obtain mem c2 where u: "uninit ?n c1 = (mem, c2)" by fastforce
    then have c2: "length mem = ?n" "rx c2 = rx c1" "rx_step c1 c2"
      using uninit_frame [where n = ?n and c = c1] by auto
    have "rx_quiet (rx c2)" "?n \<le> length (incoming c2)" using c2 r assms(5) by auto
    from recv_all_quiet [OF pos this] c2 r(2) assms(5) obtain c3 where
      a: "recv_all ?n c2 = Some (0, bs, c3)" "incoming c3 = rest" "rx_step c2 c3" "rx_quiet (rx c3)"
      by auto
    have "\<exists>c' t. msg_recv maxlen m c = Some (0, m\<lparr>hdr := h, rcvd_at := t, payload := Some bs\<rparr>, c') \<and>
        rx c' = rx c3 \<and> rx_step c3 c'"
      (is "\<exists>c' t. ?R c' t")
      using r(1) u a(1) c2(1) assms(5) leD [OF assms(6)] pos'
      by (cases m) (auto simp: msg_recv_def clock_gettime_def rx_step_def Let_def)
    then obtain c' t where "?R c' t" by blast
    moreover from this r(3) c2(3) a(3) have "rx_step c c'" by (simp add: rx_step_def)
    ultimately show ?thesis using False a(2,4) by (intro exI [of _ c'] exI [of _ t]) simp
  qed
qed

section \<open>Properties\<close>

text \<open>
  recv_all under every behaviour of the kernel: the bytes stored are a prefix of what the
  connection brings, all len of them exactly when the result is 0, and the rest stays for the
  next call, so fragmentation, signals and errors never lose, duplicate or reorder a byte. If the
  peer only sends (in any fragments, with any number of interrupts) the call succeeds whenever
  enough bytes arrive.
\<close>

theorem recv_all_exact:
  assumes "recv_all len c = Some (ret, got, c')"
  shows "incoming c = got @ incoming c' \<and> length got \<le> len \<and> (ret = 0 \<longleftrightarrow> length got = len) \<and>
    ret \<in> {0, -1, -2} \<and> rx_step c c' \<and>
    (rx_quiet (rx c) \<longrightarrow> (ret = 0 \<longleftrightarrow> len \<le> length (incoming c)))"
proof -
  have "recv_loop len [] c = (ret, got, c')" using assms by (simp add: recv_all_def split: if_splits)
  with recv_all_data [OF assms] recv_loop_quiet show ?thesis by blast
qed

text \<open>A connection for the witnesses.\<close>

definition sample_conn :: "rx_event list \<Rightarrow> tx_event list \<Rightarrow> conn" where
  "sample_conn r p = \<lparr>rx = r, tx_plan = p, tx = [], clock = (\<lambda>_. zero_time), junk = (\<lambda>_. 0), errno = 0\<rparr>"

theorem recv_all_exact_witness:
  "\<exists>c'. recv_all 4 (sample_conn [RxData [1, 2], RxErr EINTR, RxData [3, 4, 5]] []) =
      Some (0, [1, 2, 3, 4], c') \<and> incoming c' = [5]"
proof -
  let ?c = "sample_conn [RxData [1, 2], RxErr EINTR, RxData [3, 4, 5]] []"
  obtain ret got c' where r: "recv_all 4 ?c = Some (ret, got, c')"
    using recv_all_total [of 4 ?c] by auto
  from recv_all_exact [OF r] have "ret = 0" and split: "[1, 2, 3, 4, 5] = got @ incoming c'"
    and len: "length got = 4"
    by (auto simp: sample_conn_def)
  have "got = take 4 [1, 2, 3, 4, 5]" "incoming c' = drop 4 [1, 2, 3, 4, 5]"
    using split len by (metis append_eq_conv_conj)+
  with r \<open>ret = 0\<close> show ?thesis by simp
qed

text \<open>
  msg_send under every behaviour of the kernel: what goes out is a prefix of the header
  (carrying the time of sending and a length that counts the payload header), the payload header
  and the payload, in this order; it is all of it exactly when msg_send returns 0.
\<close>

theorem msg_send_wire:
  assumes "wf_hdr (hdr m)" and "msg_send m ph n c = Some (ret, m', c')"
  shows "\<exists>sent. tx c' = tx c @ sent \<and> prefix sent (wire_image m ph n (clock c 0)) \<and>
    (ret = 0 \<longleftrightarrow> sent = wire_image m ph n (clock c 0)) \<and> ret \<in> {0, -1, -2}"
  using msg_send_data [OF assms] by blast

theorem msg_send_wire_witness:
  "\<exists>m' c'. msg_send (msg_init zero_msg MSGTYPE_LIST_REQ (Some [104, 105, 0]) 3) None 0
      (sample_conn [] [TxTake 5, TxErr EINTR]) = Some (0, m', c') \<and>
    tx c' = wire_image (msg_init zero_msg MSGTYPE_LIST_REQ (Some [104, 105, 0]) 3) None 0 zero_time"
proof -
  let ?m = "msg_init zero_msg MSGTYPE_LIST_REQ (Some [104, 105, 0]) 3"
    and ?c = "sample_conn [] [TxTake 5, TxErr EINTR]"
  have wf: "wf_hdr (hdr ?m)" by (simp add: zero_msg_def)
  have "sendable None (0::usize)" "sendable (payload ?m) (payload_len ?m)" "tx_quiet (tx_plan ?c)"
    by (auto simp: sendable_def msg_init_def sample_conn_def)
  from msg_send_quiet [OF wf this(3,1,2)] obtain m' c' where s: "msg_send ?m None 0 ?c = Some (0, m', c')"
    by blast
  from msg_send_wire [OF wf s] s show ?thesis by (auto simp: sample_conn_def)
qed

text \<open>
  C16. A message sent on one connection and received on another, in any fragments and with any
  interrupts, arrives as it was: type, token, length and payload, and exactly its bytes are
  consumed.
\<close>

theorem msg_send_recv_roundtrip:
  assumes "wf_hdr (hdr m)" "payload m = Some bs" "bs \<noteq> []" "length bs = unat (payload_len m)"
    "hdr_length (hdr m) = payload_len m" "payload_len m \<le> maxlen" "tx_quiet (tx_plan c)"
  shows "\<exists>m1 c1 w. msg_send m None 0 c = Some (0, m1, c1) \<and> tx c1 = tx c @ w \<and>
    (\<forall>m0 d rest. wf_hdr (hdr m0) \<and> rx_quiet (rx d) \<and> incoming d = w @ rest \<longrightarrow>
      (\<exists>m2 d1. msg_recv maxlen m0 d = Some (0, m2, d1) \<and> incoming d1 = rest \<and>
         hdr m2 = hdr m1 \<and> hdr_type (hdr m2) = hdr_type (hdr m) \<and>
         hdr_token (hdr m2) = hdr_token (hdr m) \<and> payload m2 = Some bs))"
proof -
  let ?h = "sent_hdr m None 0 (clock c 0)"
  have len: "0 < unat (payload_len m)" using assms(3,4) by (metis length_greater_0_conv)
  then have "sendable None (0::usize)" "sendable (payload m) (payload_len m)"
    using assms(2,4) by (auto simp: sendable_def)
  from msg_send_quiet [OF assms(1,7) this] obtain c1 where
    s: "msg_send m None 0 c = Some (0, m\<lparr>hdr := ?h\<rparr>, c1)"
      "tx c1 = tx c @ wire_image m None 0 (clock c 0)" by blast
  have w: "wire_image m None 0 (clock c 0) = enc_hdr ?h @ bs"
    using assms(2,4) by (simp add: wire_image_def opt_bytes_def)
  have h: "wf_hdr ?h" "hdr_length ?h = payload_len m"
    using assms(1,5) by (simp_all add: sent_hdr_def wf_hdr_def)
  have "\<exists>m2 d1. msg_recv maxlen m0 d = Some (0, m2, d1) \<and> incoming d1 = rest \<and>
      hdr m2 = hdr (m\<lparr>hdr := ?h\<rparr>) \<and> hdr_type (hdr m2) = hdr_type (hdr m) \<and>
      hdr_token (hdr m2) = hdr_token (hdr m) \<and> payload m2 = Some bs"
    if d: "wf_hdr (hdr m0)" "rx_quiet (rx d)" "incoming d = wire_image m None 0 (clock c 0) @ rest"
    for m0 rest and d :: "'b conn_scheme"
  proof -
    from d(3) w have "incoming d = enc_hdr ?h @ bs @ rest" by simp
    moreover have "length bs = unat (hdr_length ?h)" "hdr_length ?h \<le> maxlen"
      using h(2) assms(4,6) by simp_all
    ultimately obtain d1 t where "msg_recv maxlen m0 d = Some (0, m0\<lparr>hdr := ?h, rcvd_at := t,
        payload := (if bs = [] then payload m0 else Some bs)\<rparr>, d1)" "incoming d1 = rest"
      using msg_recv_quiet [OF d(1,2) _ h(1)] by blast
    with assms(3) show ?thesis by (simp add: sent_hdr_def)
  qed
  with s show ?thesis by blast
qed

theorem msg_send_recv_roundtrip_witness:
  "\<exists>m1 c1. msg_send (msg_init zero_msg MSGTYPE_LIST_REQ (Some [104, 105, 0]) 3) None 0
      (sample_conn [] []) = Some (0, m1, c1) \<and>
    (\<exists>m2 d1. msg_recv 4096 zero_msg
        (sample_conn [RxData (take 7 (tx c1)), RxErr EINTR, RxData (drop 7 (tx c1))] []) =
        Some (0, m2, d1) \<and> payload m2 = Some [104, 105, 0])"
proof -
  let ?m = "msg_init zero_msg MSGTYPE_LIST_REQ (Some [104, 105, 0]) 3"
  have "wf_hdr (hdr ?m)" "payload ?m = Some [104, 105, 0]" "[104, 105, 0 :: byte] \<noteq> []"
    "length [104, 105, 0 :: byte] = unat (payload_len ?m)" "hdr_length (hdr ?m) = payload_len ?m"
    "payload_len ?m \<le> 4096" "tx_quiet (tx_plan (sample_conn [] []))"
    by (simp_all add: msg_init_def zero_msg_def sample_conn_def zero_hdr_def wf_hdr_def)
  from msg_send_recv_roundtrip [OF this] obtain m1 c1 w where
    s: "msg_send ?m None 0 (sample_conn [] []) = Some (0, m1, c1)" "tx c1 = tx (sample_conn [] []) @ w" and
    r: "\<forall>m0 (d :: conn) rest. wf_hdr (hdr m0) \<and> rx_quiet (rx d) \<and> incoming d = w @ rest \<longrightarrow>
      (\<exists>m2 d1. msg_recv 4096 m0 d = Some (0, m2, d1) \<and> incoming d1 = rest \<and>
         hdr m2 = hdr m1 \<and> hdr_type (hdr m2) = hdr_type (hdr ?m) \<and>
         hdr_token (hdr m2) = hdr_token (hdr ?m) \<and> payload m2 = Some [104, 105, 0])"
    by blast
  let ?d = "sample_conn [RxData (take 7 w), RxErr EINTR, RxData (drop 7 w)] []"
  have "wf_hdr (hdr zero_msg)" "rx_quiet (rx ?d)" "incoming ?d = w @ []"
    by (simp_all add: sample_conn_def zero_msg_def)
  with r obtain m2 d1 where "msg_recv 4096 zero_msg ?d = Some (0, m2, d1)" "payload m2 = Some [104, 105, 0]"
    by blast
  moreover have "tx c1 = w" using s(2) by (simp add: sample_conn_def)
  ultimately show ?thesis using s(1) by blast
qed

text \<open>
  C28. msg_recv takes no more off the connection than the message: whatever arrives it returns, having
  consumed at most the 48 bytes of the header and maxlen bytes of payload. When it returns 0 it has
  consumed exactly the header and the announced number of bytes, at most maxlen, and these are the
  payload. When the announced length exceeds maxlen it returns -3 having consumed the header only, and
  the payload pointer is untouched. When it returns -1 or -2 it has consumed less than a message.
\<close>

theorem msg_recv_bounded:
  assumes "wf_hdr (hdr m)"
  shows "\<exists>ret m' c' bs. msg_recv maxlen m c = Some (ret, m', c') \<and> incoming c = bs @ incoming c' \<and>
    ret \<in> {0, -1, -2, -3} \<and> length bs \<le> 48 + unat maxlen \<and>
    (ret = 0 \<longrightarrow> hdr m' = dec_hdr (take 48 bs) \<and> length bs = 48 + unat (hdr_length (hdr m')) \<and>
       hdr_length (hdr m') \<le> maxlen \<and>
       payload m' = (if hdr_length (hdr m') = 0 then payload m else Some (drop 48 bs))) \<and>
    (ret = -3 \<longrightarrow> length bs = 48 \<and> maxlen < hdr_length (hdr m') \<and> payload m' = payload m) \<and>
    (ret \<in> {-1, -2} \<longrightarrow> length bs < 48 \<or>
       hdr_length (hdr m') \<le> maxlen \<and> length bs < 48 + unat (hdr_length (hdr m')))"
proof -
  from msg_recv_data [OF assms, of maxlen c, unfolded MessageHdr_size_def] obtain ret m' c' bs where
    r: "msg_recv maxlen m c = Some (ret, m', c')" "incoming c = bs @ incoming c'" "ret \<in> {0, -1, -2, -3}"
      "ret \<in> {0, -3} \<longrightarrow> 48 \<le> length bs \<and> hdr m' = dec_hdr (take 48 bs)"
      "ret = 0 \<longrightarrow> hdr_length (hdr m') \<le> maxlen \<and> length bs = 48 + unat (hdr_length (hdr m')) \<and>
         payload m' = (if hdr_length (hdr m') = 0 then payload m else Some (drop 48 bs))"
      "ret = -3 \<longrightarrow> length bs = 48 \<and> payload m' = payload m \<and> maxlen < hdr_length (hdr m')"
      "ret \<in> {-1, -2} \<longrightarrow> length bs < 48 \<or> hdr_length (hdr m') \<le> maxlen \<and> length bs < 48 + unat (hdr_length (hdr m'))"
    by blast
  have le: "length bs \<le> 48 + unat maxlen" using r(3,5-7) by (auto simp: word_le_nat_alt)
  have ok: "ret = 0 \<longrightarrow> hdr m' = dec_hdr (take 48 bs) \<and> length bs = 48 + unat (hdr_length (hdr m')) \<and>
       hdr_length (hdr m') \<le> maxlen \<and>
       payload m' = (if hdr_length (hdr m') = 0 then payload m else Some (drop 48 bs))"
    using r(4,5) by simp
  have big: "ret = -3 \<longrightarrow> length bs = 48 \<and> maxlen < hdr_length (hdr m') \<and> payload m' = payload m" using r(6) by simp
  show ?thesis
    by (intro exI conjI, rule r(1), rule r(2), rule r(3), rule le, rule ok, rule big, rule r(7))
qed

theorem msg_recv_bounded_witness:
  "\<exists>m' c'. msg_recv 0 zero_msg (sample_conn [RxData (enc_hdr (zero_hdr\<lparr>hdr_length := 9\<rparr>) @ [7])] []) =
      Some (-3, m', c') \<and> 0 < hdr_length (hdr m')"
proof -
  let ?h = "zero_hdr\<lparr>hdr_length := 9\<rparr>"
  let ?c = "sample_conn [RxData (enc_hdr ?h @ [7])] []"
  have wf: "wf_hdr ?h" "wf_hdr (hdr zero_msg)"
    by (simp_all add: wf_hdr_def zero_hdr_def zero_msg_def)
  from msg_recv_data [OF wf(2), of 0 ?c] obtain ret m' c' bs where
    r: "msg_recv 0 zero_msg ?c = Some (ret, m', c')" "incoming ?c = bs @ incoming c'"
      "ret \<in> {0, -3} \<longrightarrow> MessageHdr_size \<le> length bs \<and> hdr m' = dec_hdr (take MessageHdr_size bs)"
    by blast
  have "rx_quiet (rx ?c)" "MessageHdr_size \<le> length (incoming ?c)"
    using mh.length_enc [OF wf(1)] by (auto simp: sample_conn_def)
  moreover have "take MessageHdr_size (incoming ?c) = enc_hdr ?h"
    using mh.take_enc [OF wf(1), of "[7]"] by (simp add: sample_conn_def)
  ultimately obtain c1 where "recv_hdr (hdr zero_msg) ?c = Some (0, ?h, c1)"
    using recv_hdr_quiet [OF wf(2), of ?c] mh.dec_enc [OF wf(1)] by auto
  then have r3: "msg_recv 0 zero_msg ?c = Some (-3, zero_msg\<lparr>hdr := ?h\<rparr>, c1)"
    by (simp add: msg_recv_def)
  from msg_recv_bounded [OF wf(2), of 0 ?c] r3 show ?thesis by auto
qed

text \<open>
  C29. The listening thread reads headers from non-blocking sockets: when only a part of a header
  has arrived, msg_recv_header returns -1 with EAGAIN, and the part is gone. The next call starts
  in the middle of the header, so the stream is out of step from then on.
\<close>

theorem msg_recv_header_drops_partial:
  assumes "wf_hdr (hdr m)" and "0 < length part" and "length part < 48"
    and "rx c = [RxData part, RxErr EAGAIN, RxData late]"
  shows "\<exists>m1 c1. msg_recv_header m c = Some (-1, m1, c1) \<and> errno c1 = EAGAIN \<and>
    incoming c = part @ late \<and> incoming c1 = late \<and>
    (48 \<le> length late \<longrightarrow>
      (\<exists>m2 c2. msg_recv_header m1 c1 = Some (0, m2, c2) \<and> hdr m2 = dec_hdr (take 48 late)))"
proof -
  let ?c1 = "c\<lparr>rx := [RxData late], errno := EAGAIN\<rparr>"
  have "part \<noteq> []" using assms(2) by auto
  then have l: "recv_loop 48 [] c = (-1, part, ?c1)"
    using assms(2-4)
    by (simp add: recv_loop.simps [of 48] recv_loop.simps [of "48 - _"] recv_def EAGAIN_def EINTR_def)
  let ?m1 = "m\<lparr>hdr := dec_hdr (part @ drop (length part) (enc_hdr (hdr m)))\<rparr>"
  have r: "msg_recv_header m c = Some (-1, ?m1, ?c1)"
    using l by (simp add: msg_recv_header_def recv_hdr_def recv_all_def MessageHdr_size_def)
  have wf: "wf_hdr (hdr ?m1)"
    using mh.wf_overwrite [OF assms(1), of part] assms(3) by (simp add: MessageHdr_size_def)
  have "\<exists>m2 c2. msg_recv_header ?m1 ?c1 = Some (0, m2, c2) \<and> hdr m2 = dec_hdr (take 48 late)"
    if "48 \<le> length late"
    using msg_recv_header_quiet [OF wf, of ?c1] that by (auto simp: MessageHdr_size_def)
  with r assms(4) show ?thesis by auto
qed

theorem msg_recv_header_drops_partial_witness:
  "\<exists>m1 c1. msg_recv_header zero_msg
      (sample_conn [RxData [1, 2, 3], RxErr EAGAIN, RxData [4]] []) = Some (-1, m1, c1) \<and>
    incoming c1 = [4]"
  using msg_recv_header_drops_partial [of zero_msg "[1, 2, 3]"
      "sample_conn [RxData [1, 2, 3], RxErr EAGAIN, RxData [4]] []" "[4]"]
  by (auto simp: sample_conn_def zero_msg_def)

text \<open>
  The type table: the 21 enumerators have the codes 0 to 20, one each, and every one prints
  as its own name; printing any other 32-bit value, which a peer is free to send, is a failed
  assert.
\<close>

theorem msg_type_codes:
  "msg_type_to_str (type_code t) = map_of MSGTYPES t \<and> map_of MSGTYPES t \<noteq> None \<and>
   msgtype_of (type_code t) = Some t \<and>
   (msgtype_of w = Some t \<longleftrightarrow> w = type_code t) \<and>
   (msg_type_to_str w = None \<longleftrightarrow> 21 \<le> unat w)"
proof -
  have code: "msgtype_of (type_code t) = Some t" for t
    by (cases t) (simp_all add: msgtype_of_def type_code_def MSGTYPES_def)
  have name: "map_of MSGTYPES t \<noteq> None" for t by (cases t) (simp_all add: MSGTYPES_def)
  have len: "length MSGTYPES = 21" by (simp add: MSGTYPES_def)
  have all: "type_code (fst (MSGTYPES ! k)) = of_nat k" if "k < 21" for k
  proof -
    have "k \<in> set [0..<21]" using that by simp
    moreover have "\<forall>k \<in> set [0..<21]. type_code (fst (MSGTYPES ! k)) = of_nat k"
      by (simp add: upt_rec MSGTYPES_def type_code_def)
    ultimately show ?thesis by blast
  qed
  have inv: "w = type_code t" if "msgtype_of w = Some t"
  proof -
    from that len have "unat w < 21" "t = fst (MSGTYPES ! unat w)"
      by (auto simp: msgtype_of_def split: if_splits)
    with all [of "unat w"] show ?thesis by simp
  qed
  have "msg_type_to_str w = None \<longleftrightarrow> 21 \<le> unat w"
    using len name by (auto simp: msg_type_to_str_def msgtype_of_def not_less split: if_splits)
  with code name inv show ?thesis by (auto simp: msg_type_to_str_def)
qed

end
