(* ===== verification/Chunk.thy ===== *)
theory Chunk
  imports Msg
begin

text \<open>
  Data chunks: src/chunk.h, src/chunk.c, and the checksum functions of src/util.c (lines 82-93 and
  139-150). SHA-256 is OpenSSL's, so it is the parameter sha of the definitions that use it: the
  digest of a byte string. Where it matters that a digest fills a checksum_t, the theorems say so
  (length 32).
\<close>

section \<open>Checksums\<close>

definition CHUNK_SIZE :: nat where
  "CHUNK_SIZE = 4096"

text \<open>EVP_DigestUpdate reads data_len bytes of data.\<close>

definition checksum :: "(byte list \<Rightarrow> byte list) \<Rightarrow> byte list \<Rightarrow> nat \<Rightarrow> byte list option" where
  "checksum sha data data_len =
     (if length data < data_len then None else Some (sha (take data_len data)))"

function checksums_match_from :: "nat \<Rightarrow> byte list \<Rightarrow> byte list \<Rightarrow> bool" where
  "checksums_match_from i chk1 chk2 =
     (if i < 32 then (if chk1 ! i \<noteq> chk2 ! i then False else checksums_match_from (i + 1) chk1 chk2)
      else True)"
  by pat_completeness auto
termination
  by (relation "measure (\<lambda>(i, a, b). 32 - i)") auto

declare checksums_match_from.simps [simp del]

definition checksums_match :: "byte list \<Rightarrow> byte list \<Rightarrow> bool" where
  "checksums_match chk1 chk2 = checksums_match_from 0 chk1 chk2"

lemma checksums_match_from_iff:
  "checksums_match_from i a b \<longleftrightarrow> (\<forall>k. i \<le> k \<longrightarrow> k < 32 \<longrightarrow> a ! k = b ! k)"
proof (induction i a b rule: checksums_match_from.induct)
  case (1 i a b)
  show ?case
  proof (cases "i < 32 \<and> a ! i = b ! i")
    case True
    with 1 have "checksums_match_from i a b \<longleftrightarrow> (\<forall>k. i + 1 \<le> k \<longrightarrow> k < 32 \<longrightarrow> a ! k = b ! k)"
      by (subst checksums_match_from.simps) auto
    also have "\<dots> \<longleftrightarrow> (\<forall>k. i \<le> k \<longrightarrow> k < 32 \<longrightarrow> a ! k = b ! k)"
      using True by (auto simp: Suc_le_eq) (metis le_neq_implies_less)
    finally show ?thesis .
  next
    case False
    then show ?thesis by (subst checksums_match_from.simps) auto
  qed
qed

lemma checksums_match_iff: "length a = 32 \<Longrightarrow> length b = 32 \<Longrightarrow> checksums_match a b \<longleftrightarrow> a = b"
  by (auto simp: checksums_match_def checksums_match_from_iff intro: nth_equalityI)

section \<open>Chunks\<close>

record ChunkHdr =
  ch_seq :: usize
  ch_start_byte :: usize
  ch_end_byte :: usize
  ch_length :: usize
  ch_checksum :: "byte list"

text \<open>data is the memory from the pointer to the end of its allocation, None for NULL.\<close>

record Chunk =
  ck_hdr :: ChunkHdr
  ck_data :: "byte list option"

definition ChunkHdr_size :: nat where
  "ChunkHdr_size = 64"

definition enc_chdr :: "ChunkHdr \<Rightarrow> byte list" where
  "enc_chdr h = le_of_u64 (ch_seq h) @ le_of_u64 (ch_start_byte h) @ le_of_u64 (ch_end_byte h) @
     le_of_u64 (ch_length h) @ ch_checksum h"

definition dec_chdr :: "byte list \<Rightarrow> ChunkHdr" where
  "dec_chdr bs =
     \<lparr>ch_seq = u64_of_le (take 8 bs),
      ch_start_byte = u64_of_le (take 8 (drop 8 bs)),
      ch_end_byte = u64_of_le (take 8 (drop 16 bs)),
      ch_length = u64_of_le (take 8 (drop 24 bs)),
      ch_checksum = drop 32 bs\<rparr>"

definition wf_chdr :: "ChunkHdr \<Rightarrow> bool" where
  "wf_chdr h \<longleftrightarrow> length (ch_checksum h) = 32"

lemma split_64:
  "length bs = 64 \<Longrightarrow>
   take 8 bs @ take 8 (drop 8 bs) @ take 8 (drop 16 bs) @ take 8 (drop 24 bs) @ drop 32 bs = bs"
  using append_take_drop_id [of 8 bs] drop_split [of 8 bs 8] drop_split [of 16 bs 8]
    drop_split [of 24 bs 8] by simp

interpretation ch: wire_struct enc_chdr dec_chdr ChunkHdr_size wf_chdr
proof unfold_locales
  fix x
  assume wf: "wf_chdr x"
  then show "length (enc_chdr x) = ChunkHdr_size"
    by (simp add: enc_chdr_def wf_chdr_def ChunkHdr_size_def)
  from wf show "dec_chdr (enc_chdr x) = x"
    by (simp add: enc_chdr_def dec_chdr_def wf_chdr_def)
next
  fix bs :: "byte list"
  assume len: "length bs = ChunkHdr_size"
  then show "wf_chdr (dec_chdr bs)" by (simp add: dec_chdr_def wf_chdr_def ChunkHdr_size_def)
  from len show "enc_chdr (dec_chdr bs) = bs"
    by (simp add: enc_chdr_def dec_chdr_def ChunkHdr_size_def le_of_u64_of_le split_64)
qed

definition chunk_init ::
  "(byte list \<Rightarrow> byte list) \<Rightarrow> ChunkHdr \<Rightarrow> byte list \<Rightarrow> Chunk option" where
  "chunk_init sha h data = do {
     chk \<leftarrow> checksum sha data (unat (ch_length h));
     Some \<lparr>ck_hdr = h\<lparr>ch_checksum := chk\<rparr>, ck_data = Some data\<rparr>
   }"

text \<open>An uninitialised local Message: its header is whatever the stack holds.\<close>

definition uninit_msg :: "'a conn_scheme \<Rightarrow> Message \<times> 'a conn_scheme" where
  "uninit_msg c =
     (let (bs, c) = uninit MessageHdr_size c
      in (\<lparr>hdr = dec_hdr bs, rcvd_at = zero_time, payload = None, payload_len = 0\<rparr>, c))"

definition chunk_send :: "Chunk \<Rightarrow> 'a conn_scheme \<Rightarrow> (int \<times> 'a conn_scheme) option" where
  "chunk_send self c = do {
     let (msg, c) = uninit_msg c;
     let msg = msg_init msg MSGTYPE_SEND_CHUNK (ck_data self) (ch_length (ck_hdr self));
     (ret, msg, c) \<leftarrow> msg_send msg (Some (enc_chdr (ck_hdr self))) (of_nat ChunkHdr_size) c;
     if ret < 0 then Some (ret, c) else Some (int (unat (ch_length (ck_hdr self))), c)
   }"

text \<open>
  chunk_recv ignores the result of msg_recv_payload and reads the payload in any case; the
  payload pointer is NULL when msg_recv_payload refused the length.
\<close>

definition chunk_recv ::
  "(byte list \<Rightarrow> byte list) \<Rightarrow> Chunk \<Rightarrow> 'a conn_scheme \<Rightarrow> (int \<times> Chunk \<times> 'a conn_scheme) option" where
  "chunk_recv sha self c = do {
     let msg = zero_msg;
     (ret, msg, c) \<leftarrow> msg_recv_header msg c;
     if ret < 0 then Some (ret, self, c)
     else if hdr_length (hdr msg) < of_nat ChunkHdr_size then Some (-4, self, c)
     else do {
       (_, msg, c) \<leftarrow> msg_recv_payload (of_nat (ChunkHdr_size + CHUNK_SIZE)) msg c;
       mem \<leftarrow> payload msg;
       let self = \<lparr>ck_hdr = dec_chdr (take ChunkHdr_size mem), ck_data = Some (drop ChunkHdr_size mem)\<rparr>;
       chk \<leftarrow> checksum sha (drop ChunkHdr_size mem) (unat (ch_length (ck_hdr self)));
       if \<not> checksums_match chk (ch_checksum (ck_hdr self)) then Some (-3, self, c)
       else Some (int (unat (hdr_length (hdr msg) - of_nat ChunkHdr_size)), self, c)
     }
   }"

section \<open>Sending\<close>

lemma wf_uninit_msg [simp]: "wf_hdr (hdr (fst (uninit_msg c)))"
  using mh.wf_dec [of "fst (uninit MessageHdr_size c)"]
  by (simp add: uninit_msg_def split_beta frame_simps)

lemma uninit_msg_frame [frame_simps]:
  "rx (snd (uninit_msg c)) = rx c" "tx (snd (uninit_msg c)) = tx c"
  "tx_plan (snd (uninit_msg c)) = tx_plan c" "tx_step c (snd (uninit_msg c))"
  "rx_step c (snd (uninit_msg c))"
  by (simp_all add: uninit_msg_def split_beta frame_simps)

text \<open>The bytes of one chunk on the wire, whatever the unset header fields hold.\<close>

definition chunk_frame :: "Chunk \<Rightarrow> byte list \<Rightarrow> bool" where
  "chunk_frame ck w \<longleftrightarrow>
     (\<exists>h data. wf_hdr h \<and> ck_data ck = Some data \<and>
        hdr_type h = type_code MSGTYPE_SEND_CHUNK \<and>
        hdr_length h = ch_length (ck_hdr ck) + of_nat ChunkHdr_size \<and>
        w = enc_hdr h @ enc_chdr (ck_hdr ck) @ take (unat (ch_length (ck_hdr ck))) data)"

lemma chunk_send_quiet:
  assumes "tx_quiet (tx_plan c)" "wf_chdr (ck_hdr ck)" "ck_data ck = Some data"
    "0 < unat (ch_length (ck_hdr ck))" "unat (ch_length (ck_hdr ck)) \<le> length data"
  shows "\<exists>w c'. chunk_send ck c = Some (int (unat (ch_length (ck_hdr ck))), c') \<and> tx c' = tx c @ w \<and>
    chunk_frame ck w \<and> tx_step c c' \<and> tx_quiet (tx_plan c')"
proof -
  let ?n = "ch_length (ck_hdr ck)" and ?ph = "Some (enc_chdr (ck_hdr ck))"
  obtain m0 c0 where u: "uninit_msg c = (m0, c0)" by fastforce
  let ?m = "msg_init m0 MSGTYPE_SEND_CHUNK (Some data) ?n"
  have m0: "wf_hdr (hdr m0)" using wf_uninit_msg [of c] u by simp
  then have wf: "wf_hdr (hdr ?m)" by simp
  have c0: "tx c0 = tx c" "tx_quiet (tx_plan c0)" "tx_step c c0"
    using uninit_msg_frame [where c = c] u assms(1) by auto
  have n64: "unat (of_nat ChunkHdr_size :: usize) = 64" by (simp add: ChunkHdr_size_def)
  have len: "length (enc_chdr (ck_hdr ck)) = 64"
    using ch.length_enc [OF assms(2)] by (simp add: ChunkHdr_size_def)
  have s: "sendable ?ph (of_nat ChunkHdr_size)" "sendable (payload ?m) (payload_len ?m)"
    using assms(4,5) len n64 by (auto simp: sendable_def msg_init_def)
  let ?h = "sent_hdr ?m ?ph (of_nat ChunkHdr_size) (clock c0 0)"
  from msg_send_quiet [OF wf c0(2) s] obtain c' where
    r: "msg_send ?m ?ph (of_nat ChunkHdr_size) c0 = Some (0, ?m\<lparr>hdr := ?h\<rparr>, c')"
      "tx c' = tx c0 @ wire_image ?m ?ph (of_nat ChunkHdr_size) (clock c0 0)"
      "tx_step c0 c'" "tx_quiet (tx_plan c')" by blast
  have w: "wire_image ?m ?ph (of_nat ChunkHdr_size) (clock c0 0) =
      enc_hdr ?h @ enc_chdr (ck_hdr ck) @ take (unat ?n) data"
    using n64 len by (simp add: wire_image_def opt_bytes_def msg_init_def)
  have "wf_hdr ?h" using wf by simp
  then have "chunk_frame ck (wire_image ?m ?ph (of_nat ChunkHdr_size) (clock c0 0))"
    unfolding chunk_frame_def w
    using assms(3) by (intro exI [of _ ?h] exI [of _ data]) (simp add: sent_hdr_def msg_init_def)
  moreover have "chunk_send ck c = Some (int (unat ?n), c')"
    using u r(1) assms(3) by (simp add: chunk_send_def)
  ultimately show ?thesis using r c0 by (auto intro: tx_step_trans)
qed

lemma chunk_send_step:
  assumes "chunk_send ck c = Some (ret, c')"
  shows "tx_step c c'"
proof -
  obtain m0 c0 where u: "uninit_msg c = (m0, c0)" by fastforce
  let ?m = "msg_init m0 MSGTYPE_SEND_CHUNK (ck_data ck) (ch_length (ck_hdr ck))"
  have "wf_hdr (hdr ?m)" using wf_uninit_msg [of c] u by simp
  moreover from assms u obtain r1 m1 where
    "msg_send ?m (Some (enc_chdr (ck_hdr ck))) (of_nat ChunkHdr_size) c0 = Some (r1, m1, c')"
    by (auto simp: chunk_send_def bind_eq_Some_conv split: if_splits)
  ultimately have "tx_step c0 c'" using msg_send_data by blast
  moreover have "tx_step c c0" using uninit_msg_frame [where c = c] u by auto
  ultimately show ?thesis by (blast intro: tx_step_trans)
qed

section \<open>Receiving\<close>

lemma u64_sizes [simp]:
  "unat (of_nat ChunkHdr_size :: usize) = 64"
  "unat (of_nat (ChunkHdr_size + CHUNK_SIZE) :: usize) = 4160"
  by (simp_all add: ChunkHdr_size_def CHUNK_SIZE_def)

text \<open>
  Every result of chunk_recv comes with what it consumed: at least a message header unless the
  header itself could not be read. Nothing is sent.
\<close>

lemma chunk_recv_data:
  assumes "chunk_recv sha ck c = Some (ret, ck', c')"
  shows "(\<exists>bs. incoming c = bs @ incoming c' \<and> (ret \<noteq> -1 \<longrightarrow> ret \<noteq> -2 \<longrightarrow> MessageHdr_size \<le> length bs)) \<and>
    rx_step c c' \<and> -4 \<le> ret \<and> ret \<le> int CHUNK_SIZE \<and>
    (0 \<le> ret \<or> ret = -3 \<longrightarrow> wf_chdr (ck_hdr ck') \<and>
      (\<exists>d. ck_data ck' = Some d \<and> length d \<le> CHUNK_SIZE \<and> unat (ch_length (ck_hdr ck')) \<le> length d))"
proof -
  have "wf_hdr (hdr zero_msg)" by (simp add: zero_msg_def)
  from msg_recv_header_data [OF this, of c] obtain r1 m1 c1 b1 where
    h: "msg_recv_header zero_msg c = Some (r1, m1, c1)" "incoming c = b1 @ incoming c1"
      "r1 \<in> {0, -1, -2}" "r1 = 0 \<longleftrightarrow> length b1 = MessageHdr_size" "rx_step c c1"
      "payload m1 = payload zero_msg" by blast
  show ?thesis
  proof (cases "r1 = 0")
    case False
    with h(3) have "r1 < 0" by auto
    with assms h have "ret = r1" "c' = c1" by (auto simp: chunk_recv_def)
    with h False show ?thesis by (auto simp: CHUNK_SIZE_def)
  next
    case r1: True
    show ?thesis
    proof (cases "hdr_length (hdr m1) < of_nat ChunkHdr_size")
      case True
      with assms h r1 have "ret = -4" "c' = c1" by (auto simp: chunk_recv_def)
      with h r1 show ?thesis by (auto simp: CHUNK_SIZE_def)
    next
      case big: False
      let ?max = "of_nat (ChunkHdr_size + CHUNK_SIZE) :: usize"
      have n64: "64 \<le> unat (hdr_length (hdr m1))"
        using big by (simp add: word_less_nat_alt ChunkHdr_size_def)
      then have pos: "0 < hdr_length (hdr m1)" by (simp add: word_less_nat_alt)
      from msg_recv_payload_data [of ?max m1 c1] obtain r2 m2 c2 b2 where
        p: "msg_recv_payload ?max m1 c1 = Some (r2, m2, c2)" "hdr m2 = hdr m1"
          "incoming c1 = b2 @ incoming c2" "rx_step c1 c2"
          "r2 = -3 \<longleftrightarrow> ?max < hdr_length (hdr m1)" "r2 = -3 \<longrightarrow> m2 = m1"
          "r2 \<noteq> -3 \<longrightarrow> (\<exists>mem. payload m2 = Some mem \<and> length mem = unat (hdr_length (hdr m1)))"
        using pos by blast
      have "payload m2 \<noteq> None"
        using assms h(1) r1 big p(1) by (cases "payload m2") (auto simp: chunk_recv_def)
      then have "r2 \<noteq> -3" using p(6) h(6) by (auto simp: zero_msg_def)
      with p obtain mem where mem: "payload m2 = Some mem" "length mem = unat (hdr_length (hdr m1))"
        and max: "\<not> ?max < hdr_length (hdr m1)" by blast
      have n: "unat (hdr_length (hdr m1)) \<le> 4160"
        using max by (simp add: word_less_nat_alt not_less ChunkHdr_size_def CHUNK_SIZE_def)
      obtain N where N: "unat (hdr_length (hdr m1)) = N" by blast
      have diff: "unat (hdr_length (hdr m1) - of_nat ChunkHdr_size) = unat (hdr_length (hdr m1)) - 64"
        using n64 by (simp add: unat_sub word_le_nat_alt ChunkHdr_size_def)
      let ?ck = "\<lparr>ck_hdr = dec_chdr (take ChunkHdr_size mem), ck_data = Some (drop ChunkHdr_size mem)\<rparr>"
      have "\<exists>chk. checksum sha (drop ChunkHdr_size mem) (unat (ch_length (ck_hdr ?ck))) = Some chk \<and>
          ck' = ?ck \<and> c' = c2 \<and> (ret = -3 \<or> ret = int (N - 64))"
        using assms h(1) r1 big p(1,2) mem(1) diff N
        by (auto simp: chunk_recv_def Let_def bind_eq_Some_conv split: if_splits)
      moreover have "wf_chdr (ck_hdr ?ck)"
        using ch.wf_dec [of "take ChunkHdr_size mem"] mem n64 by (simp add: ChunkHdr_size_def)
      ultimately show ?thesis
        using h(2,4) h(5) p(3,4) r1 mem(2) n n64 unfolding N
        by (auto simp: checksum_def ChunkHdr_size_def CHUNK_SIZE_def MessageHdr_size_def
            intro: rx_step_trans split: if_splits)
    qed
  qed
qed

text \<open>A complete chunk message at the front of a quiet connection.\<close>

lemma chunk_recv_quiet:
  assumes "rx_quiet (rx c)" "incoming c = enc_hdr h @ pl @ rest" "wf_hdr h"
    "length pl = unat (hdr_length h)" "64 \<le> length pl" "length pl \<le> 4160"
  shows "\<exists>c'. incoming c' = rest \<and> rx_step c c' \<and> rx_quiet (rx c') \<and>
    chunk_recv sha ck c =
      (let ck' = \<lparr>ck_hdr = dec_chdr (take 64 pl), ck_data = Some (drop 64 pl)\<rparr>;
           n = unat (ch_length (ck_hdr ck'))
       in if length pl - 64 < n then None
          else if checksums_match (sha (take n (drop 64 pl))) (ch_checksum (ck_hdr ck'))
          then Some (int (length pl - 64), ck', c') else Some (-3, ck', c'))"
proof -
  have front: "take MessageHdr_size (incoming c) = enc_hdr h"
    "drop MessageHdr_size (incoming c) = pl @ rest"
    unfolding assms(2) by (rule mh.take_enc [OF assms(3)], rule mh.drop_enc [OF assms(3)])
  have "MessageHdr_size \<le> length (incoming c)"
    using mh.length_enc [OF assms(3)] assms(2) by simp
  moreover have "wf_hdr (hdr zero_msg)" by (simp add: zero_msg_def)
  ultimately obtain c1 t where
    h1: "msg_recv_header zero_msg c = Some (0, zero_msg\<lparr>hdr := h, rcvd_at := t\<rparr>, c1)"
      "incoming c1 = pl @ rest" "rx_step c c1" "rx_quiet (rx c1)"
    using msg_recv_header_quiet [of zero_msg c] assms(1) front mh.dec_enc [OF assms(3)] by auto
  let ?m1 = "zero_msg\<lparr>hdr := h, rcvd_at := t\<rparr>" and ?max = "of_nat (ChunkHdr_size + CHUNK_SIZE) :: usize"
  have n: "hdr_length (hdr ?m1) \<le> ?max" "0 < hdr_length (hdr ?m1)"
    "unat (hdr_length (hdr ?m1)) \<le> length (incoming c1)"
    using assms(4-6) h1(2) by (simp_all add: word_le_nat_alt word_less_nat_alt ChunkHdr_size_def CHUNK_SIZE_def)
  from msg_recv_payload_quiet [OF h1(4) n] obtain c2 where
    p: "msg_recv_payload ?max ?m1 c1 = Some (0, ?m1\<lparr>payload := Some pl\<rparr>, c2)"
      "incoming c2 = rest" "rx_step c1 c2" "rx_quiet (rx c2)"
    using h1(2) assms(4) by auto
  have "\<not> hdr_length h < of_nat ChunkHdr_size" "unat (hdr_length h - of_nat ChunkHdr_size) = length pl - 64"
    using assms(4,5) by (simp_all add: word_less_nat_alt unat_sub word_le_nat_alt ChunkHdr_size_def)
  with h1(1) p(1) have "chunk_recv sha ck c =
      (let ck' = \<lparr>ck_hdr = dec_chdr (take 64 pl), ck_data = Some (drop 64 pl)\<rparr>;
           n = unat (ch_length (ck_hdr ck'))
       in if length pl - 64 < n then None
          else if checksums_match (sha (take n (drop 64 pl))) (ch_checksum (ck_hdr ck'))
          then Some (int (length pl - 64), ck', c2) else Some (-3, ck', c2))"
    by (auto simp: chunk_recv_def checksum_def Let_def ChunkHdr_size_def)
  with p h1 show ?thesis by (blast intro: rx_step_trans)
qed

section \<open>Properties\<close>

text \<open>
  C23. Chunk round trip: a chunk of 1 to 4096 bytes, prepared by chunk_init and sent by
  chunk_send, is received by chunk_recv on the other side with the same header (sequence number,
  range, length, checksum) and the same data, whatever the fragmentation; chunk_recv returns the
  number of data bytes and consumes exactly the frame.
\<close>

theorem chunk_roundtrip:
  assumes "\<And>b. length (sha b) = 32" and "data \<noteq> []" "length data \<le> 4096"
    and "unat (ch_length h) = length data" and "chunk_init sha h data = Some ck"
    and "tx_quiet (tx_plan c)"
  shows "\<exists>w c1. chunk_send ck c = Some (int (length data), c1) \<and> tx c1 = tx c @ w \<and>
    (\<forall>old d rest. rx_quiet (rx d) \<and> incoming d = w @ rest \<longrightarrow>
      (\<exists>d1. chunk_recv sha old d = Some (int (length data), ck, d1) \<and> incoming d1 = rest))"
proof -
  from assms(4,5) have ck: "ck = \<lparr>ck_hdr = h\<lparr>ch_checksum := sha data\<rparr>, ck_data = Some data\<rparr>"
    by (simp add: chunk_init_def checksum_def)
  have wf: "wf_chdr (ck_hdr ck)" using assms(1) by (simp add: ck wf_chdr_def)
  have n: "0 < unat (ch_length (ck_hdr ck))" "unat (ch_length (ck_hdr ck)) \<le> length data"
    using assms(2,4) by (simp_all add: ck)
  from chunk_send_quiet [OF assms(6) wf _ n] ck assms(4) obtain w c1 where
    s: "chunk_send ck c = Some (int (length data), c1)" "tx c1 = tx c @ w" "chunk_frame ck w" by auto
  from s(3) assms(4) obtain hd where hd: "wf_hdr hd"
    "hdr_length hd = ch_length h + of_nat ChunkHdr_size" "w = enc_hdr hd @ enc_chdr (ck_hdr ck) @ data"
    by (auto simp: chunk_frame_def ck)
  let ?pl = "enc_chdr (ck_hdr ck) @ data"
  have enc: "length (enc_chdr (ck_hdr ck)) = 64"
    using ch.length_enc [OF wf] by (simp add: ChunkHdr_size_def)
  have "unat (hdr_length hd) = length data + 64"
    using hd(2) assms(3,4) by (simp add: unat_word_ariths ChunkHdr_size_def)
  then have pl: "length ?pl = unat (hdr_length hd)" "64 \<le> length ?pl" "length ?pl \<le> 4160"
    using enc assms(3) by auto
  have front: "dec_chdr (take 64 ?pl) = ck_hdr ck" "drop 64 ?pl = data"
    using enc ch.dec_enc [OF wf] by simp_all
  have "checksums_match (sha data) (sha data)"
    using checksums_match_iff [of "sha data" "sha data"] assms(1) by simp
  then have "\<exists>d1. chunk_recv sha old d = Some (int (length data), ck, d1) \<and> incoming d1 = rest"
    if "rx_quiet (rx d)" "incoming d = w @ rest" for old rest and d :: "'b conn_scheme"
    using chunk_recv_quiet [OF that(1) _ hd(1) pl, of rest sha old] that(2) hd(3) front enc assms(4) ck
    by auto
  with s show ?thesis by blast
qed

text \<open>A digest for the witnesses: the byte sum, as 32 bytes.\<close>

definition sample_sha :: "byte list \<Rightarrow> byte list" where
  "sample_sha bs = replicate 32 (sum_list bs)"

lemma length_sample_sha [simp]: "length (sample_sha b) = 32"
  by (simp add: sample_sha_def)

definition sample_chdr :: ChunkHdr where
  "sample_chdr = \<lparr>ch_seq = 0, ch_start_byte = 0, ch_end_byte = 2, ch_length = 3, ch_checksum = []\<rparr>"

definition sample_chunk :: Chunk where
  "sample_chunk = \<lparr>ck_hdr = sample_chdr\<lparr>ch_checksum := sample_sha [7, 8, 9]\<rparr>, ck_data = Some [7, 8, 9]\<rparr>"

lemma sample_chunk_init: "chunk_init sample_sha sample_chdr [7, 8, 9] = Some sample_chunk"
  by (simp add: chunk_init_def checksum_def sample_chdr_def sample_chunk_def)

theorem chunk_roundtrip_witness:
  "\<exists>w c1. chunk_send sample_chunk (sample_conn [] [TxTake 50]) = Some (3, c1) \<and> tx c1 = w \<and>
    (\<exists>d1. chunk_recv sample_sha sample_chunk (sample_conn [RxData w] []) = Some (3, sample_chunk, d1))"
proof -
  have "[7, 8, 9 :: byte] \<noteq> []" "length [7, 8, 9 :: byte] \<le> 4096"
    "unat (ch_length sample_chdr) = length [7, 8, 9 :: byte]"
    "tx_quiet (tx_plan (sample_conn [] [TxTake 50]))"
    by (simp_all add: sample_chdr_def sample_conn_def)
  from chunk_roundtrip [OF length_sample_sha this(1-3) sample_chunk_init this(4)]
  obtain w c1 where
    s: "chunk_send sample_chunk (sample_conn [] [TxTake 50]) = Some (int (length [7, 8, 9 :: byte]), c1)"
      "tx c1 = tx (sample_conn [] [TxTake 50]) @ w" and
    r: "\<forall>old (d :: conn) rest. rx_quiet (rx d) \<and> incoming d = w @ rest \<longrightarrow>
      (\<exists>d1. chunk_recv sample_sha old d = Some (int (length [7, 8, 9 :: byte]), sample_chunk, d1) \<and>
        incoming d1 = rest)"
    by blast
  have "rx_quiet (rx (sample_conn [RxData w] []))" "incoming (sample_conn [RxData w] []) = w @ []"
    by (simp_all add: sample_conn_def)
  with r obtain d1 where
    "chunk_recv sample_sha sample_chunk (sample_conn [RxData w] []) =
       Some (int (length [7, 8, 9 :: byte]), sample_chunk, d1)" by blast
  with s show ?thesis by (simp add: sample_conn_def)
qed

text \<open>
  C30. chunk_recv on every message of acceptable length: for a message of 64 to 4160 bytes it
  checks the digest of the first length bytes of the data against the one in the chunk header
  and returns -3 when they differ, otherwise the number of data bytes received, with the header
  and data as received. A corrupted chunk is therefore never accepted. But the length in the chunk
  header is believed: when it exceeds the data received, the digest is computed over memory past
  the end of the buffer, a fault.
\<close>

theorem chunk_recv_functional:
  assumes "rx_quiet (rx c)" "incoming c = enc_hdr h @ enc_chdr ck @ data @ rest" "wf_hdr h" "wf_chdr ck"
    "unat (hdr_length h) = 64 + length data" "length data \<le> 4096" "\<And>b. length (sha b) = 32"
  shows "if length data < unat (ch_length ck) then chunk_recv sha old c = None
    else \<exists>c'. incoming c' = rest \<and> chunk_recv sha old c =
      Some (if sha (take (unat (ch_length ck)) data) = ch_checksum ck then int (length data) else -3,
            \<lparr>ck_hdr = ck, ck_data = Some data\<rparr>, c')"
proof -
  let ?pl = "enc_chdr ck @ data"
  have enc: "length (enc_chdr ck) = 64" using ch.length_enc [OF assms(4)] by (simp add: ChunkHdr_size_def)
  have pl: "length ?pl = unat (hdr_length h)" "64 \<le> length ?pl" "length ?pl \<le> 4160"
    using enc assms(5,6) by simp_all
  have front: "dec_chdr (take 64 ?pl) = ck" "drop 64 ?pl = data" "length ?pl - 64 = length data"
    using enc ch.dec_enc [OF assms(4)] by simp_all
  have m: "checksums_match (sha b) (ch_checksum ck) \<longleftrightarrow> sha b = ch_checksum ck" for b
    using checksums_match_iff assms(4,7) by (simp add: wf_chdr_def)
  have inc: "incoming c = enc_hdr h @ ?pl @ rest" using assms(2) by simp
  from chunk_recv_quiet [OF assms(1) inc assms(3) pl, of sha old] obtain c' where
    c': "incoming c' = rest" and
    r: "chunk_recv sha old c =
      (let ck' = \<lparr>ck_hdr = ck, ck_data = Some data\<rparr>; n = unat (ch_length (ck_hdr ck'))
       in if length data < n then None
          else if checksums_match (sha (take n data)) (ch_checksum (ck_hdr ck'))
          then Some (int (length data), ck', c') else Some (-3, ck', c'))"
    unfolding front by blast
  show ?thesis
    using c' by (simp add: r m Let_def)
qed

theorem chunk_recv_functional_witness:
  "\<exists>c'. chunk_recv sample_sha sample_chunk
     (sample_conn [RxData (enc_hdr (zero_hdr\<lparr>hdr_length := 67\<rparr>) @ enc_chdr (ck_hdr sample_chunk) @ [7, 8, 8] @ [])] [])
   = Some (-3, \<lparr>ck_hdr = ck_hdr sample_chunk, ck_data = Some [7, 8, 8]\<rparr>, c') \<and> incoming c' = []"
proof -
  let ?h = "zero_hdr\<lparr>hdr_length := 67\<rparr>"
  let ?c = "sample_conn [RxData (enc_hdr ?h @ enc_chdr (ck_hdr sample_chunk) @ [7, 8, 8] @ [])] []"
  have h: "rx_quiet (rx ?c)"
    "incoming ?c = enc_hdr ?h @ enc_chdr (ck_hdr sample_chunk) @ [7, 8, 8] @ []"
    "wf_hdr ?h" "wf_chdr (ck_hdr sample_chunk)"
    "unat (hdr_length ?h) = 64 + length [7, 8, 8 :: byte]" "length [7, 8, 8 :: byte] \<le> 4096"
    by (simp_all add: sample_conn_def wf_hdr_def zero_hdr_def sample_chunk_def wf_chdr_def)
  have "\<not> length [7, 8, 8 :: byte] < unat (ch_length (ck_hdr sample_chunk))"
    "sample_sha (take (unat (ch_length (ck_hdr sample_chunk))) [7, 8, 8]) \<noteq> ch_checksum (ck_hdr sample_chunk)"
    by (simp_all add: sample_chunk_def sample_chdr_def sample_sha_def)
  with chunk_recv_functional [where sha = sample_sha and old = sample_chunk, OF h length_sample_sha]
  show ?thesis by auto
qed

text \<open>
  chunk_recv goes on after msg_recv_payload refused a message: a peer that announces more
  than 4160 bytes makes it copy from a null pointer.
\<close>

theorem chunk_recv_oversize_faults:
  assumes "rx_quiet (rx c)" "incoming c = enc_hdr h @ rest" "wf_hdr h" "4160 < unat (hdr_length h)"
  shows "chunk_recv sha ck c = None"
proof -
  have len: "MessageHdr_size \<le> length (incoming c)"
    using mh.length_enc [OF assms(3)] assms(2) by simp
  have "take MessageHdr_size (incoming c) = enc_hdr h"
    unfolding assms(2) by (rule mh.take_enc [OF assms(3)])
  moreover have wf: "wf_hdr (hdr zero_msg)" by (simp add: zero_msg_def)
  ultimately obtain c1 t where
    r: "msg_recv_header zero_msg c = Some (0, zero_msg\<lparr>hdr := h, rcvd_at := t\<rparr>, c1)"
    using msg_recv_header_quiet [OF wf assms(1) len] mh.dec_enc [OF assms(3)] by auto
  let ?m1 = "zero_msg\<lparr>hdr := h, rcvd_at := t\<rparr>"
  have "msg_recv_payload (of_nat (ChunkHdr_size + CHUNK_SIZE)) ?m1 c1 = Some (-3, ?m1, c1)"
    using assms(4) by (simp add: msg_recv_payload_def word_less_nat_alt ChunkHdr_size_def CHUNK_SIZE_def)
  moreover have "\<not> hdr_length h < of_nat ChunkHdr_size"
    using assms(4) by (simp add: word_less_nat_alt ChunkHdr_size_def)
  ultimately show ?thesis using r by (simp add: chunk_recv_def zero_msg_def)
qed

theorem chunk_recv_oversize_faults_witness:
  "4160 < unat (hdr_length (zero_hdr\<lparr>hdr_length := 5000\<rparr>)) \<and>
   chunk_recv sample_sha sample_chunk
     (sample_conn [RxData (enc_hdr (zero_hdr\<lparr>hdr_length := 5000\<rparr>))] []) = None"
proof -
  let ?h = "zero_hdr\<lparr>hdr_length := 5000\<rparr>"
  have big: "4160 < unat (hdr_length ?h)" by simp
  have "chunk_recv sample_sha sample_chunk (sample_conn [RxData (enc_hdr ?h)] []) = None"
    by (rule chunk_recv_oversize_faults [OF _ _ _ big, where rest = "[]"])
      (simp_all add: sample_conn_def wf_hdr_def zero_hdr_def)
  with big show ?thesis by blast
qed

end
