(* ===== verification/FileInfo.thy ===== *)
theory FileInfo
  imports Paths Chunk
begin

text \<open>
  FileInfo (src/file.h): the description of a file that client and server exchange as the bytes
  of the struct, with its wire format.
\<close>

record FileInfo =
  fi_size :: usize
  fi_chunk_count :: usize
  fi_checksum :: "byte list"
  fi_filename :: "byte list"

definition FileInfo_size :: nat where
  "FileInfo_size = 8 + 8 + 32 + PATH_MAX"

definition enc_info :: "FileInfo \<Rightarrow> byte list" where
  "enc_info i = le_of_u64 (fi_size i) @ le_of_u64 (fi_chunk_count i) @ fi_checksum i @ fi_filename i"

definition dec_info :: "byte list \<Rightarrow> FileInfo" where
  "dec_info bs =
     \<lparr>fi_size = u64_of_le (take 8 bs),
      fi_chunk_count = u64_of_le (take 8 (drop 8 bs)),
      fi_checksum = take 32 (drop 16 bs),
      fi_filename = drop 48 bs\<rparr>"

definition wf_info :: "FileInfo \<Rightarrow> bool" where
  "wf_info i \<longleftrightarrow> length (fi_checksum i) = 32 \<and> length (fi_filename i) = PATH_MAX"

interpretation fi: wire_struct enc_info dec_info FileInfo_size wf_info
proof unfold_locales
  fix x
  assume wf: "wf_info x"
  then show "length (enc_info x) = FileInfo_size"
    by (simp add: enc_info_def wf_info_def FileInfo_size_def)
  from wf show "dec_info (enc_info x) = x"
    by (simp add: enc_info_def dec_info_def wf_info_def)
next
  fix bs :: "byte list"
  assume len: "length bs = FileInfo_size"
  then show "wf_info (dec_info bs)" by (simp add: dec_info_def wf_info_def FileInfo_size_def)
  have "take 8 bs @ take 8 (drop 8 bs) @ take 32 (drop 16 bs) @ drop 48 bs = bs"
    using append_take_drop_id [of 8 bs] drop_split [of 8 bs 8] drop_split [of 16 bs 32] by simp
  with len show "enc_info (dec_info bs) = bs"
    by (simp add: enc_info_def dec_info_def FileInfo_size_def PATH_MAX_def le_of_u64_of_le)
qed

text \<open>The name in a FileInfo: a string that ends inside the array.\<close>

definition info_name :: "FileInfo \<Rightarrow> string option" where
  "info_name i = cstr (fi_filename i)"

text \<open>strcpy into the filename array: the bytes behind the copied string stay.\<close>

definition set_filename :: "string \<Rightarrow> FileInfo \<Rightarrow> FileInfo option" where
  "set_filename s i =
     (if length s < length (fi_filename i)
      then Some (i\<lparr>fi_filename := cbytes s @ drop (length s + 1) (fi_filename i)\<rparr>) else None)"

lemma set_filename_name: "set_filename s i = Some j \<Longrightarrow> NUL \<notin> set s \<Longrightarrow> info_name j = Some s"
  by (auto simp: set_filename_def info_name_def cstr_cbytes split: if_splits)

lemma wf_set_filename: "set_filename s i = Some j \<Longrightarrow> wf_info i \<Longrightarrow> wf_info j"
  by (auto simp: set_filename_def wf_info_def split: if_splits)

end
