(* ===== verification/Fs.thy ===== *)
theory Fs
  imports UserPath Chunk
begin

text \<open>
  The file system as the program sees it, and the functions of src/util.c that work on files and
  directories: file_exists, file_checksum, create_directories_from_path and rm_r. The system calls
  are modelled from their manual pages, as far as the program uses them: a tree of files and
  directories, the resolution of a path along it, the errors each call can find in the tree, and a
  script of further outcomes (a failing call, a short read or write). There are no symbolic links;
  everything that is neither a regular file nor a directory is NOther. The process is the only one
  that works on the tree, so a file descriptor is the path of its file and an offset.
\<close>

section \<open>The tree\<close>

datatype node = NFile "byte list" | NDir "(string \<times> node) list" | NOther

fun lookup :: "node \<Rightarrow> string list \<Rightarrow> node option" where
  "lookup n [] = Some n"
| "lookup (NDir es) (x # xs) = (case map_of es x of None \<Rightarrow> None | Some n \<Rightarrow> lookup n xs)"
| "lookup n (x # xs) = None"

fun set_entry :: "string \<Rightarrow> node \<Rightarrow> (string \<times> node) list \<Rightarrow> (string \<times> node) list" where
  "set_entry x n [] = [(x, n)]"
| "set_entry x n (e # es) = (if fst e = x then (x, n) # es else e # set_entry x n es)"

text \<open>Give the path a node, or take its node away; the parent must be a directory.\<close>

fun put_node :: "node \<Rightarrow> string list \<Rightarrow> node option \<Rightarrow> node" where
  "put_node n [] v = (case v of None \<Rightarrow> n | Some m \<Rightarrow> m)"
| "put_node (NDir es) (x # xs) v =
     (if xs = []
      then (case v of None \<Rightarrow> NDir (filter (\<lambda>e. fst e \<noteq> x) es) | Some m \<Rightarrow> NDir (set_entry x m es))
      else (case map_of es x of None \<Rightarrow> NDir es | Some n \<Rightarrow> NDir (set_entry x (put_node n xs v) es)))"
| "put_node n (x # xs) v = n"

section \<open>System calls\<close>

datatype fs_event = FsOk | FsErr int | FsShort nat

record io = conn +
  fs :: node
  cwd :: "string list"
  fs_plan :: "fs_event list"

definition ENOENT :: int where "ENOENT = 2"
definition EEXIST :: int where "EEXIST = 17"
definition ENOTDIR :: int where "ENOTDIR = 20"
definition EISDIR :: int where "EISDIR = 21"
definition EINVAL :: int where "EINVAL = 22"
definition EBUSY :: int where "EBUSY = 16"
definition ENXIO :: int where "ENXIO = 6"
definition ENAMETOOLONG :: int where "ENAMETOOLONG = 36"
definition ENOTEMPTY :: int where "ENOTEMPTY = 39"

lemmas errno_defs = ENOENT_def EEXIST_def ENOTDIR_def EISDIR_def EINVAL_def EBUSY_def ENXIO_def
  ENAMETOOLONG_def ENOTEMPTY_def

text \<open>The next scripted outcome; after the script every call goes as the tree has it.\<close>

definition fs_next :: "'a io_scheme \<Rightarrow> fs_event \<times> 'a io_scheme" where
  "fs_next c = (case fs_plan c of [] \<Rightarrow> (FsOk, c) | e # es \<Rightarrow> (e, c\<lparr>fs_plan := es\<rparr>))"

definition fail_with :: "int \<Rightarrow> 'a io_scheme \<Rightarrow> 'a io_scheme" where
  "fail_with e c = c\<lparr>errno := e\<rparr>"

text \<open>
  Walk from a directory along components: every directory on the way must exist. The result is
  the place the path names, which need not exist.
\<close>

fun walk :: "node \<Rightarrow> string list \<Rightarrow> string list \<Rightarrow> int + string list" where
  "walk r cur [] = Inr cur"
| "walk r cur (s # ss) =
     (case lookup r cur of
        None \<Rightarrow> Inl ENOENT
      | Some (NDir es) \<Rightarrow>
          if s = ''.'' then walk r cur ss
          else if s = ''..'' then walk r (butlast cur) ss
          else walk r (cur @ [s]) ss
      | Some _ \<Rightarrow> Inl ENOTDIR)"

text \<open>A path that ends in a slash names a directory, as if a dot followed.\<close>

definition path_comps :: "string \<Rightarrow> string list" where
  "path_comps path = segments path @ (if last path = CHR ''/'' then [''.''] else [])"

definition resolve :: "'a io_scheme \<Rightarrow> string \<Rightarrow> int + string list" where
  "resolve c path =
     (if path = '''' then Inl ENOENT
      else if PATH_MAX \<le> length path \<or> (\<exists>s \<in> set (segments path). 255 < length s) then Inl ENAMETOOLONG
      else walk (fs c) (if hd path = CHR ''/'' then [] else cwd c) (path_comps path))"

text \<open>A call on a path: a scripted error, an error of the resolution, or the place it names.\<close>

definition at_path :: "string \<Rightarrow> 'a io_scheme \<Rightarrow> (int + string list) \<times> 'a io_scheme" where
  "at_path path c = (case fs_next c of
     (FsErr e, c) \<Rightarrow> (Inl e, c)
   | (_, c) \<Rightarrow> (resolve c path, c))"

definition lstat :: "string \<Rightarrow> 'a io_scheme \<Rightarrow> node option \<times> 'a io_scheme" where
  "lstat path c = (case at_path path c of
     (Inl e, c) \<Rightarrow> (None, fail_with e c)
   | (Inr p, c) \<Rightarrow> (case lookup (fs c) p of
        None \<Rightarrow> (None, fail_with ENOENT c)
      | Some n \<Rightarrow> (Some n, c)))"

text \<open>open with O_RDONLY; opening a directory succeeds.\<close>

definition open_rd :: "string \<Rightarrow> 'a io_scheme \<Rightarrow> string list option \<times> 'a io_scheme" where
  "open_rd path c = (case at_path path c of
     (Inl e, c) \<Rightarrow> (None, fail_with e c)
   | (Inr p, c) \<Rightarrow> (if lookup (fs c) p = None then (None, fail_with ENOENT c) else (Some p, c)))"

text \<open>open with O_WRONLY and O_CREAT; without O_TRUNC an existing file keeps its contents.\<close>

definition open_wr :: "string \<Rightarrow> 'a io_scheme \<Rightarrow> string list option \<times> 'a io_scheme" where
  "open_wr path c = (case at_path path c of
     (Inl e, c) \<Rightarrow> (None, fail_with e c)
   | (Inr p, c) \<Rightarrow> (case lookup (fs c) p of
        None \<Rightarrow> (Some p, c\<lparr>fs := put_node (fs c) p (Some (NFile []))\<rparr>)
      | Some (NFile bs) \<Rightarrow> (Some p, c)
      | Some (NDir es) \<Rightarrow> (None, fail_with EISDIR c)
      | Some NOther \<Rightarrow> (None, fail_with ENXIO c)))"

definition file_bytes :: "'a io_scheme \<Rightarrow> string list \<Rightarrow> byte list" where
  "file_bytes c p = (case lookup (fs c) p of Some (NFile bs) \<Rightarrow> bs | _ \<Rightarrow> [])"

text \<open>
  read of up to n bytes at an offset: the bytes, or None for -1. A directory cannot be read. A
  short read returns fewer bytes than there are, but at least one.
\<close>

definition fs_read :: "string list \<Rightarrow> nat \<Rightarrow> nat \<Rightarrow> 'a io_scheme \<Rightarrow> byte list option \<times> 'a io_scheme" where
  "fs_read p off n c = (case fs_next c of
     (FsErr e, c) \<Rightarrow> (None, fail_with e c)
   | (ev, c) \<Rightarrow> (case lookup (fs c) p of
        Some (NFile bs) \<Rightarrow>
          (Some (take (case ev of FsShort k \<Rightarrow> min n (max k 1) | _ \<Rightarrow> n) (drop off bs)), c)
      | _ \<Rightarrow> (None, fail_with EISDIR c)))"

text \<open>write at an offset; a gap before the offset fills with zeros, the rest of the file stays.\<close>

definition overwrite :: "byte list \<Rightarrow> nat \<Rightarrow> byte list \<Rightarrow> byte list" where
  "overwrite old off new =
     take off old @ replicate (off - length old) 0 @ new @ drop (off + length new) old"

definition fs_write :: "string list \<Rightarrow> nat \<Rightarrow> byte list \<Rightarrow> 'a io_scheme \<Rightarrow> nat option \<times> 'a io_scheme" where
  "fs_write p off new c = (case fs_next c of
     (FsErr e, c) \<Rightarrow> (None, fail_with e c)
   | (ev, c) \<Rightarrow> (let new = (case ev of FsShort k \<Rightarrow> take k new | _ \<Rightarrow> new) in
       if new = [] then (Some 0, c)
       else (Some (length new),
             c\<lparr>fs := put_node (fs c) p (Some (NFile (overwrite (file_bytes c p) off new)))\<rparr>)))"

text \<open>mkdir, alone of these calls, does not mind a slash at the end of a new name.\<close>

definition strip_slashes :: "string \<Rightarrow> string" where
  "strip_slashes path =
     (let p = rev (dropWhile (\<lambda>ch. ch = CHR ''/'') (rev path)) in if p = [] then path else p)"

definition fs_mkdir :: "string \<Rightarrow> 'a io_scheme \<Rightarrow> int \<times> 'a io_scheme" where
  "fs_mkdir path c = (case at_path (strip_slashes path) c of
     (Inl e, c) \<Rightarrow> (-1, fail_with e c)
   | (Inr p, c) \<Rightarrow>
       if lookup (fs c) p \<noteq> None then (-1, fail_with EEXIST c)
       else (0, c\<lparr>fs := put_node (fs c) p (Some (NDir []))\<rparr>))"

definition fs_unlink :: "string \<Rightarrow> 'a io_scheme \<Rightarrow> int \<times> 'a io_scheme" where
  "fs_unlink path c = (case at_path path c of
     (Inl e, c) \<Rightarrow> (-1, fail_with e c)
   | (Inr p, c) \<Rightarrow> (case lookup (fs c) p of
        None \<Rightarrow> (-1, fail_with ENOENT c)
      | Some (NDir es) \<Rightarrow> (-1, fail_with EISDIR c)
      | Some _ \<Rightarrow> (0, c\<lparr>fs := put_node (fs c) p None\<rparr>)))"

definition fs_rmdir :: "string \<Rightarrow> 'a io_scheme \<Rightarrow> int \<times> 'a io_scheme" where
  "fs_rmdir path c = (case at_path path c of
     (Inl e, c) \<Rightarrow> (-1, fail_with e c)
   | (Inr p, c) \<Rightarrow> (case lookup (fs c) p of
        None \<Rightarrow> (-1, fail_with ENOENT c)
      | Some (NDir es) \<Rightarrow>
          if es \<noteq> [] then (-1, fail_with ENOTEMPTY c)
          else if p = [] then (-1, fail_with EBUSY c)
          else (0, c\<lparr>fs := put_node (fs c) p None\<rparr>)
      | Some _ \<Rightarrow> (-1, fail_with ENOTDIR c)))"

text \<open>opendir, and what readdir then returns one by one: the dot entries and the names.\<close>

definition opendir :: "string \<Rightarrow> 'a io_scheme \<Rightarrow> (string \<times> node) list option \<times> 'a io_scheme" where
  "opendir path c = (case at_path path c of
     (Inl e, c) \<Rightarrow> (None, fail_with e c)
   | (Inr p, c) \<Rightarrow> (case lookup (fs c) p of
        None \<Rightarrow> (None, fail_with ENOENT c)
      | Some (NDir es) \<Rightarrow> (Some ((''.'', NDir []) # (''..'', NDir []) # es), c)
      | Some _ \<Rightarrow> (None, fail_with ENOTDIR c)))"

section \<open>The program's functions on files\<close>

definition file_exists :: "string \<Rightarrow> 'a io_scheme \<Rightarrow> int \<times> 'a io_scheme" where
  "file_exists filename c =
     (let c = c\<lparr>errno := 0\<rparr>; (fd, c) = open_rd filename c
      in case fd of
           None \<Rightarrow> if errno c \<noteq> ENOENT then (-1, c) else (0, c)
         | Some _ \<Rightarrow> (1, c))"

subsection \<open>file_checksum\<close>

lemma fs_next_frame [frame_simps]:
  "fs (snd (fs_next c)) = fs c" "cwd (snd (fs_next c)) = cwd c" "rx (snd (fs_next c)) = rx c"
  "tx (snd (fs_next c)) = tx c" "tx_plan (snd (fs_next c)) = tx_plan c"
  "errno (snd (fs_next c)) = errno c"
  by (simp_all add: fs_next_def split: list.split)

lemma fs_read_some:
  assumes "fs_read p off n c = (Some bs, c')"
  shows "fs c' = fs c" "\<exists>all k. lookup (fs c) p = Some (NFile all) \<and> bs = take k (drop off all)"
    "file_bytes c' p = file_bytes c p" "bs \<noteq> [] \<Longrightarrow> off < length (file_bytes c p)"
proof -
  obtain ev c1 where n: "fs_next c = (ev, c1)" by fastforce
  then have f: "fs c1 = fs c" using fs_next_frame(1) [of c] by simp
  show "fs c' = fs c" "\<exists>all k. lookup (fs c) p = Some (NFile all) \<and> bs = take k (drop off all)"
    using assms n f by (auto simp: fs_read_def split: fs_event.splits option.splits node.splits)
  then show "file_bytes c' p = file_bytes c p" "bs \<noteq> [] \<Longrightarrow> off < length (file_bytes c p)"
    by (auto simp: file_bytes_def)
qed

text \<open>
  The read loop. The count is a size_t, so a failed read counts as a huge number of bytes and the
  digest runs over the end of the buffer: a fault.
\<close>

function read_all ::
  "string list \<Rightarrow> nat \<Rightarrow> byte list \<Rightarrow> 'a io_scheme \<Rightarrow> (byte list \<times> 'a io_scheme) option" where
  "read_all p off acc c = (case fs_read p off CHUNK_SIZE c of
     (None, c1) \<Rightarrow> None
   | (Some bs, c1) \<Rightarrow>
       if bs = [] then Some (acc, c1) else read_all p (off + length bs) (acc @ bs) c1)"
  by pat_completeness auto
termination
proof (relation "measure (\<lambda>(p, off, acc, c). length (file_bytes c p) - off)", goal_cases)
  case (2 p off acc c x c1 r)
  then have "fs_read p off CHUNK_SIZE c = (Some r, c1)" by simp
  with 2 fs_read_some(3,4) [OF this] show ?case by (cases r) auto
qed simp

declare read_all.simps [simp del]

text \<open>
  EVP_MD_CTX_new can fail as a scripted outcome. On success the digest is that of the bytes read.
\<close>

definition file_checksum ::
  "(byte list \<Rightarrow> byte list) \<Rightarrow> string \<Rightarrow> 'a io_scheme \<Rightarrow> (int \<times> byte list option \<times> 'a io_scheme) option" where
  "file_checksum sha filename c = (case open_rd filename c of
     (None, c) \<Rightarrow> Some (-1, None, c)
   | (Some p, c) \<Rightarrow> (case fs_next c of
        (FsErr e, c) \<Rightarrow> Some (-1, None, c)
      | (_, c) \<Rightarrow> do { (bs, c) \<leftarrow> read_all p 0 [] c; Some (0, Some (sha bs), c) }))"

subsection \<open>create_directories_from_path\<close>

text \<open>The loop over the directories path_next_dir yields.\<close>

partial_function (option) mkdir_loop ::
  "next_dir_state \<Rightarrow> 'a io_scheme \<Rightarrow> (int \<times> 'a io_scheme) option" where
  [code]: "mkdir_loop st c = do {
     (dir, st) \<leftarrow> path_next_dir None 0 st;
     case dir of None \<Rightarrow> Some (0, c)
     | Some d \<Rightarrow>
         (let (ret, c) = fs_mkdir d c
          in if ret < 0 \<and> errno c \<noteq> EEXIST then Some (-3, c) else mkdir_loop st c)
   }"

definition create_directories_from_path ::
  "next_dir_state \<Rightarrow> bool \<Rightarrow> string \<Rightarrow> string \<Rightarrow> 'a io_scheme \<Rightarrow> (int \<times> 'a io_scheme) option" where
  "create_directories_from_path statics malloc_ok root_dir user_path c = do {
     let abs_path = snprintf_str PATH_MAX (root_dir @ ''/'' @ user_path);
     path \<leftarrow> normalize_path malloc_ok (Some abs_path);
     case path of None \<Rightarrow> Some (-1, c)
     | Some path \<Rightarrow>
         if \<not> strncmp_eq root_dir path (length root_dir) then Some (-2, c)
         else do {
           (dir, st) \<leftarrow> path_next_dir (Some path) (int (length root_dir) - 1) statics;
           mkdir_loop st c
         }
   }"

subsection \<open>rm_r\<close>

text \<open>
  The recursion takes fuel, one unit for each level of directories; None is out of fuel. The
  results of the inner calls are ignored. The path of an entry is cut at PATH_MAX - 1 characters.
  The code never closes the directory streams; that descriptors run out is an outcome of opendir.
\<close>

fun rm_r :: "nat \<Rightarrow> string option \<Rightarrow> 'a io_scheme \<Rightarrow> (int \<times> 'a io_scheme) option"
and rm_entries :: "nat \<Rightarrow> string \<Rightarrow> (string \<times> node) list \<Rightarrow> 'a io_scheme \<Rightarrow> 'a io_scheme option" where
  "rm_r 0 path c = None"
| "rm_r (Suc n) path c =
     (case path of None \<Rightarrow> Some (-1, c)
      | Some path \<Rightarrow> (case lstat path c of
          (None, c) \<Rightarrow> Some (-1, c)
        | (Some (NDir es), c) \<Rightarrow> (case opendir path c of
            (None, c) \<Rightarrow> Some (-1, c)
          | (Some entries, c) \<Rightarrow> do {
              c \<leftarrow> rm_entries n path entries c;
              let (ret, c) = fs_rmdir path c;
              if ret < 0 then Some (-1, c) else Some (0, c)
            })
        | (Some _, c) \<Rightarrow> Some (fs_unlink path c)))"
| "rm_entries n path [] c = Some c"
| "rm_entries n path ((d_name, _) # entries) c =
     (if d_name = ''.'' \<or> d_name = ''..'' then rm_entries n path entries c
      else do {
        let filepath = snprintf_str PATH_MAX (path @ ''/'' @ d_name);
        (_, c) \<leftarrow> rm_r n (Some filepath) c;
        rm_entries n path entries c
      })"

section \<open>Changing one place of the tree\<close>

lemma map_of_set_entry: "map_of (set_entry x n es) = (map_of es)(x \<mapsto> n)"
  by (induction es) auto

lemma map_of_drop_entry: "map_of (filter (\<lambda>e. fst e \<noteq> x) es) = (map_of es)(x := None)"
  by (induction es) (auto simp: fun_eq_iff)

text \<open>place: a file or directory can be at p, since its parent is a directory.\<close>

definition place :: "node \<Rightarrow> string list \<Rightarrow> bool" where
  "place r p \<longleftrightarrow> p \<noteq> [] \<and> (\<exists>es. lookup r (butlast p) = Some (NDir es))"

lemma place_Cons:
  "place r (x # xs) \<longleftrightarrow> (\<exists>es. r = NDir es \<and>
     (xs = [] \<or> (\<exists>n. map_of es x = Some n \<and> place n xs)))"
  by (cases r) (auto simp: place_def split: option.splits)

lemma lookup_put_same: "place r p \<Longrightarrow> lookup (put_node r p (Some n)) p = Some n"
proof (induction p arbitrary: r)
  case Nil
  then show ?case by (simp add: place_def)
next
  case (Cons x xs)
  from Cons.prems obtain es where r: "r = NDir es" and
    xs: "xs = [] \<or> (\<exists>n. map_of es x = Some n \<and> place n xs)" using place_Cons by blast
  show ?case
  proof (cases "xs = []")
    case False
    with xs obtain m where "map_of es x = Some m" "place m xs" by blast
    with Cons.IH False r show ?thesis by (simp add: map_of_set_entry)
  qed (simp add: r map_of_set_entry)
qed

lemma lookup_put_other:
  "\<not> prefix p q \<Longrightarrow> \<not> prefix q p \<Longrightarrow> lookup (put_node r p v) q = lookup r q"
proof (induction r p v arbitrary: q rule: put_node.induct)
  case (2 es x xs v)
  then obtain y ys where q: "q = y # ys" by (cases q) auto
  show ?case
  proof (cases "xs = []")
    case True
    with 2 q show ?thesis
      by (auto simp: map_of_set_entry map_of_drop_entry split: option.splits)
  next
    case False
    with 2 q show ?thesis
      by (cases "map_of es x") (auto simp: map_of_set_entry split: option.splits)
  qed
qed auto

lemma lookup_put_above:
  "place r p \<Longrightarrow> strict_prefix q p \<Longrightarrow> \<exists>es. lookup (put_node r p (Some n)) q = Some (NDir es)"
proof (induction p arbitrary: r q)
  case Nil
  then show ?case by simp
next
  case (Cons x xs)
  from Cons.prems obtain es where r: "r = NDir es" and
    xs: "xs = [] \<or> (\<exists>n. map_of es x = Some n \<and> place n xs)" using place_Cons by blast
  show ?case
  proof (cases q)
    case (Cons y q')
    with Cons.prems have q: "q = x # q'" "strict_prefix q' xs" by auto
    then have "xs \<noteq> []" by auto
    with xs obtain m where "map_of es x = Some m" "place m xs" by blast
    with Cons.IH q r \<open>xs \<noteq> []\<close> show ?thesis by (simp add: map_of_set_entry)
  qed (use xs r in auto)
qed

lemma place_above: "place r p \<Longrightarrow> strict_prefix q p \<Longrightarrow> \<exists>es. lookup r q = Some (NDir es)"
proof (induction p arbitrary: r q)
  case Nil
  then show ?case by simp
next
  case (Cons x xs)
  from Cons.prems obtain es where r: "r = NDir es" and
    xs: "xs = [] \<or> (\<exists>n. map_of es x = Some n \<and> place n xs)" using place_Cons by blast
  show ?case
  proof (cases q)
    case (Cons y q')
    with Cons.prems have q: "q = x # q'" "strict_prefix q' xs" by auto
    then have "xs \<noteq> []" by auto
    with xs obtain m where "map_of es x = Some m" "place m xs" by blast
    with Cons.IH q r show ?thesis by simp
  qed (simp add: r)
qed

lemma place_put: "place r p \<Longrightarrow> place (put_node r p (Some n)) p"
  using lookup_put_above [of r p "butlast p" n]
  by (cases p rule: rev_cases) (auto simp: place_def strict_prefix_def)

lemma lookup_place: "lookup r p = Some n \<Longrightarrow> p \<noteq> [] \<Longrightarrow> place r p"
proof (induction p arbitrary: r)
  case Nil
  then show ?case by simp
next
  case (Cons x xs)
  then show ?case by (cases r; cases xs) (auto simp: place_Cons split: option.splits)
qed

lemma lookup_butlast: "lookup r p = Some (NDir es) \<Longrightarrow> lookup r (butlast p) \<noteq> None"
  using lookup_place [of r p] by (cases "p = []") (auto simp: place_def)

lemma walk_place:
  "walk r cur ss = Inr p \<Longrightarrow> lookup r p = None \<Longrightarrow> ss \<noteq> [] \<or> lookup r cur \<noteq> None \<Longrightarrow> place r p"
proof (induction r cur ss rule: walk.induct)
  case (1 r cur)
  then show ?case by auto
next
  case (2 r cur s ss)
  then obtain es where es: "lookup r cur = Some (NDir es)"
    by (auto split: option.splits node.splits)
  show ?case
  proof (cases "s = ''.'' \<or> s = ''..''")
    case True
    with 2 es lookup_butlast [OF es] show ?thesis by (auto split: if_splits)
  next
    case False
    with 2(4) es have w: "walk r (cur @ [s]) ss = Inr p" by auto
    show ?thesis
    proof (cases ss)
      case Nil
      with w es show ?thesis by (auto simp: place_def)
    next
      case Cons
      with 2(3) [OF es refl] False w 2(5) show ?thesis by auto
    qed
  qed
qed

text \<open>Which files there are, and what is in them, apart from p.\<close>

definition same_files :: "string list \<Rightarrow> node \<Rightarrow> node \<Rightarrow> bool" where
  "same_files p r r' \<longleftrightarrow>
     (\<forall>q bs. q \<noteq> p \<longrightarrow> (lookup r q = Some (NFile bs) \<longleftrightarrow> lookup r' q = Some (NFile bs)))"

lemma same_files_refl [simp]: "same_files p r r"
  by (simp add: same_files_def)

lemma same_files_trans: "same_files p a b \<Longrightarrow> same_files p b c \<Longrightarrow> same_files p a c"
  by (simp add: same_files_def)

lemma lookup_below_file: "lookup r p = Some (NFile bs) \<Longrightarrow> strict_prefix p q \<Longrightarrow> lookup r q = None"
proof (induction p arbitrary: r q)
  case Nil
  then show ?case by (cases q) auto
next
  case (Cons x xs)
  then show ?case by (cases q; cases r) (auto split: option.splits)
qed

lemma lookup_below_none: "lookup r p = None \<Longrightarrow> prefix p q \<Longrightarrow> lookup r q = None"
proof (induction p arbitrary: r q)
  case Nil
  then show ?case by simp
next
  case (Cons x xs)
  then show ?case by (cases q; cases r) (auto split: option.splits)
qed

lemma same_files_put:
  assumes "place r p" "lookup r p = None \<or> (\<exists>bs. lookup r p = Some (NFile bs))"
  shows "same_files p r (put_node r p (Some (NFile new)))"
  unfolding same_files_def
proof (intro allI impI)
  fix q bs assume q: "q \<noteq> p"
  let ?r = "put_node r p (Some (NFile new))"
  consider "\<not> prefix p q" "\<not> prefix q p" | "strict_prefix p q" | "strict_prefix q p"
    using q by (auto simp: strict_prefix_def)
  then show "lookup r q = Some (NFile bs) \<longleftrightarrow> lookup ?r q = Some (NFile bs)"
  proof cases
    case 1
    then show ?thesis using lookup_put_other by metis
  next
    case 2
    have "lookup r q = None"
      using assms(2) lookup_below_file [OF _ 2] lookup_below_none [of r p q] 2 by auto
    moreover have "lookup ?r q = None"
      by (rule lookup_below_file [OF lookup_put_same [OF assms(1)] 2])
    ultimately show ?thesis by simp
  next
    case 3
    then show ?thesis
      using place_above [OF assms(1) 3] lookup_put_above [OF assms(1) 3, of "NFile new"] by auto
  qed
qed

section \<open>Opening a file for writing\<close>

lemma path_comps_nonempty: "path \<noteq> [] \<Longrightarrow> path_comps path \<noteq> []"
proof -
  assume p: "path \<noteq> []"
  have "segments path \<noteq> []" if "last path \<noteq> CHR ''/''" using p that
  proof (induction path rule: segments.induct)
    case (2 c cs)
    then show ?case by (cases cs) (auto split: if_splits)
  qed simp
  then show ?thesis by (auto simp: path_comps_def)
qed

lemma resolve_place: "resolve c path = Inr p \<Longrightarrow> lookup (fs c) p = None \<Longrightarrow> place (fs c) p"
  by (auto simp: resolve_def path_comps_nonempty split: if_splits intro: walk_place)

text \<open>open for writing either fails or has a file behind it, and touches no other file.\<close>

lemma open_wr_any:
  assumes opened: "open_wr path c = (Some fd, c')" and root: "fs c = NDir es0"
  shows "resolve c path = Inr fd \<and> fd \<noteq> [] \<and> same_files fd (fs c) (fs c') \<and>
    (\<exists>bs. lookup (fs c') fd = Some (NFile bs))"
proof -
  obtain ev c1 where n: "fs_next c = (ev, c1)" by fastforce
  then have f: "fs c1 = fs c" "cwd c1 = cwd c" using fs_next_frame(1,2) [of c] by simp_all
  then have res: "resolve c1 path = resolve c path" by (simp add: resolve_def)
  have path: "resolve c path = Inr fd"
    using opened n res by (auto simp: open_wr_def at_path_def split: fs_event.splits sum.splits option.splits node.splits)
  then have "at_path path c = (Inr fd, c1)"
    using opened n res by (auto simp: open_wr_def at_path_def split: fs_event.splits)
  then consider (new) "lookup (fs c) fd = None" "c' = c1\<lparr>fs := put_node (fs c) fd (Some (NFile []))\<rparr>"
    | (old) bs where "lookup (fs c) fd = Some (NFile bs)" "c' = c1"
    using opened f(1) by (auto simp: open_wr_def split: option.splits node.splits)
  then show ?thesis
  proof cases
    case new
    have pl: "place (fs c) fd" by (rule resolve_place [OF path new(1)])
    then have "fd \<noteq> []" by (simp add: place_def)
    with path new lookup_put_same [OF pl] same_files_put [OF pl] show ?thesis by simp
  next
    case old
    then have "fd \<noteq> []" using root by auto
    with path old f(1) show ?thesis by simp
  qed
qed

section \<open>Quiet file systems\<close>

lemma fs_next_quiet: "fs_plan c = [] \<Longrightarrow> fs_next c = (FsOk, c)"
  by (simp add: fs_next_def)

lemma same_more:
  assumes "conn.more c' = conn.more (c :: 'a io_scheme)"
  shows "fs c' = fs c" "cwd c' = cwd c" "fs_plan c' = fs_plan c"
  using assms by (cases c; cases c'; simp)+

lemma fs_read_quiet:
  "fs_plan c = [] \<Longrightarrow> lookup (fs c) p = Some (NFile bs) \<Longrightarrow>
   fs_read p off n c = (Some (take n (drop off bs)), c)"
  by (simp add: fs_read_def fs_next_quiet)

lemma fs_write_quiet:
  assumes "fs_plan c = []" "lookup (fs c) p = Some (NFile old)" "p \<noteq> []" "new \<noteq> []"
  shows "\<exists>c'. fs_write p off new c = (Some (length new), c') \<and>
    lookup (fs c') p = Some (NFile (overwrite old off new)) \<and> same_files p (fs c) (fs c') \<and>
    fs_plan c' = [] \<and> rx c' = rx c \<and> tx c' = tx c \<and> tx_plan c' = tx_plan c"
proof -
  have pl: "place (fs c) p" by (rule lookup_place [OF assms(2,3)])
  have "file_bytes c p = old" using assms(2) by (simp add: file_bytes_def)
  then show ?thesis
    using assms lookup_put_same [OF pl] same_files_put [OF pl]
    by (simp add: fs_write_def fs_next_quiet)
qed

lemma overwrite_append:
  "overwrite (overwrite old off x) (off + length x) y = overwrite old off (x @ y)"
proof -
  have "length (take off old @ replicate (off - length old) 0) = off" by simp
  then show ?thesis by (simp add: overwrite_def ac_simps)
qed

lemma overwrite_0: "overwrite old 0 new = new @ drop (length new) old"
  by (simp add: overwrite_def)

lemma overwrite_at: "off \<le> length old \<Longrightarrow> overwrite old off new = take off old @ new @ drop (off + length new) old"
  by (simp add: overwrite_def)

end
