(* ===== verification/FileXfer.thy ===== *)
theory FileXfer
  imports FileInfo Fs
begin

text \<open>
  File transfer: src/file.c and src/file.h. The sender reads the file in chunks of 4096 bytes and
  sends each one until the receiver acknowledges it; the receiver checks each chunk, answers, and
  writes it. Printing is left out, and so is the progress callback, which only prints. None is
  a bad memory access. Conversions to float are rounded as IEEE 754 single precision.
\<close>

section \<open>The number of chunks of a file\<close>

fun bit_len :: "nat \<Rightarrow> nat" where
  "bit_len n = (if n = 0 then 0 else Suc (bit_len (n div 2)))"

declare bit_len.simps [simp del]

text \<open>
  (float)n, which is an integer again: 24 significant bits, rounded to the nearest, ties to even.
\<close>

definition float_of_size :: "nat \<Rightarrow> nat" where
  "float_of_size n =
     (let e = bit_len n - 24; q = n div 2 ^ e; r = n mod 2 ^ e
      in (if 2 * r > 2 ^ e \<or> (2 * r = 2 ^ e \<and> odd q) then q + 1 else q) * 2 ^ e)"

text \<open>ceil((float)s.st_size / CHUNK_SIZE): dividing a float by 4096 is exact.\<close>

definition chunk_count_of :: "nat \<Rightarrow> nat" where
  "chunk_count_of n = (float_of_size n + (CHUNK_SIZE - 1)) div CHUNK_SIZE"

section \<open>fileinfo_from_filename\<close>

definition fileinfo_from_filename ::
  "(byte list \<Rightarrow> byte list) \<Rightarrow> string \<Rightarrow> FileInfo \<Rightarrow> 'a io_scheme \<Rightarrow>
   (int \<times> FileInfo \<times> 'a io_scheme) option" where
  "fileinfo_from_filename sha filename out c = (case lstat filename c of
     (None, c) \<Rightarrow> Some (-1, out, c)
   | (Some (NFile bs), c) \<Rightarrow> do {
       out \<leftarrow> set_filename filename out;
       let out = out\<lparr>fi_size := of_nat (length bs)\<rparr>;
       let out = out\<lparr>fi_chunk_count := of_nat (chunk_count_of (length bs))\<rparr>;
       (ret, chk, c) \<leftarrow> file_checksum sha filename c;
       if ret = -1 then Some (-3, out, c)
       else do { chk \<leftarrow> chk; Some (0, out\<lparr>fi_checksum := chk\<rparr>, c) }
     }
   | (Some _, c) \<Rightarrow> Some (-2, out, c))"

text \<open>A local FileInfo before anything is stored in it.\<close>

definition uninit_info :: "'a io_scheme \<Rightarrow> FileInfo \<times> 'a io_scheme" where
  "uninit_info c = (let (bs, c) = uninit FileInfo_size c in (dec_info bs, c))"

section \<open>file_send\<close>

record FileSendStats =
  last_chunk_sent :: usize
  send_error_code :: int

lemma msg_recv_consumes:
  assumes "msg_recv maxlen m c = Some (ret, m', c')" "0 \<le> ret"
  shows "length (incoming c') < length (incoming c)"
proof -
  from assms obtain r1 got h c1 where
    a: "recv_all MessageHdr_size c = Some (r1, got, c1)" "0 \<le> r1" and
    h: "recv_hdr (hdr m) c = Some (r1, h, c1)"
    by (auto simp: msg_recv_def recv_hdr_def Let_def bind_eq_Some_conv split: if_splits)
  note d = recv_all_data [OF a(1)]
  have len: "length (incoming c1) + 48 = length (incoming c)"
    using d a(2) by (auto simp: MessageHdr_size_def)
  have "length (incoming c') \<le> length (incoming c1)"
  proof (cases "0 < hdr_length h \<and> \<not> maxlen < hdr_length h")
    case False
    with assms a(2) h show ?thesis
      by (auto simp: msg_recv_def clock_gettime_def Let_def split: if_splits)
  next
    case True
    let ?n = "unat (hdr_length h)"
    obtain mem c2 where u: "uninit ?n c1 = (mem, c2)" by fastforce
    then have c2: "rx c2 = rx c1" using uninit_frame [where n = ?n and c = c1] by auto
    from assms(1) True a(2) h u obtain r3 got3 c3 where
      "recv_all ?n c2 = Some (r3, got3, c3)" "rx c' = rx c3"
      by (auto simp: msg_recv_def Let_def clock_gettime_def bind_eq_Some_conv split: if_splits)
    with recv_all_data [of ?n c2 r3 got3 c3] c2 show ?thesis by auto
  qed
  with len show ?thesis by simp
qed

lemma chunk_recv_consumes:
  assumes "chunk_recv sha ck c = Some (ret, ck', c')" "ret \<noteq> -1" "ret \<noteq> -2"
  shows "length (incoming c') < length (incoming c)"
  using chunk_recv_data [OF assms(1)] assms(2,3) by (auto simp: MessageHdr_size_def)

text \<open>
  The inner loop: send the chunk and wait for a message, until it is a CHUNK_OK. The result is 0,
  or the error code of the transfer.
\<close>

function send_until_ok :: "Chunk \<Rightarrow> Message \<Rightarrow> 'a conn_scheme \<Rightarrow> (int \<times> Message \<times> 'a conn_scheme) option" where
  "send_until_ok chunk msg c =
     (if hdr_type (hdr msg) = type_code MSGTYPE_CHUNK_OK then Some (0, msg, c)
      else case chunk_send chunk c of
        None \<Rightarrow> None
      | Some (res, c1) \<Rightarrow>
          if res < 0 then Some (-5, msg, c1)
          else case msg_recv 0 msg c1 of
            None \<Rightarrow> None
          | Some (res, msg1, c2) \<Rightarrow>
              if res < 0 then Some (-6, msg1, c2) else send_until_ok chunk msg1 c2)"
  by pat_completeness auto
termination
proof (relation "measure (\<lambda>(chunk, msg, c). length (incoming c))", goal_cases)
  case (2 chunk msg c x r c1 y r2 z msg1 c2)
  then have "tx_step c c1" "length (incoming c2) < length (incoming c1)"
    using chunk_send_step [of chunk c r c1] msg_recv_consumes [of 0 msg c1 r2 msg1 c2] by auto
  then show ?case by (simp add: tx_step_def)
qed simp

declare send_until_ok.simps [simp del]

text \<open>lseek to an absolute offset, an off_t: a negative one is refused.\<close>

definition lseek_set :: "usize \<Rightarrow> nat option" where
  "lseek_set off = (if sint off < 0 then None else Some (unat off))"

text \<open>The outer loop: off is the offset of the descriptor, start and seq the variables.\<close>

function send_chunks ::
  "(byte list \<Rightarrow> byte list) \<Rightarrow> string list \<Rightarrow> FileInfo \<Rightarrow> nat \<Rightarrow> usize \<Rightarrow> usize \<Rightarrow> 'a io_scheme \<Rightarrow>
   (FileSendStats \<times> 'a io_scheme) option" where
  "send_chunks sha fd info off start seq c =
     (if seq < fi_chunk_count info
      then case fs_read fd off CHUNK_SIZE c of
        (None, c) \<Rightarrow> Some (\<lparr>last_chunk_sent = seq + 1, send_error_code = -1\<rparr>, c)
      | (Some buf, c) \<Rightarrow>
          if buf = [] then Some (\<lparr>last_chunk_sent = seq + 1, send_error_code = -1\<rparr>, c)
          else let nbytes = of_nat (length buf); end_byte = start + nbytes - 1;
                   h = \<lparr>ch_seq = seq, ch_start_byte = start, ch_end_byte = end_byte,
                        ch_length = nbytes, ch_checksum = replicate 32 0\<rparr>
               in case chunk_init sha h buf of
                 None \<Rightarrow> None
               | Some chunk \<Rightarrow> (case send_until_ok chunk zero_msg c of
                   None \<Rightarrow> None
                 | Some (res, msg, c) \<Rightarrow>
                     if res < 0 then Some (\<lparr>last_chunk_sent = seq - 1, send_error_code = res\<rparr>, c)
                     else send_chunks sha fd info (off + length buf) (start + nbytes) (seq + 1) c)
      else Some (\<lparr>last_chunk_sent = seq, send_error_code = 0\<rparr>, c))"
  by pat_completeness auto
termination
proof (relation "measure (\<lambda>(sha, fd, info, off, start, seq, c). unat (fi_chunk_count info) - unat seq)",
    goal_cases)
  case (2 sha fd info off start seq c)
  then have lt: "seq < fi_chunk_count info" by simp
  then have "unat (seq + 1) = unat seq + 1"
    using unsigned_less [where 'a = nat, of "fi_chunk_count info"]
    by (simp add: unat_word_ariths word_less_nat_alt)
  with lt show ?case by (simp add: word_less_nat_alt)
qed simp

declare send_chunks.simps [simp del]

definition file_send ::
  "(byte list \<Rightarrow> byte list) \<Rightarrow> string \<Rightarrow> usize \<Rightarrow> 'a io_scheme \<Rightarrow> (FileSendStats \<times> 'a io_scheme) option" where
  "file_send sha filename start_chunk c = do {
     let (info, c) = uninit_info c;
     (res, info, c) \<leftarrow> fileinfo_from_filename sha filename info c;
     if res = -1 then Some (\<lparr>last_chunk_sent = 0, send_error_code = -1\<rparr>, c)
     else case open_rd filename c of
       (None, c) \<Rightarrow> Some (\<lparr>last_chunk_sent = 0, send_error_code = -1\<rparr>, c)
     | (Some fd, c) \<Rightarrow>
         if 0 < start_chunk
         then send_chunks sha fd info (case lseek_set (start_chunk * of_nat CHUNK_SIZE) of None \<Rightarrow> 0 | Some pos \<Rightarrow> pos)
                (start_chunk * of_nat CHUNK_SIZE) start_chunk c
         else send_chunks sha fd info 0 0 0 c
   }"

section \<open>file_recv\<close>

record FileRecvStats =
  last_chunk_recvd :: usize
  recv_error_code :: int

text \<open>Sending an answer without payload, as file_recv does: the message keeps its unset fields.\<close>

definition send_answer :: "MessageType \<Rightarrow> Message \<Rightarrow> 'a conn_scheme \<Rightarrow> (int \<times> Message \<times> 'a conn_scheme) option" where
  "send_answer t msg c = msg_send (msg_init msg t None 0) None 0 c"

text \<open>
  One iteration after chunk_recv returned: Inl ends the transfer with its result, Inr goes on with
  a new sequence number, offset and message. keep_chunk acknowledges the chunk and writes it; the
  result of write is ignored, but write moves the offset.
\<close>

definition keep_chunk ::
  "string list \<Rightarrow> Chunk \<Rightarrow> Message \<Rightarrow> usize \<Rightarrow> nat \<Rightarrow> 'a io_scheme \<Rightarrow>
   ((FileRecvStats + usize \<times> nat \<times> Message) \<times> 'a io_scheme) option" where
  "keep_chunk fd chunk msg seq off c = do {
     (res, msg, c) \<leftarrow> send_answer MSGTYPE_CHUNK_OK msg c;
     if res < 0 then Some (Inl \<lparr>last_chunk_recvd = seq, recv_error_code = res\<rparr>, c)
     else do {
       data \<leftarrow> ck_data chunk;
       let len = unat (ch_length (ck_hdr chunk));
       assert_that (len \<le> length data);
       let (written, c) = fs_write fd off (take len data) c;
       Some (Inr (seq + 1, off + (case written of None \<Rightarrow> 0 | Some k \<Rightarrow> k), msg), c)
     }
   }"

definition recv_chunk_step ::
  "string list \<Rightarrow> int \<Rightarrow> Chunk \<Rightarrow> Message \<Rightarrow> usize \<Rightarrow> nat \<Rightarrow> 'a io_scheme \<Rightarrow>
   ((FileRecvStats + usize \<times> nat \<times> Message) \<times> 'a io_scheme) option" where
  "recv_chunk_step fd nbytes chunk msg seq off c =
     (if nbytes = -3
      then do {
        (res, msg, c) \<leftarrow> send_answer MSGTYPE_CHUNK_AGAIN msg c;
        if res < 0 then Some (Inl \<lparr>last_chunk_recvd = seq, recv_error_code = res\<rparr>, c)
        else Some (Inr (seq, off, msg), c)
      }
      else if nbytes < 0 then Some (Inl \<lparr>last_chunk_recvd = seq, recv_error_code = nbytes\<rparr>, c)
      else let resume = (seq = 0 \<and> 0 < ch_seq (ck_hdr chunk));
               seq = (if resume then ch_seq (ck_hdr chunk) else seq)
           in case (if resume then lseek_set (seq * of_nat CHUNK_SIZE) else Some off) of
             None \<Rightarrow> Some (Inl \<lparr>last_chunk_recvd = seq, recv_error_code = -3\<rparr>, c)
           | Some off \<Rightarrow>
               if seq \<noteq> ch_seq (ck_hdr chunk)
               then Some (Inl \<lparr>last_chunk_recvd = seq, recv_error_code = -4\<rparr>, c)
               else keep_chunk fd chunk msg seq off c)"

text \<open>Going on means that chunk_recv had a whole message, and no step reads any more.\<close>

lemma fs_write_frame [frame_simps]:
  "rx (snd (fs_write p off new c)) = rx c" "tx (snd (fs_write p off new c)) = tx c"
  "tx_plan (snd (fs_write p off new c)) = tx_plan c"
  using fs_next_frame [of c]
  by (auto simp: fs_write_def fail_with_def Let_def split: prod.split fs_event.split)

lemma msg_send_step:
  assumes "msg_send m ph n c = Some (ret, m', c')"
  shows "tx_step c c'"
proof -
  let ?c0 = "c\<lparr>clock := \<lambda>i. clock c (Suc i)\<rparr>" and ?h = "sent_hdr m ph n (clock c 0)"
  have c0: "tx_step c ?c0" by (simp add: tx_step_def)
  from assms obtain r1 c1 where s1: "send_all (Some (enc_hdr ?h)) MessageHdr_size ?c0 = Some (r1, c1)"
    by (auto simp: msg_send_def clock_gettime_def Let_def bind_eq_Some_conv)
  from send_all_data [OF s1] have t1: "tx_step c c1" using c0 tx_step_trans by blast
  show ?thesis
  proof (cases "r1 < 0")
    case True
    with assms s1 t1 show ?thesis by (auto simp: msg_send_def clock_gettime_def)
  next
    case r1: False
    with assms s1 obtain r2 c2 where s2: "send_opt ph n c1 = Some (r2, c2)"
      by (auto simp: msg_send_def clock_gettime_def Let_def bind_eq_Some_conv)
    from send_opt_data [OF s2] have t2: "tx_step c c2" using t1 tx_step_trans by blast
    show ?thesis
    proof (cases "r2 < 0")
      case True
      with assms s1 s2 r1 t2 show ?thesis by (auto simp: msg_send_def clock_gettime_def)
    next
      case False
      with assms s1 s2 r1 obtain r3 where "send_opt (payload m) (payload_len m) c2 = Some (r3, c')"
        by (auto simp: msg_send_def clock_gettime_def Let_def bind_eq_Some_conv split: if_splits)
      from send_opt_data [OF this] show ?thesis using t2 tx_step_trans by blast
    qed
  qed
qed

lemma send_answer_step: "send_answer t m c = Some (ret, m', c') \<Longrightarrow> tx_step c c'"
  unfolding send_answer_def by (rule msg_send_step)

lemma keep_chunk_rx:
  assumes "keep_chunk fd chunk msg seq off c = Some (Inr next, c')"
  shows "rx c' = rx c"
proof -
  from assms obtain res msg1 c1 where a: "send_answer MSGTYPE_CHUNK_OK msg c = Some (res, msg1, c1)"
    by (auto simp: keep_chunk_def bind_eq_Some_conv)
  then have "rx c1 = rx c" by (auto simp: tx_step_def dest: send_answer_step)
  moreover from assms a obtain data where
    "c' = snd (fs_write fd off (take (unat (ch_length (ck_hdr chunk))) data) c1)"
    by (auto simp: keep_chunk_def Let_def bind_eq_Some_conv split_beta split: if_splits)
  ultimately show ?thesis by (simp add: frame_simps)
qed

lemma recv_step_more:
  assumes "recv_chunk_step fd nbytes chunk msg seq off c = Some (Inr next, c')"
  shows "rx c' = rx c" "nbytes \<noteq> -1" "nbytes \<noteq> -2"
proof -
  show "rx c' = rx c"
  proof (cases "nbytes = -3")
    case True
    with assms obtain res msg1 where "send_answer MSGTYPE_CHUNK_AGAIN msg c = Some (res, msg1, c')"
      by (auto simp: recv_chunk_step_def bind_eq_Some_conv split: if_splits)
    then show ?thesis by (auto simp: tx_step_def dest: send_answer_step)
  next
    case False
    with assms obtain s o1 where "keep_chunk fd chunk msg s o1 c = Some (Inr next, c')"
      by (auto simp: recv_chunk_step_def Let_def split: if_splits option.splits)
    then show ?thesis by (rule keep_chunk_rx)
  qed
  show "nbytes \<noteq> -1" "nbytes \<noteq> -2"
    using assms by (auto simp: recv_chunk_step_def)
qed

function recv_chunks ::
  "(byte list \<Rightarrow> byte list) \<Rightarrow> string list \<Rightarrow> FileInfo \<Rightarrow> Chunk \<Rightarrow> Message \<Rightarrow> usize \<Rightarrow> nat \<Rightarrow> 'a io_scheme \<Rightarrow>
   (FileRecvStats \<times> 'a io_scheme) option" where
  "recv_chunks sha fd info chunk msg seq off c =
     (if seq < fi_chunk_count info
      then case chunk_recv sha chunk c of
        None \<Rightarrow> None
      | Some (nbytes, chunk, c) \<Rightarrow> (case recv_chunk_step fd nbytes chunk msg seq off c of
            None \<Rightarrow> None
          | Some (Inl stats, c) \<Rightarrow> Some (stats, c)
          | Some (Inr (seq, off, msg), c) \<Rightarrow> recv_chunks sha fd info chunk msg seq off c)
      else Some (\<lparr>last_chunk_recvd = seq, recv_error_code = 0\<rparr>, c))"
  by pat_completeness auto
termination
proof (relation "measure (\<lambda>(sha, fd, info, chunk, msg, seq, off, c). length (incoming c))", goal_cases)
  case (2 sha fd info chunk msg seq off c x nbytes r chunk1 c1 y z c2 w seq1 v off1 msg1)
  then show ?case
    using recv_step_more [of fd nbytes chunk1 msg seq off c1 "(seq1, off1, msg1)" c2]
      chunk_recv_consumes [of sha chunk c nbytes chunk1 c1] by auto
qed simp

declare recv_chunks.simps [simp del]

text \<open>file_recv opens the file whose name is in info, a C string.\<close>

definition file_recv ::
  "(byte list \<Rightarrow> byte list) \<Rightarrow> FileInfo \<Rightarrow> 'a io_scheme \<Rightarrow> (FileRecvStats \<times> 'a io_scheme) option" where
  "file_recv sha info c = do {
     filename \<leftarrow> info_name info;
     case open_wr filename c of
       (None, c) \<Rightarrow> Some (\<lparr>last_chunk_recvd = 0, recv_error_code = -1\<rparr>, c)
     | (Some fd, c) \<Rightarrow>
         recv_chunks sha fd info \<lparr>ck_hdr = dec_chdr (replicate 64 0), ck_data = None\<rparr> zero_msg 0 0 c
   }"

section \<open>The number of chunks\<close>

lemma bit_len_bounds: "n < 2 ^ bit_len n \<and> (0 < n \<longrightarrow> 2 ^ bit_len n \<le> 2 * n)"
proof (induction n rule: bit_len.induct)
  case (1 n)
  show ?case
  proof (cases "n = 0")
    case True
    then show ?thesis by (simp add: bit_len.simps)
  next
    case False
    with 1 have ih: "n div 2 < 2 ^ bit_len (n div 2)" "0 < n div 2 \<longrightarrow> 2 ^ bit_len (n div 2) \<le> 2 * (n div 2)"
      by auto
    have b: "bit_len n = Suc (bit_len (n div 2))" using False by (subst bit_len.simps) simp
    show ?thesis
    proof (cases "n div 2 = 0")
      case True
      with False have "n = 1" by auto
      then show ?thesis by (simp add: b bit_len.simps)
    next
      case False
      with ih b show ?thesis by auto
    qed
  qed
qed

lemma bit_len_le: "n < 2 ^ k \<Longrightarrow> bit_len n \<le> k"
proof (rule ccontr)
  assume n: "n < 2 ^ k" and "\<not> bit_len n \<le> k"
  then have "0 < n" by (cases "n = 0") (auto simp: bit_len.simps)
  then have "(2::nat) ^ bit_len n \<le> 2 * n" using bit_len_bounds [of n] by simp
  moreover have "(2::nat) ^ Suc k \<le> 2 ^ bit_len n"
    using \<open>\<not> bit_len n \<le> k\<close> by (intro power_increasing) auto
  ultimately show False using n by simp
qed

lemma bit_len_power: "bit_len (2 ^ k) = Suc k"
  by (induction k) (simp_all add: bit_len.simps)

lemma float_of_size_exact: "n \<le> 2 ^ 24 \<Longrightarrow> float_of_size n = n"
proof -
  assume n: "n \<le> 2 ^ 24"
  show ?thesis
  proof (cases "n = 2 ^ 24")
    case True
    moreover have "bit_len (2 ^ 24) = 25" by (simp only: bit_len_power)
    ultimately show ?thesis by (simp add: float_of_size_def)
  next
    case False
    with n have "bit_len n \<le> 24" by (intro bit_len_le) simp
    then show ?thesis by (simp add: float_of_size_def)
  qed
qed

text \<open>Rounding moves a size by at most half a unit in the last place.\<close>

lemma float_of_size_near:
  fixes n :: nat
  defines "P \<equiv> 2 ^ (bit_len n - 24)"
  shows "P dvd float_of_size n" "2 * n \<le> 2 * float_of_size n + P" "float_of_size n < n + P"
proof -
  obtain q r where qr: "q = n div P" "r = n mod P" by blast
  have P: "0 < P" by (simp add: P_def)
  have n: "n = q * P + r" "r < P" using qr P by simp_all
  have f: "float_of_size n = (if P < 2 * r \<or> (2 * r = P \<and> odd q) then q + 1 else q) * P"
    by (simp add: float_of_size_def Let_def qr P_def)
  show "P dvd float_of_size n" by (simp add: f)
  show "2 * n \<le> 2 * float_of_size n + P"
    unfolding f using n by (auto simp: algebra_simps)
  show "float_of_size n < n + P" unfolding f using n P by (auto simp: algebra_simps)
qed

text \<open>
  For files of less than 64 GB the count is never more than the number of pieces of the file, and
  the pieces it covers leave out at most 2 kB.
\<close>

definition pieces :: "nat \<Rightarrow> nat" where
  "pieces n = (n + 4095) div 4096"

lemma chunk_count_exact: "n \<le> 2 ^ 24 \<Longrightarrow> chunk_count_of n = pieces n"
  by (simp add: chunk_count_of_def float_of_size_exact pieces_def CHUNK_SIZE_def)

lemma chunk_count_le:
  assumes "n < 2 ^ 36"
  shows "chunk_count_of n \<le> pieces n" "n \<le> 4096 * chunk_count_of n + 2048"
proof -
  define P :: nat where "P = 2 ^ (bit_len n - 24)"
  let ?f = "float_of_size n" and ?m = "pieces n"
  note near = float_of_size_near [of n, folded P_def]
  have "bit_len n - 24 \<le> 12" using bit_len_le [OF assms] by simp
  then have P: "P dvd 2 ^ 12" "P \<le> 2 ^ 12"
    unfolding P_def by (rule le_imp_power_dvd, intro power_increasing) simp_all
  then obtain k where k: "4096 = P * k" by (auto simp: dvd_def)
  from near(1) obtain j where j: "?f = P * j" by (auto simp: dvd_def)
  have "n \<le> 4096 * ?m" by (simp add: pieces_def)
  then have "P * j < P * (k * ?m + 1)" using near(3) j by (simp add: k algebra_simps)
  then have "j < k * ?m + 1" by (simp only: nat_mult_less_cancel_disj)
  then have "j \<le> k * ?m" by simp
  then have "?f \<le> 4096 * ?m" by (simp add: j k)
  then show "chunk_count_of n \<le> ?m" by (simp add: chunk_count_of_def CHUNK_SIZE_def)
  have "?f \<le> 4096 * chunk_count_of n" unfolding chunk_count_of_def CHUNK_SIZE_def by simp
  then show "n \<le> 4096 * chunk_count_of n + 2048" using near(2) P(2) by simp
qed

lemma chunk_count_16M: "chunk_count_of (2 ^ 24 + 1) = 4096"
proof -
  have "bit_len (2 ^ 24 + 1) \<le> 25" by (rule bit_len_le) simp
  moreover have "\<not> bit_len (2 ^ 24 + 1) \<le> 24"
  proof
    assume "bit_len (2 ^ 24 + 1) \<le> 24"
    then have "(2::nat) ^ bit_len (2 ^ 24 + 1) \<le> 2 ^ 24" by (intro power_increasing) simp_all
    then show False using bit_len_bounds [of "2 ^ 24 + 1"] by simp
  qed
  ultimately have "bit_len (2 ^ 24 + 1) = 25" by simp
  then show ?thesis by (simp add: chunk_count_of_def float_of_size_def CHUNK_SIZE_def Let_def)
qed

section \<open>A file as a stream of chunks\<close>

definition piece :: "byte list \<Rightarrow> nat \<Rightarrow> byte list" where
  "piece data k = take 4096 (drop (4096 * k) data)"

definition chunk_at :: "(byte list \<Rightarrow> byte list) \<Rightarrow> byte list \<Rightarrow> nat \<Rightarrow> Chunk" where
  "chunk_at sha data k =
     \<lparr>ck_hdr = \<lparr>ch_seq = of_nat k, ch_start_byte = of_nat (4096 * k),
               ch_end_byte = of_nat (4096 * k) + of_nat (length (piece data k)) - 1,
               ch_length = of_nat (length (piece data k)), ch_checksum = sha (piece data k)\<rparr>,
      ck_data = Some (piece data k)\<rparr>"

text \<open>n chunks from number k on, and n acknowledgements, as bytes on the wire.\<close>

fun chunk_stream :: "(byte list \<Rightarrow> byte list) \<Rightarrow> byte list \<Rightarrow> nat \<Rightarrow> nat \<Rightarrow> byte list \<Rightarrow> bool" where
  "chunk_stream sha data k 0 w \<longleftrightarrow> w = []"
| "chunk_stream sha data k (Suc n) w \<longleftrightarrow>
     (\<exists>f w'. w = f @ w' \<and> chunk_frame (chunk_at sha data k) f \<and> chunk_stream sha data (Suc k) n w')"

definition answer_hdr :: "MessageType \<Rightarrow> MessageHdr \<Rightarrow> bool" where
  "answer_hdr t h \<longleftrightarrow> wf_hdr h \<and> hdr_type h = type_code t \<and> hdr_length h = 0"

fun ack_stream :: "nat \<Rightarrow> byte list \<Rightarrow> bool" where
  "ack_stream 0 w \<longleftrightarrow> w = []"
| "ack_stream (Suc n) w \<longleftrightarrow>
     (\<exists>h w'. w = enc_hdr h @ w' \<and> answer_hdr MSGTYPE_CHUNK_OK h \<and> ack_stream n w')"

lemma length_piece: "4096 * k < length data \<Longrightarrow> 0 < length (piece data k) \<and> length (piece data k) \<le> 4096"
  by (simp add: piece_def)

text \<open>A quiet end of a connection: data and signals only, sends that go through, no disk error.\<close>

definition quiet :: "'a io_scheme \<Rightarrow> bool" where
  "quiet c \<longleftrightarrow> rx_quiet (rx c) \<and> tx_quiet (tx_plan c) \<and> fs_plan c = []"

lemma quiet_rx_step: "quiet c \<Longrightarrow> rx_step c c' \<Longrightarrow> rx_quiet (rx c') \<Longrightarrow> quiet c'"
  using same_more(3) [of c' c] by (simp add: quiet_def rx_step_def)

lemma quiet_tx_step: "quiet c \<Longrightarrow> tx_step c c' \<Longrightarrow> tx_quiet (tx_plan c') \<Longrightarrow> quiet c'"
  using same_more(3) [of c' c] by (simp add: quiet_def tx_step_def)

lemma rx_step_fs: "rx_step c c' \<Longrightarrow> fs (c' :: 'a io_scheme) = fs c"
  using same_more(1) [of c' c] by (simp add: rx_step_def)

lemma tx_step_fs: "tx_step c c' \<Longrightarrow> fs (c' :: 'a io_scheme) = fs c"
  using same_more(1) [of c' c] by (simp add: tx_step_def)

section \<open>Receiving\<close>

lemma send_answer_quiet:
  assumes "wf_hdr (hdr msg)" "tx_quiet (tx_plan c)"
  shows "\<exists>h msg' c'. send_answer t msg c = Some (0, msg', c') \<and> hdr msg' = h \<and> answer_hdr t h \<and>
    tx c' = tx c @ enc_hdr h \<and> tx_step c c' \<and> tx_quiet (tx_plan c')"
proof -
  let ?m = "msg_init msg t None 0"
  have "wf_hdr (hdr ?m)" "sendable None 0" "sendable (payload ?m) (payload_len ?m)"
    using assms(1) by (simp_all add: sendable_def) (simp add: msg_init_def)
  from msg_send_quiet [OF this(1) assms(2) this(2,3)] obtain c' where
    r: "msg_send ?m None 0 c = Some (0, ?m\<lparr>hdr := sent_hdr ?m None 0 (clock c 0)\<rparr>, c')"
      "tx c' = tx c @ wire_image ?m None 0 (clock c 0)" "tx_step c c'" "tx_quiet (tx_plan c')" by blast
  have "answer_hdr t (sent_hdr ?m None 0 (clock c 0))"
    using assms(1) by (simp add: answer_hdr_def sent_hdr_def msg_init_def wf_hdr_def)
  moreover have "wire_image ?m None 0 (clock c 0) = enc_hdr (sent_hdr ?m None 0 (clock c 0))"
    by (simp add: wire_image_def opt_bytes_def msg_init_def)
  ultimately show ?thesis using r by (simp add: send_answer_def)
qed

text \<open>chunk_recv on the frame of a chunk whose digest is right.\<close>

lemma chunk_recv_frame:
  assumes sha: "\<And>b. length (sha b) = 32" and k: "4096 * k < length data"
    and q: "rx_quiet (rx c)" and fr: "chunk_frame (chunk_at sha data k) w" "incoming c = w @ rest"
  shows "\<exists>c'. chunk_recv sha old c = Some (int (length (piece data k)), chunk_at sha data k, c') \<and>
    incoming c' = rest \<and> rx_step c c' \<and> rx_quiet (rx c')"
proof -
  let ?ck = "chunk_at sha data k" and ?d = "piece data k"
  note len = length_piece [OF k]
  have n: "unat (ch_length (ck_hdr ?ck)) = length ?d"
    using len by (simp add: chunk_at_def unat_of_nat)
  from fr(1) obtain h where h: "wf_hdr h"
    "hdr_length h = ch_length (ck_hdr ?ck) + of_nat ChunkHdr_size" "w = enc_hdr h @ enc_chdr (ck_hdr ?ck) @ ?d"
    using n by (auto simp: chunk_frame_def) (simp add: chunk_at_def)
  have wf: "wf_chdr (ck_hdr ?ck)" using sha by (simp add: chunk_at_def wf_chdr_def)
  let ?pl = "enc_chdr (ck_hdr ?ck) @ ?d"
  have enc: "length (enc_chdr (ck_hdr ?ck)) = 64"
    using ch.length_enc [OF wf] by (simp add: ChunkHdr_size_def)
  have "unat (hdr_length h) = length ?d + 64"
    using h(2) len n by (simp add: unat_word_ariths ChunkHdr_size_def)
  then have pl: "length ?pl = unat (hdr_length h)" "64 \<le> length ?pl" "length ?pl \<le> 4160"
    using enc len by auto
  have front: "dec_chdr (take 64 ?pl) = ck_hdr ?ck" "drop 64 ?pl = ?d" "length ?pl - 64 = length ?d"
    using enc ch.dec_enc [OF wf] by simp_all
  have m: "checksums_match (sha ?d) (ch_checksum (ck_hdr ?ck))"
    using checksums_match_iff [of "sha ?d" "sha ?d"] sha by (simp add: chunk_at_def)
  have inc: "incoming c = enc_hdr h @ ?pl @ rest" using fr(2) h(3) by simp
  have data: "\<lparr>ck_hdr = ck_hdr ?ck, ck_data = Some ?d\<rparr> = ?ck" by (simp add: chunk_at_def)
  from chunk_recv_quiet [OF q inc h(1) pl, of sha old] obtain c' where
    c': "incoming c' = rest" "rx_step c c'" "rx_quiet (rx c')" and
    r: "chunk_recv sha old c =
      (let ck' = ?ck; n = unat (ch_length (ck_hdr ck'))
       in if length ?d < n then None
          else if checksums_match (sha (take n ?d)) (ch_checksum (ck_hdr ck'))
          then Some (int (length ?d), ck', c') else Some (-3, ck', c'))"
    unfolding front data by blast
  from r n m have "chunk_recv sha old c = Some (int (length ?d), ?ck, c')"
    by (simp only: Let_def less_irrefl if_False if_True take_all order_refl)
  with c' show ?thesis by blast
qed

lemma lseek_set_small: "m < 2 ^ 63 \<Longrightarrow> lseek_set (of_nat m) = Some m"
proof -
  assume m: "m < 2 ^ 63"
  then have "int m < 2 ^ 63" by simp
  then have "sint (of_nat m :: usize) = int m"
    by (simp add: signed_of_nat signed_take_bit_int_eq_self)
  with m show ?thesis by (simp add: lseek_set_def unat_of_nat)
qed

lemma keep_chunk_quiet:
  assumes q: "quiet c" "wf_hdr (hdr msg)" and k: "4096 * k < length data"
    and fl: "lookup (fs c) fd = Some (NFile old)" "fd \<noteq> []"
  shows "\<exists>msg' h c'. keep_chunk fd (chunk_at sha data k) msg seq off c =
      Some (Inr (seq + 1, off + length (piece data k), msg'), c') \<and>
    wf_hdr (hdr msg') \<and> answer_hdr MSGTYPE_CHUNK_OK h \<and> tx c' = tx c @ enc_hdr h \<and> rx c' = rx c \<and>
    quiet c' \<and> lookup (fs c') fd = Some (NFile (overwrite old off (piece data k))) \<and>
    same_files fd (fs c) (fs c')"
proof -
  let ?d = "piece data k"
  note len = length_piece [OF k]
  have tq: "tx_quiet (tx_plan c)" using q(1) by (simp add: quiet_def)
  from send_answer_quiet [OF q(2) tq, of MSGTYPE_CHUNK_OK] obtain h msg1 c1 where
    a: "send_answer MSGTYPE_CHUNK_OK msg c = Some (0, msg1, c1)" "hdr msg1 = h" "answer_hdr MSGTYPE_CHUNK_OK h"
      "tx c1 = tx c @ enc_hdr h" "tx_step c c1" "tx_quiet (tx_plan c1)" by blast
  have q1: "quiet c1" by (rule quiet_tx_step [OF q(1) a(5,6)])
  then have plan: "fs_plan c1 = []" by (simp add: quiet_def)
  have f1: "lookup (fs c1) fd = Some (NFile old)" using fl(1) tx_step_fs [OF a(5)] by simp
  have ne: "?d \<noteq> []" using len by auto
  from fs_write_quiet [OF plan f1 fl(2) ne, of off] obtain c2 where
    w: "fs_write fd off ?d c1 = (Some (length ?d), c2)"
      "lookup (fs c2) fd = Some (NFile (overwrite old off ?d))" "same_files fd (fs c1) (fs c2)"
      "fs_plan c2 = []" "rx c2 = rx c1" "tx c2 = tx c1" "tx_plan c2 = tx_plan c1" by blast
  have n: "unat (ch_length (ck_hdr (chunk_at sha data k))) = length ?d" "ck_data (chunk_at sha data k) = Some ?d"
    using len by (simp_all add: chunk_at_def unat_of_nat)
  have "keep_chunk fd (chunk_at sha data k) msg seq off c = Some (Inr (seq + 1, off + length ?d, msg1), c2)"
    using a(1) n w(1) by (simp add: keep_chunk_def)
  moreover have "quiet c2" using q1 w by (simp add: quiet_def)
  moreover have "wf_hdr (hdr msg1)" using a(2,3) by (simp add: answer_hdr_def)
  ultimately show ?thesis
    using a(3,4,5) w tx_step_fs [OF a(5)] by (auto simp: tx_step_def)
qed

lemma recv_chunks_piece:
  assumes sha: "\<And>b. length (sha b) = 32" and q: "quiet c" "wf_hdr (hdr msg)" and k: "4096 * k < length data"
    and fl: "lookup (fs c) fd = Some (NFile old)" "fd \<noteq> []"
    and count: "seq < fi_chunk_count info" and small: "4096 * k < 2 ^ 63"
    and pos: "seq = of_nat k \<and> off = 4096 * k \<or> seq = 0 \<and> 0 < k"
    and w: "chunk_frame (chunk_at sha data k) w" "incoming c = w @ rest"
  shows "\<exists>msg' h c'. recv_chunks sha fd info chunk msg seq off c =
      recv_chunks sha fd info (chunk_at sha data k) msg' (of_nat k + 1) (4096 * k + length (piece data k)) c' \<and>
    wf_hdr (hdr msg') \<and> answer_hdr MSGTYPE_CHUNK_OK h \<and> tx c' = tx c @ enc_hdr h \<and> incoming c' = rest \<and>
    quiet c' \<and> lookup (fs c') fd = Some (NFile (overwrite old (4096 * k) (piece data k))) \<and>
    same_files fd (fs c) (fs c')"
proof -
  let ?ck = "chunk_at sha data k" and ?d = "piece data k"
  have rq: "rx_quiet (rx c)" using q(1) by (simp add: quiet_def)
  from chunk_recv_frame [OF sha k rq w, of chunk] obtain c1 where
    r: "chunk_recv sha chunk c = Some (int (length ?d), ?ck, c1)" "incoming c1 = rest" "rx_step c c1"
      "rx_quiet (rx c1)" by blast
  have q1: "quiet c1" by (rule quiet_rx_step [OF q(1) r(3,4)])
  have f1: "lookup (fs c1) fd = Some (NFile old)" using fl(1) rx_step_fs [OF r(3)] by simp
  from keep_chunk_quiet [OF q1 q(2) k f1 fl(2), of sha "of_nat k" "4096 * k"] obtain msg1 h c2 where
    a: "keep_chunk fd ?ck msg (of_nat k) (4096 * k) c1 =
        Some (Inr (of_nat k + 1, 4096 * k + length ?d, msg1), c2)"
      "wf_hdr (hdr msg1)" "answer_hdr MSGTYPE_CHUNK_OK h" "tx c2 = tx c1 @ enc_hdr h" "rx c2 = rx c1"
      "quiet c2" "lookup (fs c2) fd = Some (NFile (overwrite old (4096 * k) ?d))"
      "same_files fd (fs c1) (fs c2)" by blast
  have seqk: "ch_seq (ck_hdr ?ck) = of_nat k" by (simp add: chunk_at_def)
  have off: "of_nat k * of_nat CHUNK_SIZE = (of_nat (4096 * k) :: usize)"
    by (simp add: CHUNK_SIZE_def)
  have knz: "(0::usize) < of_nat k" if "0 < k"
    using that small by (simp add: word_less_nat_alt unat_of_nat)
  have "recv_chunk_step fd (int (length ?d)) ?ck msg seq off c1 =
      keep_chunk fd ?ck msg (of_nat k) (4096 * k) c1"
    using pos
  proof
    assume p: "seq = of_nat k \<and> off = 4096 * k"
    then have "\<not> (seq = 0 \<and> 0 < ch_seq (ck_hdr ?ck))" by (auto simp: seqk)
    with p show ?thesis by (auto simp: recv_chunk_step_def seqk Let_def)
  next
    assume p: "seq = 0 \<and> 0 < k"
    then have "seq = 0 \<and> 0 < ch_seq (ck_hdr ?ck)" using knz by (simp add: seqk)
    then show ?thesis using lseek_set_small [OF small] by (simp add: recv_chunk_step_def seqk off)
  qed
  with a(1) have step: "recv_chunk_step fd (int (length ?d)) ?ck msg seq off c1 =
      Some (Inr (of_nat k + 1, 4096 * k + length ?d, msg1), c2)" by simp
  have "recv_chunks sha fd info chunk msg seq off c =
      recv_chunks sha fd info ?ck msg1 (of_nat k + 1) (4096 * k + length ?d) c2"
    using count r(1) step by (subst recv_chunks.simps) simp
  moreover have "tx c2 = tx c @ enc_hdr h" using a(4) r(3) by (simp add: rx_step_def)
  moreover have "incoming c2 = rest" using a(5) r(2) by simp
  moreover have "same_files fd (fs c) (fs c2)" using a(8) rx_step_fs [OF r(3)] by simp
  ultimately show ?thesis using a(2,3,6,7) by blast
qed

text \<open>The part of a file that n chunks from number k on carry.\<close>

definition segment :: "byte list \<Rightarrow> nat \<Rightarrow> nat \<Rightarrow> byte list" where
  "segment data k n = take (4096 * n) (drop (4096 * k) data)"

lemma segment_0 [simp]: "segment data k 0 = []"
  by (simp add: segment_def)

lemma segment_Suc: "segment data k (Suc n) = piece data k @ segment data (Suc k) n"
proof -
  have "take (4096 * Suc n) xs = take 4096 xs @ take (4096 * n) (drop 4096 xs)" for xs :: "byte list"
    by (metis mult_Suc_right take_add)
  then show ?thesis by (simp add: segment_def piece_def add.commute)
qed

lemma overwrite_nil: "off \<le> length old \<Longrightarrow> overwrite old off [] = old"
  by (simp add: overwrite_def)

lemma length_overwrite_le: "off + length new \<le> length (overwrite old off new)"
  by (simp add: overwrite_def)

lemma recv_chunks_stream:
  assumes sha: "\<And>b. length (sha b) = 32" and fd: "fd \<noteq> []"
    and count: "k + n = unat (fi_chunk_count info)" and small: "4096 * (k + n) < 2 ^ 63"
  shows "quiet c \<Longrightarrow> wf_hdr (hdr msg) \<Longrightarrow> n = 0 \<or> 4096 * (k + n - 1) < length data \<Longrightarrow>
    lookup (fs c) fd = Some (NFile old) \<Longrightarrow>
    seq = of_nat k \<and> (n = 0 \<or> off = 4096 * k) \<or> seq = 0 \<and> 0 < k \<and> 0 < n \<Longrightarrow>
    chunk_stream sha data k n w \<Longrightarrow> incoming c = w @ rest \<Longrightarrow>
    \<exists>c' acks. recv_chunks sha fd info chunk msg seq off c =
        Some (\<lparr>last_chunk_recvd = fi_chunk_count info, recv_error_code = 0\<rparr>, c') \<and>
      tx c' = tx c @ acks \<and> ack_stream n acks \<and> incoming c' = rest \<and> quiet c' \<and>
      same_files fd (fs c) (fs c') \<and>
      lookup (fs c') fd = Some (NFile (if n = 0 then old else overwrite old (4096 * k) (segment data k n)))"
  using count small
proof (induction n arbitrary: k c msg seq off w old chunk)
  case 0
  then have "seq = fi_chunk_count info" by auto
  with 0 show ?case by (subst recv_chunks.simps) auto
next
  case (Suc n)
  from Suc.prems(6) obtain f w' where w: "w = f @ w'" "chunk_frame (chunk_at sha data k) f"
    "chunk_stream sha data (Suc k) n w'" by auto
  have k: "4096 * k < length data" using Suc.prems(3) by auto
  have cnt: "seq < fi_chunk_count info"
  proof -
    have "unat seq \<le> k" using Suc.prems(5,9) by (auto simp: unat_of_nat)
    then show ?thesis using Suc.prems(8) by (simp add: word_less_nat_alt)
  qed
  have pos: "seq = of_nat k \<and> off = 4096 * k \<or> seq = 0 \<and> 0 < k" using Suc.prems(5) by auto
  have small: "4096 * k < 2 ^ 63" using Suc.prems(9) by simp
  have inc: "incoming c = f @ (w' @ rest)" using Suc.prems(7) w(1) by simp
  from recv_chunks_piece [OF sha Suc.prems(1,2) k Suc.prems(4) fd cnt small pos w(2) inc, of chunk]
  obtain msg1 h c1 where
    r: "recv_chunks sha fd info chunk msg seq off c =
        recv_chunks sha fd info (chunk_at sha data k) msg1 (of_nat k + 1) (4096 * k + length (piece data k)) c1"
      "wf_hdr (hdr msg1)" "answer_hdr MSGTYPE_CHUNK_OK h" "tx c1 = tx c @ enc_hdr h" "incoming c1 = w' @ rest"
      "quiet c1" "lookup (fs c1) fd = Some (NFile (overwrite old (4096 * k) (piece data k)))"
      "same_files fd (fs c) (fs c1)" by blast
  have last: "n = 0 \<or> 4096 * (Suc k + n - 1) < length data" using Suc.prems(3) by auto
  have full: "length (piece data k) = 4096" if "n \<noteq> 0"
    using that Suc.prems(3) by (auto simp: piece_def)
  have pos1: "(of_nat k + 1 :: usize) = of_nat (Suc k) \<and> (n = 0 \<or> 4096 * k + length (piece data k) = 4096 * Suc k) \<or>
      (of_nat k + 1 :: usize) = 0 \<and> 0 < Suc k \<and> 0 < n" using full by auto
  have cnt1: "Suc k + n = unat (fi_chunk_count info)" "4096 * (Suc k + n) < 2 ^ 63"
    using Suc.prems(8,9) by simp_all
  from Suc.IH [OF r(6,2) last r(7) pos1 w(3) r(5) cnt1] obtain c2 acks where
    t: "recv_chunks sha fd info (chunk_at sha data k) msg1 (of_nat k + 1) (4096 * k + length (piece data k)) c1 =
        Some (\<lparr>last_chunk_recvd = fi_chunk_count info, recv_error_code = 0\<rparr>, c2)"
      "tx c2 = tx c1 @ acks" "ack_stream n acks" "incoming c2 = rest" "quiet c2"
      "same_files fd (fs c1) (fs c2)"
      "lookup (fs c2) fd = Some (NFile (if n = 0 then overwrite old (4096 * k) (piece data k)
         else overwrite (overwrite old (4096 * k) (piece data k)) (4096 * Suc k) (segment data (Suc k) n)))"
    by blast
  have "(if n = 0 then overwrite old (4096 * k) (piece data k)
      else overwrite (overwrite old (4096 * k) (piece data k)) (4096 * Suc k) (segment data (Suc k) n)) =
      overwrite old (4096 * k) (segment data k (Suc n))"
    using full overwrite_append [of old "4096 * k" "piece data k"] by (auto simp: segment_Suc add.commute)
  moreover have "ack_stream (Suc n) (enc_hdr h @ acks)" using r(3) t(3) by auto
  moreover have "same_files fd (fs c) (fs c2)" by (rule same_files_trans [OF r(8) t(6)])
  moreover have "tx c2 = tx c @ enc_hdr h @ acks" using r(4) t(2) by simp
  ultimately show ?case using r(1) t(1,4,5,7)
    by (intro exI [of _ c2] exI [of _ "enc_hdr h @ acks"]) (simp del: ack_stream.simps)
qed

section \<open>Sending\<close>

lemma send_until_ok_quiet:
  assumes sha: "\<And>b. length (sha b) = 32" and k: "4096 * k < length data" and q: "quiet c"
    and m: "wf_hdr (hdr msg)" "hdr_type (hdr msg) \<noteq> type_code MSGTYPE_CHUNK_OK"
    and ack: "answer_hdr MSGTYPE_CHUNK_OK h" "incoming c = enc_hdr h @ rest"
  shows "\<exists>msg' c' w. send_until_ok (chunk_at sha data k) msg c = Some (0, msg', c') \<and>
    tx c' = tx c @ w \<and> chunk_frame (chunk_at sha data k) w \<and> incoming c' = rest \<and> quiet c' \<and> fs c' = fs c"
proof -
  let ?ck = "chunk_at sha data k" and ?d = "piece data k"
  note len = length_piece [OF k]
  have wf: "wf_chdr (ck_hdr ?ck)" "ck_data ?ck = Some ?d" using sha by (simp_all add: chunk_at_def wf_chdr_def)
  have n: "unat (ch_length (ck_hdr ?ck)) = length ?d" using len by (simp add: chunk_at_def unat_of_nat)
  have tq: "tx_quiet (tx_plan c)" using q by (simp add: quiet_def)
  from chunk_send_quiet [OF tq wf] n len obtain w c1 where
    s: "chunk_send ?ck c = Some (int (length ?d), c1)" "tx c1 = tx c @ w" "chunk_frame ?ck w"
      "tx_step c c1" "tx_quiet (tx_plan c1)" by auto
  have q1: "quiet c1" by (rule quiet_tx_step [OF q s(4,5)])
  have h: "wf_hdr h" "hdr_length h = 0" "hdr_type h = type_code MSGTYPE_CHUNK_OK"
    using ack(1) by (simp_all add: answer_hdr_def)
  have rq: "rx_quiet (rx c1)" using q1 by (simp add: quiet_def)
  have inc: "incoming c1 = enc_hdr h @ [] @ rest" using ack(2) s(4) by (simp add: tx_step_def)
  from msg_recv_quiet [OF m(1) rq inc h(1), of 0] h(2) obtain c2 t where
    r: "msg_recv 0 msg c1 = Some (0, msg\<lparr>hdr := h, rcvd_at := t, payload := payload msg\<rparr>, c2)"
      "incoming c2 = rest" "rx_step c1 c2" "rx_quiet (rx c2)" by auto
  let ?m1 = "msg\<lparr>hdr := h, rcvd_at := t, payload := payload msg\<rparr>"
  have "send_until_ok ?ck ?m1 c2 = Some (0, ?m1, c2)"
    using h(3) by (subst send_until_ok.simps) simp
  with m(2) s(1) r(1) have "send_until_ok ?ck msg c = Some (0, ?m1, c2)"
    by (subst send_until_ok.simps) simp
  moreover have "quiet c2" by (rule quiet_rx_step [OF q1 r(3,4)])
  moreover have "fs c2 = fs c" using tx_step_fs [OF s(4)] rx_step_fs [OF r(3)] by simp
  moreover have "tx c2 = tx c @ w" using s(2) r(3) by (simp add: rx_step_def)
  ultimately show ?thesis using s(3) r(2) by blast
qed

lemma send_chunks_stream:
  assumes sha: "\<And>b. length (sha b) = 32"
    and count: "k + n = unat (fi_chunk_count info)" and small: "4096 * (k + n) < 2 ^ 63"
  shows "quiet c \<Longrightarrow> n = 0 \<or> 4096 * (k + n - 1) < length data \<Longrightarrow> lookup (fs c) fd = Some (NFile data) \<Longrightarrow>
    n = 0 \<or> off = 4096 * k \<and> start = of_nat (4096 * k) \<Longrightarrow> ack_stream n acks \<Longrightarrow> incoming c = acks @ rest \<Longrightarrow>
    \<exists>c' w. send_chunks sha fd info off start (of_nat k) c =
        Some (\<lparr>last_chunk_sent = fi_chunk_count info, send_error_code = 0\<rparr>, c') \<and>
      tx c' = tx c @ w \<and> chunk_stream sha data k n w \<and> incoming c' = rest \<and> quiet c' \<and> fs c' = fs c"
  using count small
proof (induction n arbitrary: k c off start acks)
  case 0
  then have "of_nat k = fi_chunk_count info" by auto
  with 0 show ?case by (subst send_chunks.simps) auto
next
  case (Suc n)
  from Suc.prems(5) obtain h a' where a: "acks = enc_hdr h @ a'" "answer_hdr MSGTYPE_CHUNK_OK h" "ack_stream n a'"
    by auto
  have k: "4096 * k < length data" using Suc.prems(2) by auto
  note len = length_piece [OF k]
  have pos: "off = 4096 * k" "start = of_nat (4096 * k)" using Suc.prems(4) by auto
  have plan: "fs_plan c = []" using Suc.prems(1) by (simp add: quiet_def)
  have rd: "fs_read fd off CHUNK_SIZE c = (Some (piece data k), c)"
    using fs_read_quiet [OF plan Suc.prems(3)] by (simp add: pos piece_def CHUNK_SIZE_def)
  have ne: "piece data k \<noteq> []" using len by auto
  have init: "chunk_init sha \<lparr>ch_seq = of_nat k, ch_start_byte = start,
      ch_end_byte = start + of_nat (length (piece data k)) - 1, ch_length = of_nat (length (piece data k)),
      ch_checksum = replicate 32 0\<rparr> (piece data k) = Some (chunk_at sha data k)"
    using len by (simp add: chunk_init_def checksum_def chunk_at_def pos unat_of_nat)
  have "unat (of_nat k :: usize) = k" using Suc.prems(8) by (simp add: unat_of_nat)
  then have lt: "of_nat k < fi_chunk_count info" using Suc.prems(7) by (simp add: word_less_nat_alt)
  have m0: "wf_hdr (hdr zero_msg)" "hdr_type (hdr zero_msg) \<noteq> type_code MSGTYPE_CHUNK_OK"
    by (simp_all add: zero_msg_def) (simp add: zero_hdr_def type_code_def MSGTYPES_def)
  have inc: "incoming c = enc_hdr h @ (a' @ rest)" using Suc.prems(6) a(1) by simp
  from send_until_ok_quiet [where sha = sha, OF sha k Suc.prems(1) m0 a(2) inc] obtain msg1 c1 f where
    s: "send_until_ok (chunk_at sha data k) zero_msg c = Some (0, msg1, c1)" "tx c1 = tx c @ f"
      "chunk_frame (chunk_at sha data k) f" "incoming c1 = a' @ rest" "quiet c1" "fs c1 = fs c" by blast
  have step: "send_chunks sha fd info off start (of_nat k) c =
      send_chunks sha fd info (off + length (piece data k)) (start + of_nat (length (piece data k))) (of_nat (Suc k)) c1"
    using lt rd ne init s(1) by (subst send_chunks.simps) (simp add: Let_def add.commute)
  have last: "n = 0 \<or> 4096 * (Suc k + n - 1) < length data" using Suc.prems(2) by auto
  have "length (piece data k) = 4096" if "n \<noteq> 0"
    using that Suc.prems(2) by (auto simp: piece_def)
  then have pos1: "n = 0 \<or> off + length (piece data k) = 4096 * Suc k \<and>
      start + of_nat (length (piece data k)) = of_nat (4096 * Suc k)" using pos by auto
  have f1: "lookup (fs c1) fd = Some (NFile data)" using Suc.prems(3) s(6) by simp
  have cnt1: "Suc k + n = unat (fi_chunk_count info)" "4096 * (Suc k + n) < 2 ^ 63"
    using Suc.prems(7,8) by simp_all
  from Suc.IH [OF s(5) last f1 pos1 a(3) s(4) cnt1] obtain c2 w where
    t: "send_chunks sha fd info (off + length (piece data k)) (start + of_nat (length (piece data k)))
          (of_nat (Suc k)) c1 = Some (\<lparr>last_chunk_sent = fi_chunk_count info, send_error_code = 0\<rparr>, c2)"
      "tx c2 = tx c1 @ w" "chunk_stream sha data (Suc k) n w" "incoming c2 = rest" "quiet c2" "fs c2 = fs c1"
    by blast
  have "chunk_stream sha data k (Suc n) (f @ w)" using s(3) t(3) by auto
  moreover have "tx c2 = tx c @ f @ w" using s(2) t(2) by simp
  ultimately show ?case using step t(1,4,5,6) s(6)
    by (intro exI [of _ c2] exI [of _ "f @ w"]) (simp del: chunk_stream.simps of_nat_Suc)
qed

section \<open>Whole transfers\<close>

lemma read_all_quiet:
  "fs_plan c = [] \<Longrightarrow> lookup (fs c) fd = Some (NFile data) \<Longrightarrow>
   read_all fd off acc c = Some (acc @ drop off data, c)"
proof (induction fd off acc c rule: read_all.induct)
  case (1 fd off acc c)
  let ?bs = "take CHUNK_SIZE (drop off data)"
  have rd: "fs_read fd off CHUNK_SIZE c = (Some ?bs, c)" using fs_read_quiet 1(2,3) by blast
  show ?case
  proof (cases "?bs = []")
    case True
    then have "drop off data = []" by (simp add: CHUNK_SIZE_def)
    with rd True show ?thesis by (subst read_all.simps) simp
  next
    case False
    have "drop (off + length ?bs) data = drop CHUNK_SIZE (drop off data)"
      by (cases "CHUNK_SIZE \<le> length (drop off data)") (simp_all add: min_def add.commute)
    then have "acc @ drop off data = (acc @ ?bs) @ drop (off + length ?bs) data"
      by (simp only: append.assoc append_take_drop_id)
    moreover have "read_all fd (off + length ?bs) (acc @ ?bs) c =
        Some ((acc @ ?bs) @ drop (off + length ?bs) data, c)"
      by (rule 1(1) [OF rd [symmetric] refl False 1(2,3)])
    ultimately show ?thesis using rd False by (subst read_all.simps) simp
  qed
qed

lemma at_path_quiet: "fs_plan c = [] \<Longrightarrow> at_path path c = (resolve c path, c)"
  by (simp add: at_path_def fs_next_quiet)

lemma resolve_length: "resolve c path = Inr p \<Longrightarrow> length path < PATH_MAX"
  by (auto simp: resolve_def split: if_splits)

lemma fileinfo_quiet:
  assumes sha: "\<And>b. length (sha b) = 32" and plan: "fs_plan c = []" and path: "resolve c filename = Inr fd"
    and fl: "lookup (fs c) fd = Some (NFile data)" and wf: "wf_info out"
  shows "\<exists>info. fileinfo_from_filename sha filename out c = Some (0, info, c) \<and> wf_info info \<and>
    fi_size info = of_nat (length data) \<and> fi_chunk_count info = of_nat (chunk_count_of (length data)) \<and>
    fi_checksum info = sha data \<and> (NUL \<notin> set filename \<longrightarrow> info_name info = Some filename)"
proof -
  have len: "length filename < length (fi_filename out)"
    using resolve_length [OF path] wf by (simp add: wf_info_def)
  then obtain o1 where o1: "set_filename filename out = Some o1" by (simp add: set_filename_def)
  have "file_checksum sha filename c = Some (0, Some (sha data), c)"
    using read_all_quiet [OF plan fl, of 0 "[]"]
    by (simp add: file_checksum_def open_rd_def at_path_quiet [OF plan] path fl fs_next_quiet [OF plan])
  moreover have "lstat filename c = (Some (NFile data), c)"
    by (simp add: lstat_def at_path_quiet [OF plan] path fl)
  moreover have "info_name (o1\<lparr>fi_size := x, fi_chunk_count := y, fi_checksum := z\<rparr>) = info_name o1" for x y z
    by (simp add: info_name_def)
  ultimately show ?thesis
    using o1 wf_set_filename [OF o1 wf] set_filename_name [OF o1] sha
    by (simp add: fileinfo_from_filename_def wf_info_def)
qed

lemma uninit_info_frame:
  "wf_info (fst (uninit_info c))" "fs (snd (uninit_info c)) = fs c" "quiet (snd (uninit_info c)) = quiet c"
  "rx (snd (uninit_info c)) = rx c" "tx (snd (uninit_info c)) = tx c"
  "resolve (snd (uninit_info c)) path = resolve c path"
proof -
  let ?c = "snd (uninit FileInfo_size c)"
  have r: "rx_step c ?c" by (rule uninit_frame)
  have m: "fs ?c = fs c" "cwd ?c = cwd c" "fs_plan ?c = fs_plan c"
    using same_more [of ?c c] r by (simp_all add: rx_step_def)
  have u: "snd (uninit_info c) = ?c" "fst (uninit_info c) = dec_info (fst (uninit FileInfo_size c))"
    by (simp_all add: uninit_info_def split_beta)
  show "wf_info (fst (uninit_info c))" unfolding u by (rule fi.wf_dec) (rule uninit_frame)
  show "fs (snd (uninit_info c)) = fs c" "quiet (snd (uninit_info c)) = quiet c"
    "rx (snd (uninit_info c)) = rx c" "tx (snd (uninit_info c)) = tx c"
    "resolve (snd (uninit_info c)) path = resolve c path"
    using m by (simp_all add: u quiet_def resolve_def frame_simps)
qed

lemma file_send_stream:
  assumes sha: "\<And>b. length (sha b) = 32" and q: "quiet c" and path: "resolve c filename = Inr fd"
    and fl: "lookup (fs c) fd = Some (NFile data)" and size: "length data < 2 ^ 36"
    and s: "s \<le> chunk_count_of (length data)"
    and acks: "ack_stream (chunk_count_of (length data) - s) acks" "incoming c = acks @ rest"
  shows "\<exists>c' w. file_send sha filename (of_nat s) c =
      Some (\<lparr>last_chunk_sent = of_nat (chunk_count_of (length data)), send_error_code = 0\<rparr>, c') \<and>
    tx c' = tx c @ w \<and> chunk_stream sha data s (chunk_count_of (length data) - s) w \<and>
    incoming c' = rest \<and> quiet c' \<and> fs c' = fs c"
proof -
  let ?N = "chunk_count_of (length data)"
  obtain i0 c0 where u: "uninit_info c = (i0, c0)" by fastforce
  have c0: "wf_info i0" "fs c0 = fs c" "quiet c0" "incoming c0 = incoming c" "tx c0 = tx c"
    "resolve c0 filename = Inr fd"
    using uninit_info_frame [of c] u q path by auto
  have plan: "fs_plan c0 = []" using c0(3) by (simp add: quiet_def)
  have fl0: "lookup (fs c0) fd = Some (NFile data)" using fl c0(2) by simp
  from fileinfo_quiet [where sha = sha, OF sha plan c0(6) fl0 c0(1)] obtain info where
    i: "fileinfo_from_filename sha filename i0 c0 = Some (0, info, c0)" "fi_chunk_count info = of_nat ?N" by blast
  have op: "open_rd filename c0 = (Some fd, c0)"
    by (simp add: open_rd_def at_path_quiet [OF plan] c0(6) fl0)
  note cnt = chunk_count_le [OF size]
  have N: "4096 * ?N \<le> 2 ^ 36 + 4096" using cnt(1) size by (simp add: pieces_def)
  then have Nw: "unat (fi_chunk_count info) = ?N" using i(2) by (simp add: unat_of_nat)
  have last: "?N - s = 0 \<or> 4096 * (s + (?N - s) - 1) < length data"
    using s cnt(1) by (auto simp: pieces_def)
  have inc: "incoming c0 = acks @ rest" using acks(2) c0(4) by simp
  have small: "4096 * (s + (?N - s)) < 2 ^ 63" "s + (?N - s) = unat (fi_chunk_count info)"
    using N s Nw by simp_all
  have sm: "of_nat s * of_nat CHUNK_SIZE = (of_nat (4096 * s) :: usize)" "lseek_set (of_nat (4096 * s)) = Some (4096 * s)"
    using N s lseek_set_small [of "4096 * s"] by (simp_all add: CHUNK_SIZE_def)
  have "file_send sha filename (of_nat s) c =
      send_chunks sha fd info (4096 * s) (of_nat (4096 * s)) (of_nat s) c0"
  proof (cases "s = 0")
    case True
    then show ?thesis using u i(1) op by (simp add: file_send_def)
  next
    case False
    then have "(0::usize) < of_nat s" using N s by (simp add: word_less_nat_alt unat_of_nat)
    then show ?thesis using u i(1) op sm by (simp add: file_send_def)
  qed
  with send_chunks_stream [where sha = sha, OF sha small(2,1) c0(3) last fl0 _ acks(1) inc,
      of "4096 * s" "of_nat (4096 * s)"] i(2) c0(2,5)
  show ?thesis by auto
qed

lemma file_recv_stream:
  assumes sha: "\<And>b. length (sha b) = 32" and q: "quiet c" and name: "info_name info = Some filename"
    and path: "resolve c filename = Inr fd"
    and fl: "lookup (fs c) fd = Some (NFile old) \<or> lookup (fs c) fd = None \<and> place (fs c) fd \<and> old = []"
      "fd \<noteq> []"
    and count: "unat (fi_chunk_count info) = N" "4096 * N < 2 ^ 63" "4096 * (N - 1) < length data \<or> N = 0"
    and k: "k = 0 \<or> k < N" and w: "chunk_stream sha data k (N - k) w" "incoming c = w @ rest"
  shows "\<exists>c' acks. file_recv sha info c = Some (\<lparr>last_chunk_recvd = of_nat N, recv_error_code = 0\<rparr>, c') \<and>
    tx c' = tx c @ acks \<and> ack_stream (N - k) acks \<and> incoming c' = rest \<and> quiet c' \<and>
    same_files fd (fs c) (fs c') \<and>
    lookup (fs c') fd = Some (NFile (if N = 0 then old else overwrite old (4096 * k) (segment data k (N - k))))"
proof -
  have plan: "fs_plan c = []" using q by (simp add: quiet_def)
  obtain c1 where c1: "open_wr filename c = (Some fd, c1)" "rx c1 = rx c" "tx c1 = tx c" "quiet c1"
    "lookup (fs c1) fd = Some (NFile old)" "same_files fd (fs c) (fs c1)"
  proof (cases "lookup (fs c) fd")
    case None
    with fl have pl: "place (fs c) fd" "old = []" by auto
    let ?c1 = "c\<lparr>fs := put_node (fs c) fd (Some (NFile []))\<rparr>"
    have "open_wr filename c = (Some fd, ?c1)"
      using None by (simp add: open_wr_def at_path_quiet [OF plan] path)
    then show ?thesis
      using that [of ?c1] q lookup_put_same [OF pl(1), of "NFile []"] same_files_put [OF pl(1), of "[]"] None pl(2)
      by (simp add: quiet_def)
  next
    case (Some n)
    with fl have "n = NFile old" by auto
    with Some show ?thesis using that [of c] q by (simp add: open_wr_def at_path_quiet [OF plan] path)
  qed
  let ?ck = "\<lparr>ck_hdr = dec_chdr (replicate 64 0), ck_data = None\<rparr>"
  have run: "file_recv sha info c = recv_chunks sha fd info ?ck zero_msg 0 0 c1"
    using name c1(1) by (simp add: file_recv_def)
  have wf: "wf_hdr (hdr zero_msg)" by (simp add: zero_msg_def)
  have cnt: "k + (N - k) = unat (fi_chunk_count info)" "4096 * (k + (N - k)) < 2 ^ 63"
    using count k by auto
  have last: "N - k = 0 \<or> 4096 * (k + (N - k) - 1) < length data" using count(3) k by auto
  have pos: "(0::usize) = of_nat k \<and> (N - k = 0 \<or> 0 = 4096 * k) \<or> (0::usize) = 0 \<and> 0 < k \<and> 0 < N - k"
    using k by auto
  have inc: "incoming c1 = w @ rest" using w(2) c1(2) by simp
  from recv_chunks_stream [where sha = sha, OF sha fl(2) cnt c1(4) wf last c1(5) pos w(1) inc, of ?ck]
  obtain c2 acks where r:
    "recv_chunks sha fd info ?ck zero_msg 0 0 c1 =
       Some (\<lparr>last_chunk_recvd = fi_chunk_count info, recv_error_code = 0\<rparr>, c2)"
    "tx c2 = tx c1 @ acks" "ack_stream (N - k) acks" "incoming c2 = rest" "quiet c2" "same_files fd (fs c1) (fs c2)"
    "lookup (fs c2) fd = Some (NFile (if N - k = 0 then old else overwrite old (4096 * k) (segment data k (N - k))))"
    by blast
  have "fi_chunk_count info = of_nat N" using count(1) by auto
  moreover have "N - k = 0 \<longleftrightarrow> N = 0" using k by auto
  ultimately show ?thesis
    using run r c1(3) same_files_trans [OF c1(6) r(6)]
    by (intro exI [of _ c2] exI [of _ acks]) simp
qed

section \<open>Any peer, any kernel\<close>

lemma send_answer_any:
  assumes "wf_hdr (hdr msg)" "send_answer t msg c = Some (res, msg', c')"
  shows "res \<in> {0, -1, -2} \<and> wf_hdr (hdr msg') \<and> tx_step c c'"
  using msg_send_data [of "msg_init msg t None 0" None 0 c res msg' c'] assms
  by (auto simp: send_answer_def)

lemma fs_write_files:
  assumes "lookup (fs c) p = Some (NFile old)" "p \<noteq> []"
  shows "same_files p (fs c) (fs (snd (fs_write p off new c))) \<and>
    (\<exists>bs. lookup (fs (snd (fs_write p off new c))) p = Some (NFile bs))"
proof -
  have pl: "place (fs c) p" by (rule lookup_place [OF assms])
  have f: "fs (snd (fs_next c)) = fs c" by (rule fs_next_frame)
  then show ?thesis
    using assms(1) lookup_put_same [OF pl] same_files_put [OF pl]
    by (auto simp: fs_write_def fail_with_def Let_def split: prod.split fs_event.split)
qed

text \<open>What the iterations of file_recv keep: the answer stays sendable, fd stays a file.\<close>

definition recv_inv :: "string list \<Rightarrow> node \<Rightarrow> Message \<Rightarrow> 'a io_scheme \<Rightarrow> bool" where
  "recv_inv fd r msg c \<longleftrightarrow> fd \<noteq> [] \<and> wf_hdr (hdr msg) \<and> same_files fd r (fs c) \<and>
     (\<exists>bs. lookup (fs c) fd = Some (NFile bs))"

definition step_ok :: "string list \<Rightarrow> node \<Rightarrow> (FileRecvStats + usize \<times> nat \<times> Message) \<times> 'a io_scheme \<Rightarrow> bool" where
  "step_ok fd r = (\<lambda>(next, c). case next of
     Inl st \<Rightarrow> same_files fd r (fs c) \<and> recv_error_code st \<in> {-1, -2, -3, -4}
   | Inr (seq, off, msg) \<Rightarrow> recv_inv fd r msg c)"

lemma keep_chunk_any:
  assumes inv: "recv_inv fd r msg c" and run: "keep_chunk fd chunk msg seq off c = Some res"
  shows "step_ok fd r res"
proof -
  from run obtain r1 msg1 c1 where a: "send_answer MSGTYPE_CHUNK_OK msg c = Some (r1, msg1, c1)"
    by (auto simp: keep_chunk_def bind_eq_Some_conv)
  from send_answer_any [OF _ a] inv have s: "r1 \<in> {0, -1, -2}" "wf_hdr (hdr msg1)" "tx_step c c1"
    by (auto simp: recv_inv_def)
  have fs1: "fs c1 = fs c" by (rule tx_step_fs [OF s(3)])
  show ?thesis
  proof (cases "r1 < 0")
    case True
    then have "res = (Inl \<lparr>last_chunk_recvd = seq, recv_error_code = r1\<rparr>, c1)"
      using run a by (simp add: keep_chunk_def)
    with s(1) True fs1 inv show ?thesis by (auto simp: step_ok_def recv_inv_def)
  next
    case False
    with run a obtain d where w: "res = (Inr (seq + 1, off + (case fst (fs_write fd off d c1) of None \<Rightarrow> 0 | Some k \<Rightarrow> k), msg1),
        snd (fs_write fd off d c1))"
      by (auto simp: keep_chunk_def Let_def bind_eq_Some_conv split_beta)
    from inv fs1 obtain old where "lookup (fs c1) fd = Some (NFile old)" "fd \<noteq> []" "same_files fd r (fs c1)"
      by (auto simp: recv_inv_def)
    with fs_write_files [OF this(1,2), of off d] s(2) w same_files_trans show ?thesis
      by (auto simp: step_ok_def recv_inv_def)
  qed
qed

lemma recv_step_any:
  assumes inv: "recv_inv fd r msg c" and nb: "-4 \<le> nbytes"
    and run: "recv_chunk_step fd nbytes chunk msg seq off c = Some res"
  shows "step_ok fd r res"
proof -
  consider (again) "nbytes = -3" | (err) "nbytes < 0" "nbytes \<noteq> -3" | (ok) "0 \<le> nbytes" by linarith
  then show ?thesis
  proof cases
    case again
    with run obtain r1 msg1 c1 where a: "send_answer MSGTYPE_CHUNK_AGAIN msg c = Some (r1, msg1, c1)"
      by (auto simp: recv_chunk_step_def bind_eq_Some_conv)
    from send_answer_any [OF _ a] inv have s: "r1 \<in> {0, -1, -2}" "wf_hdr (hdr msg1)" "tx_step c c1"
      by (auto simp: recv_inv_def)
    have "fs c1 = fs c" by (rule tx_step_fs [OF s(3)])
    with s again run a inv show ?thesis
      by (auto simp: recv_chunk_step_def step_ok_def recv_inv_def split: if_splits)
  next
    case err
    with nb have "nbytes \<in> {-1, -2, -4}" by auto
    with err run inv show ?thesis by (auto simp: recv_chunk_step_def step_ok_def recv_inv_def)
  next
    case ok
    let ?resume = "seq = 0 \<and> 0 < ch_seq (ck_hdr chunk)"
    let ?seq = "if ?resume then ch_seq (ck_hdr chunk) else seq"
    consider (stop) st where "res = (Inl st, c)" "recv_error_code st \<in> {-3, -4}"
      | (keep) o1 where "keep_chunk fd chunk msg ?seq o1 c = Some res"
      using ok run
      by (auto simp: recv_chunk_step_def Let_def split: option.splits if_splits)
    then show ?thesis
    proof cases
      case stop
      with inv show ?thesis by (auto simp: step_ok_def recv_inv_def)
    next
      case keep
      with keep_chunk_any [OF inv] show ?thesis by blast
    qed
  qed
qed

lemma recv_chunks_any:
  "recv_chunks sha fd info chunk msg seq off c = Some (st, c') \<Longrightarrow> recv_inv fd r msg c \<Longrightarrow>
   same_files fd r (fs c') \<and> recv_error_code st \<in> {0, -1, -2, -3, -4} \<and>
   (recv_error_code st = 0 \<longrightarrow> fi_chunk_count info \<le> last_chunk_recvd st)"
proof (induction sha fd info chunk msg seq off c rule: recv_chunks.induct)
  case (1 sha fd info chunk msg seq off c)
  show ?case
  proof (cases "seq < fi_chunk_count info")
    case False
    with 1(2,3) show ?thesis by (auto simp: recv_chunks.simps recv_inv_def)
  next
    case True
    from 1(2) True obtain nb ck c1 where r: "chunk_recv sha chunk c = Some (nb, ck, c1)"
      by (subst (asm) recv_chunks.simps) (auto split: option.splits)
    from chunk_recv_data [OF r] have d: "rx_step c c1" "-4 \<le> nb" by auto
    have inv: "recv_inv fd r msg c1" using 1(3) rx_step_fs [OF d(1)] by (simp add: recv_inv_def)
    from 1(2) True r obtain nxt c2 where s: "recv_chunk_step fd nb ck msg seq off c1 = Some (nxt, c2)"
      by (subst (asm) recv_chunks.simps) (auto split: option.splits)
    note ok = recv_step_any [OF inv d(2) s]
    show ?thesis
    proof (cases nxt)
      case (Inl st1)
      with 1(2) True r s have "st = st1" "c' = c2"
        by (auto simp: recv_chunks.simps [of sha fd info chunk msg seq off c])
      with ok Inl show ?thesis by (auto simp: step_ok_def)
    next
      case (Inr n)
      obtain seq1 off1 msg1 where n: "n = (seq1, off1, msg1)" by (cases n) auto
      with 1(2) True r s Inr have "recv_chunks sha fd info ck msg1 seq1 off1 c2 = Some (st, c')"
        by (auto simp: recv_chunks.simps [of sha fd info chunk msg seq off c])
      moreover have "recv_inv fd r msg1 c2" using ok Inr n by (simp add: step_ok_def)
      ultimately show ?thesis using 1(1) [OF True r refl refl s] Inr n by blast
    qed
  qed
qed

lemma open_wr_not_dir: "open_wr path c = (Some fd, c') \<Longrightarrow> lookup (fs c) fd \<noteq> Some (NDir ds)"
  using fs_next_frame(1) [of c]
  by (auto simp: open_wr_def at_path_def split: prod.splits fs_event.splits sum.splits option.splits node.splits)

lemma file_recv_any:
  assumes "file_recv sha info c = Some (st, c')" "fs c = NDir es"
  shows "recv_error_code st \<in> {0, -1, -2, -3, -4} \<and>
    (recv_error_code st = 0 \<longrightarrow> fi_chunk_count info \<le> last_chunk_recvd st) \<and>
    (fs c' = fs c \<or> (\<exists>name fd. info_name info = Some name \<and> resolve c name = Inr fd \<and>
       (\<forall>ds. lookup (fs c) fd \<noteq> Some (NDir ds)) \<and> same_files fd (fs c) (fs c')))"
proof -
  from assms(1) obtain name where name: "info_name info = Some name"
    by (auto simp: file_recv_def bind_eq_Some_conv)
  obtain op c1 where o: "open_wr name c = (op, c1)" by fastforce
  show ?thesis
  proof (cases op)
    case None
    have "fs c1 = fs c"
      using o None fs_next_frame(1) [of c]
      by (auto simp: open_wr_def at_path_def fail_with_def split: prod.splits fs_event.splits sum.splits option.splits node.splits)
    with None assms(1) name o show ?thesis by (auto simp: file_recv_def)
  next
    case (Some fd)
    note ow = open_wr_any [OF o [unfolded Some] assms(2)] open_wr_not_dir [OF o [unfolded Some]]
    have inv: "recv_inv fd (fs c) zero_msg c1" using ow by (simp add: recv_inv_def zero_msg_def)
    from assms(1) name o Some have run:
      "recv_chunks sha fd info \<lparr>ck_hdr = dec_chdr (replicate 64 0), ck_data = None\<rparr> zero_msg 0 0 c1 = Some (st, c')"
      by (simp add: file_recv_def)
    from recv_chunks_any [OF run inv] name ow show ?thesis by auto
  qed
qed

text \<open>
  When file_recv returns. A peer that keeps to the sizes sends messages of at most 4160 bytes whose
  chunk, if there is room for a chunk header, announces no more data than the message has; what is
  behind the last of them is no whole header.
\<close>

definition chunk_sized :: "byte list \<Rightarrow> bool" where
  "chunk_sized w \<longleftrightarrow> (\<exists>h pl. w = enc_hdr h @ pl \<and> wf_hdr h \<and> length pl = unat (hdr_length h) \<and> length pl \<le> 4160 \<and>
     (64 \<le> length pl \<longrightarrow> unat (ch_length (dec_chdr (take 64 pl))) \<le> length pl - 64))"

lemma send_answer_total:
  assumes "wf_hdr (hdr msg)"
  shows "\<exists>res msg' c'. send_answer t msg c = Some (res, msg', c')"
proof -
  let ?m = "msg_init msg t None 0"
  have "length (enc_hdr (sent_hdr ?m None 0 n)) = MessageHdr_size" for n
    by (rule mh.length_enc) (use assms in simp)
  then show ?thesis
    by (auto simp: send_answer_def msg_send_def send_all_def send_opt_def clock_gettime_def msg_init_def MessageHdr_size_def
        Let_def split: prod.splits)
qed

lemma recv_step_total:
  assumes msg: "wf_hdr (hdr msg)" and d: "0 \<le> nbytes \<Longrightarrow> \<exists>d. ck_data chunk = Some d \<and> unat (ch_length (ck_hdr chunk)) \<le> length d"
  shows "recv_chunk_step fd nbytes chunk msg seq off c \<noteq> None"
proof -
  have keep: "keep_chunk fd chunk msg sq o1 c \<noteq> None" if "0 \<le> nbytes" for sq o1
    using send_answer_total [OF msg, of MSGTYPE_CHUNK_OK c] d [OF that]
    by (auto simp: keep_chunk_def Let_def assert_that_def split_beta)
  consider "nbytes = -3" | "nbytes < 0" "nbytes \<noteq> -3" | "0 \<le> nbytes" by linarith
  then show ?thesis
  proof cases
    case 1
    then show ?thesis using send_answer_total [OF msg, of MSGTYPE_CHUNK_AGAIN c] by (auto simp: recv_chunk_step_def)
  next
    case 2
    then show ?thesis by (simp add: recv_chunk_step_def)
  next
    case 3
    then have "nbytes \<noteq> -3" "\<not> nbytes < 0" by simp_all
    then show ?thesis using keep [OF 3]
      by (simp add: recv_chunk_step_def Let_def split: option.split del: not_None_eq)
  qed
qed

lemma recv_chunks_returns:
  "recv_inv fd r msg c \<Longrightarrow> rx_quiet (rx c) \<Longrightarrow> incoming c = concat ws @ rest \<Longrightarrow> \<forall>w \<in> set ws. chunk_sized w \<Longrightarrow>
   length rest < 48 \<Longrightarrow> recv_chunks sha fd info chunk msg seq off c \<noteq> None"
proof (induction ws arbitrary: chunk msg seq off c)
  case Nil
  have "wf_hdr (hdr zero_msg)" by (simp add: zero_msg_def)
  from msg_recv_header_data [OF this, of c] obtain r1 m1 c1 bs where
    "msg_recv_header zero_msg c = Some (r1, m1, c1)" "incoming c = bs @ incoming c1" "r1 \<in> {0, -1, -2}"
    "r1 = 0 \<longleftrightarrow> length bs = MessageHdr_size" by blast
  moreover have "length (incoming c) < 48" using Nil.prems(3,5) by simp
  then have "length bs \<noteq> MessageHdr_size" using calculation(2) by (auto simp: MessageHdr_size_def)
  ultimately have "chunk_recv sha chunk c = Some (r1, chunk, c1)" "r1 < 0" "r1 \<noteq> -3" by (auto simp: chunk_recv_def)
  then show ?case by (subst recv_chunks.simps) (simp add: recv_chunk_step_def)
next
  case (Cons w ws)
  from Cons.prems(4) obtain h pl where w: "w = enc_hdr h @ pl" "wf_hdr h" "length pl = unat (hdr_length h)" "length pl \<le> 4160"
    and fits: "64 \<le> length pl \<longrightarrow> unat (ch_length (dec_chdr (take 64 pl))) \<le> length pl - 64"
    by (auto simp: chunk_sized_def)
  have inc: "incoming c = enc_hdr h @ pl @ (concat ws @ rest)" using Cons.prems(3) w(1) by simp
  show ?case
  proof (cases "64 \<le> length pl")
    case False
    have zm: "wf_hdr (hdr zero_msg)" by (simp add: zero_msg_def)
    note front = hdr_front [OF w(2) inc]
    from msg_recv_header_quiet [OF zm Cons.prems(2) front(3), unfolded front(1,2)] obtain c1 ts where
      "msg_recv_header zero_msg c = Some (0, zero_msg\<lparr>hdr := h, rcvd_at := ts\<rparr>, c1)" by blast
    moreover have "hdr_length h < of_nat ChunkHdr_size"
      using False w(3) by (simp add: word_less_nat_alt ChunkHdr_size_def)
    ultimately have "chunk_recv sha chunk c = Some (-4, chunk, c1)" by (simp add: chunk_recv_def)
    then show ?thesis by (subst recv_chunks.simps) (simp add: recv_chunk_step_def)
  next
    case True
    let ?ck = "\<lparr>ck_hdr = dec_chdr (take 64 pl), ck_data = Some (drop 64 pl)\<rparr>"
    have fit: "\<not> length pl - 64 < unat (ch_length (ck_hdr ?ck))" using fits True by simp
    from chunk_recv_quiet [OF Cons.prems(2) inc w(2,3) True w(4), of sha chunk] fit obtain nb c1 where
      c1: "chunk_recv sha chunk c = Some (nb, ?ck, c1)" "-4 \<le> nb" "incoming c1 = concat ws @ rest" "rx_step c c1" "rx_quiet (rx c1)"
      unfolding Let_def by (auto split: if_splits)
    have inv: "recv_inv fd r msg c1" using Cons.prems(1) rx_step_fs [OF c1(4)] by (simp add: recv_inv_def)
    have "recv_chunk_step fd nb ?ck msg seq off c1 \<noteq> None"
      by (rule recv_step_total) (use Cons.prems(1) fits True in \<open>simp_all add: recv_inv_def\<close>)
    then obtain nxt c2 where s: "recv_chunk_step fd nb ?ck msg seq off c1 = Some (nxt, c2)" by fast
    show ?thesis
    proof (cases nxt)
      case (Inl st)
      with s c1(1) show ?thesis by (subst recv_chunks.simps) simp
    next
      case (Inr n)
      obtain seq1 off1 msg1 where n: "n = (seq1, off1, msg1)" by (cases n) auto
      have rx: "rx c2 = rx c1" using recv_step_more(1) s Inr by blast
      have "recv_inv fd r msg1 c2" using recv_step_any [OF inv c1(2) s] Inr n by (simp add: step_ok_def)
      from Cons.IH [OF this, of ?ck seq1 off1] rx c1(3,5) Cons.prems(4,5)
      have "recv_chunks sha fd info ?ck msg1 seq1 off1 c2 \<noteq> None" by simp
      with s c1(1) Inr n show ?thesis by (subst recv_chunks.simps) simp
    qed
  qed
qed

lemma open_wr_rx: "rx (snd (open_wr path c)) = rx c"
  using fs_next_frame(3) [of c]
  by (auto simp: open_wr_def at_path_def fail_with_def split: prod.splits fs_event.splits sum.splits option.splits node.splits)

lemma file_recv_returns:
  assumes "fs c = NDir es" "info_name info = Some name" "rx_quiet (rx c)" "incoming c = concat ws @ rest"
    "\<forall>w \<in> set ws. chunk_sized w" "length rest < 48"
  shows "file_recv sha info c \<noteq> None"
proof -
  obtain op c1 where o: "open_wr name c = (op, c1)" by fastforce
  show ?thesis
  proof (cases op)
    case None
    with assms(2) o show ?thesis by (simp add: file_recv_def)
  next
    case (Some fd)
    note ow = open_wr_any [OF o [unfolded Some] assms(1)]
    have inv: "recv_inv fd (fs c) zero_msg c1" using ow by (simp add: recv_inv_def zero_msg_def)
    have "rx c1 = rx c" using open_wr_rx [of name c] o by simp
    with recv_chunks_returns [OF inv, of ws rest] assms(3-6)
    have "recv_chunks sha fd info ck zero_msg 0 0 c1 \<noteq> None" for ck by simp
    with assms(2) o Some show ?thesis by (simp add: file_recv_def)
  qed
qed

section \<open>Properties\<close>

text \<open>
  C32. The number of chunks: up to 16 MB it is the size divided by 4096, rounded up. Beyond that
  the size is rounded to a float first; up to 64 GB the count never exceeds the number of pieces,
  but the pieces it covers can leave out up to 2048 bytes at the end: a file of 16 MB and one byte
  loses its last byte.
\<close>

theorem chunk_count_accuracy:
  "(n \<le> 2 ^ 24 \<longrightarrow> chunk_count_of n = (n + 4095) div 4096) \<and>
   (n < 2 ^ 36 \<longrightarrow> chunk_count_of n \<le> (n + 4095) div 4096 \<and> n \<le> 4096 * chunk_count_of n + 2048) \<and>
   4096 * chunk_count_of (2 ^ 24 + 1) = 2 ^ 24"
proof (intro conjI impI)
  show "n \<le> 2 ^ 24 \<Longrightarrow> chunk_count_of n = (n + 4095) div 4096"
    using chunk_count_exact by (simp add: pieces_def)
  show "n < 2 ^ 36 \<Longrightarrow> chunk_count_of n \<le> (n + 4095) div 4096"
    using chunk_count_le(1) by (simp add: pieces_def)
  show "n < 2 ^ 36 \<Longrightarrow> n \<le> 4096 * chunk_count_of n + 2048" by (rule chunk_count_le)
  show "4096 * chunk_count_of (2 ^ 24 + 1) = 2 ^ 24" using chunk_count_16M by simp
qed

theorem chunk_count_accuracy_witness:
  "chunk_count_of 10000 = 3 \<and> 10000000000 \<le> 4096 * chunk_count_of 10000000000 + 2048"
  using chunk_count_accuracy [of 10000] chunk_count_accuracy [of 10000000000] by simp

text \<open>For the witnesses: a machine with some files in its root directory, and acknowledgements.\<close>

definition sample_io :: "(string \<times> node) list \<Rightarrow> byte list \<Rightarrow> io" where
  "sample_io files inc = \<lparr>rx = [RxData inc], tx_plan = [], tx = [], clock = (\<lambda>_. zero_time), junk = (\<lambda>_. 0),
     errno = 0, fs = NDir files, cwd = [], fs_plan = []\<rparr>"

definition sample_ok :: MessageHdr where
  "sample_ok = zero_hdr\<lparr>hdr_type := type_code MSGTYPE_CHUNK_OK\<rparr>"

definition sample_file_info :: "usize \<Rightarrow> FileInfo" where
  "sample_file_info n = \<lparr>fi_size = 0, fi_chunk_count = n, fi_checksum = [], fi_filename = cbytes ''/g''\<rparr>"

lemma sample_io_simps [simp]:
  "quiet (sample_io files inc)" "incoming (sample_io files inc) = inc" "fs (sample_io files inc) = NDir files"
  "tx (sample_io files inc) = []"
  "resolve (sample_io files inc) ''/f'' = Inr [''f'']" "resolve (sample_io files inc) ''/g'' = Inr [''g'']"
  by (simp_all add: quiet_def sample_io_def resolve_def path_comps_def PATH_MAX_def)

lemma sample_ok_answer: "answer_hdr MSGTYPE_CHUNK_OK sample_ok"
  by (simp add: answer_hdr_def sample_ok_def wf_hdr_def zero_hdr_def)

lemma sample_file_name [simp]: "info_name (sample_file_info n) = Some ''/g''"
  using cstr_cbytes [of "''/g''" "[]"] by (simp add: info_name_def sample_file_info_def NUL_def)

lemma sample_ack_stream: "ack_stream n (concat (replicate n (enc_hdr sample_ok)))"
  using sample_ok_answer by (induction n) auto

text \<open>
  C11. A whole transfer: what file_send puts on the wire for a file of up to 16 MB, acknowledged
  chunk by chunk, makes file_recv at the other end create exactly that file, and the answers of
  file_recv are such acknowledgements. Both report success with the number of chunks.
\<close>

theorem transfer_roundtrip:
  fixes c :: "'a io_scheme"
  assumes "\<And>b. length (sha b) = 32" "quiet c" "resolve c src = Inr p" "lookup (fs c) p = Some (NFile data)"
    and "length data \<le> 2 ^ 24" "ack_stream (chunk_count_of (length data)) (incoming c)"
    and "info_name info = Some dst" "fi_chunk_count info = of_nat (chunk_count_of (length data))"
  shows "\<exists>w c'. file_send sha src 0 c =
      Some (\<lparr>last_chunk_sent = fi_chunk_count info, send_error_code = 0\<rparr>, c') \<and> tx c' = tx c @ w \<and>
    (\<forall>(d :: 'b io_scheme) fd. quiet d \<and> incoming d = w \<and> resolve d dst = Inr fd \<and> lookup (fs d) fd = None \<longrightarrow>
      (\<exists>d' acks. file_recv sha info d = Some (\<lparr>last_chunk_recvd = fi_chunk_count info, recv_error_code = 0\<rparr>, d') \<and>
        tx d' = tx d @ acks \<and> ack_stream (chunk_count_of (length data)) acks \<and>
        lookup (fs d') fd = Some (NFile data) \<and> same_files fd (fs d) (fs d')))"
proof -
  let ?N = "chunk_count_of (length data)"
  have N: "?N = pieces (length data)" by (rule chunk_count_exact [OF assms(5)])
  then have Nb: "4096 * ?N < 2 ^ 63" "4096 * (?N - 1) < length data \<or> ?N = 0" "length data \<le> 4096 * ?N"
    using assms(5) by (auto simp: pieces_def)
  have size: "length data < 2 ^ 36" using assms(5) by simp
  from file_send_stream [where sha = sha and s = 0 and acks = "incoming c" and rest = "[]", OF assms(1-4) size] assms(6)
  obtain c' w where s: "file_send sha src 0 c = Some (\<lparr>last_chunk_sent = of_nat ?N, send_error_code = 0\<rparr>, c')"
    "tx c' = tx c @ w" "chunk_stream sha data 0 ?N w" by auto
  have cnt: "unat (fi_chunk_count info) = ?N" using assms(8) Nb(1) by (simp add: unat_of_nat)
  have seg: "(if ?N = 0 then [] else overwrite [] (4096 * 0) (segment data 0 (?N - 0))) = data"
    using Nb by (auto simp: overwrite_def segment_def)
  have "\<exists>d' acks. file_recv sha info d = Some (\<lparr>last_chunk_recvd = fi_chunk_count info, recv_error_code = 0\<rparr>, d') \<and>
        tx d' = tx d @ acks \<and> ack_stream ?N acks \<and>
        lookup (fs d') fd = Some (NFile data) \<and> same_files fd (fs d) (fs d')"
    if d: "quiet d" "incoming d = w" "resolve d dst = Inr fd" "lookup (fs d) fd = None" for d :: "'b io_scheme" and fd
  proof -
    have pl: "place (fs d) fd" by (rule resolve_place [OF d(3,4)])
    then have fd: "lookup (fs d) fd = Some (NFile []) \<or> lookup (fs d) fd = None \<and> place (fs d) fd \<and> ([] :: byte list) = []"
      "fd \<noteq> []" using d(4) by (simp_all add: place_def)
    have w: "chunk_stream sha data 0 (?N - 0) w" "incoming d = w @ []" using s(3) d(2) by simp_all
    from file_recv_stream [where sha = sha, OF assms(1) d(1) assms(7) d(3) fd cnt Nb(1,2) _ w] show ?thesis
      unfolding seg assms(8) [symmetric] by auto
  qed
  with s assms(8) show ?thesis by auto
qed

theorem transfer_roundtrip_witness:
  "\<exists>w c' d'. file_send sample_sha ''/f'' 0 (sample_io [(''f'', NFile [1, 2, 3])] (enc_hdr sample_ok)) =
      Some (\<lparr>last_chunk_sent = 1, send_error_code = 0\<rparr>, c') \<and> tx c' = w \<and>
    file_recv sample_sha (sample_file_info 1) (sample_io [] w) =
      Some (\<lparr>last_chunk_recvd = 1, recv_error_code = 0\<rparr>, d') \<and>
    lookup (fs d') [''g''] = Some (NFile [1, 2, 3])"
proof -
  let ?c = "sample_io [(''f'', NFile [1, 2, 3])] (enc_hdr sample_ok)"
  have N: "chunk_count_of (length [1, 2, 3 :: byte]) = 1" by (simp add: chunk_count_exact pieces_def)
  have a: "ack_stream (chunk_count_of (length [1, 2, 3 :: byte])) (incoming ?c)"
    using sample_ack_stream [of 1] unfolding N by simp
  have f: "lookup (fs ?c) [''f''] = Some (NFile [1, 2, 3])" by simp
  have cnt: "fi_chunk_count (sample_file_info 1) = of_nat (chunk_count_of (length [1, 2, 3 :: byte]))"
    unfolding N by (simp add: sample_file_info_def)
  have n: "fi_chunk_count (sample_file_info 1) = 1" by (simp add: sample_file_info_def)
  from transfer_roundtrip [where ?'b = unit and c = ?c and sha = sample_sha and src = "''/f''" and p = "[''f'']"
      and data = "[1, 2, 3]" and info = "sample_file_info 1" and dst = "''/g''",
      OF length_sample_sha _ _ f _ a sample_file_name cnt, unfolded n]
  obtain w c' where s: "file_send sample_sha ''/f'' 0 ?c = Some (\<lparr>last_chunk_sent = 1, send_error_code = 0\<rparr>, c')"
    "tx c' = tx ?c @ w" and
    r: "\<forall>(d :: io) fd. quiet d \<and> incoming d = w \<and> resolve d ''/g'' = Inr fd \<and> lookup (fs d) fd = None \<longrightarrow>
      (\<exists>d' acks. file_recv sample_sha (sample_file_info 1) d = Some (\<lparr>last_chunk_recvd = 1, recv_error_code = 0\<rparr>, d') \<and>
        tx d' = tx d @ acks \<and> ack_stream (chunk_count_of (length [1, 2, 3 :: byte])) acks \<and>
        lookup (fs d') fd = Some (NFile [1, 2, 3]) \<and> same_files fd (fs d) (fs d'))"
    by auto
  have "quiet (sample_io [] w) \<and> incoming (sample_io [] w) = w \<and> resolve (sample_io [] w) ''/g'' = Inr [''g''] \<and>
      lookup (fs (sample_io [] w)) [''g''] = None" by simp
  with r s show ?thesis by fastforce
qed

text \<open>
  C20. Resuming, and overwriting: when the file at the receiver already has the first 4096 k bytes
  right and the sender starts at chunk k, file_recv completes the transfer and the file begins
  with the whole contents. Bytes of an older, longer file behind them stay, since the file is not
  truncated.
\<close>

theorem file_recv_resumes:
  fixes d :: "'a io_scheme"
  assumes "\<And>b. length (sha b) = 32" "quiet d" "info_name info = Some dst" "resolve d dst = Inr fd"
    and "lookup (fs d) fd = Some (NFile old)" "fd \<noteq> []" "length data \<le> 2 ^ 24"
    and "fi_chunk_count info = of_nat (chunk_count_of (length data))" "k < chunk_count_of (length data)"
    and "take (4096 * k) old = take (4096 * k) data"
    and "chunk_stream sha data k (chunk_count_of (length data) - k) (incoming d)"
  shows "\<exists>d'. file_recv sha info d = Some (\<lparr>last_chunk_recvd = fi_chunk_count info, recv_error_code = 0\<rparr>, d') \<and>
    lookup (fs d') fd = Some (NFile (data @ drop (length data) old)) \<and> same_files fd (fs d) (fs d')"
proof -
  let ?N = "chunk_count_of (length data)"
  have N: "?N = pieces (length data)" by (rule chunk_count_exact [OF assms(7)])
  then have Nb: "4096 * ?N < 2 ^ 63" "4096 * (?N - 1) < length data \<or> ?N = 0" "length data \<le> 4096 * ?N"
    using assms(7) by (auto simp: pieces_def)
  have cnt: "unat (fi_chunk_count info) = ?N" using assms(8) Nb(1) by (simp add: unat_of_nat)
  have kd: "4096 * k < length data" using assms(9) Nb(2) by auto
  have ko: "4096 * k \<le> length old"
  proof -
    have "length (take (4096 * k) old) = 4096 * k" using assms(10) kd by simp
    then show ?thesis by simp
  qed
  have "segment data k (?N - k) = drop (4096 * k) data"
    using Nb(3) assms(9) by (simp add: segment_def diff_mult_distrib2)
  moreover have "4096 * k + length (drop (4096 * k) data) = length data" using kd by simp
  ultimately have seg: "(if ?N = 0 then old else overwrite old (4096 * k) (segment data k (?N - k))) =
      data @ drop (length data) old"
    using assms(9,10) overwrite_at [OF ko, of "drop (4096 * k) data"] by auto
  have w: "chunk_stream sha data k (?N - k) (incoming d)" "incoming d = incoming d @ []" using assms(11) by simp_all
  have fd: "lookup (fs d) fd = Some (NFile old) \<or> lookup (fs d) fd = None \<and> place (fs d) fd \<and> old = []"
    using assms(5) by simp
  have k: "k = 0 \<or> k < ?N" using assms(9) by simp
  from file_recv_stream [where sha = sha, OF assms(1-4) fd assms(6) cnt Nb(1,2) k w] show ?thesis
    unfolding seg assms(8) [symmetric] by blast
qed

definition sample_frame :: "byte list" where
  "sample_frame = enc_hdr (zero_hdr\<lparr>hdr_type := type_code MSGTYPE_SEND_CHUNK, hdr_length := 67\<rparr>) @
     enc_chdr (ck_hdr (chunk_at sample_sha [1, 2, 3] 0)) @ [1, 2, 3]"

theorem file_recv_resumes_witness:
  "\<exists>d'. file_recv sample_sha (sample_file_info 1) (sample_io [(''g'', NFile [9, 9, 9, 9, 9])] sample_frame) =
      Some (\<lparr>last_chunk_recvd = 1, recv_error_code = 0\<rparr>, d') \<and>
    lookup (fs d') [''g''] = Some (NFile [1, 2, 3, 9, 9])"
proof -
  let ?d = "sample_io [(''g'', NFile [9, 9, 9, 9, 9])] sample_frame"
  have N: "chunk_count_of (length [1, 2, 3 :: byte]) = 1" by (simp add: chunk_count_exact pieces_def)
  have p: "piece [1, 2, 3] 0 = [1, 2, 3]" by (simp add: piece_def)
  have "chunk_frame (chunk_at sample_sha [1, 2, 3] 0) sample_frame"
    unfolding chunk_frame_def sample_frame_def
    by (rule exI [of _ "zero_hdr\<lparr>hdr_type := type_code MSGTYPE_SEND_CHUNK, hdr_length := 67\<rparr>"],
        rule exI [of _ "[1, 2, 3]"])
      (simp add: wf_hdr_def zero_hdr_def chunk_at_def p ChunkHdr_size_def)
  then have w: "chunk_stream sample_sha [1, 2, 3] 0 (chunk_count_of (length [1, 2, 3 :: byte]) - 0) (incoming ?d)"
    unfolding N by simp
  have cnt: "fi_chunk_count (sample_file_info 1) = of_nat (chunk_count_of (length [1, 2, 3 :: byte]))"
    unfolding N by (simp add: sample_file_info_def)
  have n: "fi_chunk_count (sample_file_info 1) = 1" by (simp add: sample_file_info_def)
  have k: "0 < chunk_count_of (length [1, 2, 3 :: byte])" unfolding N by simp
  from file_recv_resumes [where sha = sample_sha and d = ?d and old = "[9, 9, 9, 9, 9]",
      OF length_sample_sha _ sample_file_name _ _ _ _ cnt k _ w] show ?thesis
    by (auto simp: n)
qed



text \<open>
  C33. A file of 16 MB and one byte: both sides report success, and the copy lacks the last byte.
\<close>

theorem transfer_loses_tail:
  fixes c :: "'a io_scheme"
  assumes "\<And>b. length (sha b) = 32" "quiet c" "resolve c src = Inr p" "lookup (fs c) p = Some (NFile data)"
    and "length data = 2 ^ 24 + 1" "ack_stream 4096 (incoming c)"
    and "info_name info = Some dst" "fi_chunk_count info = 4096"
  shows "\<exists>w c'. file_send sha src 0 c = Some (\<lparr>last_chunk_sent = 4096, send_error_code = 0\<rparr>, c') \<and> tx c' = tx c @ w \<and>
    (\<forall>(d :: 'b io_scheme) fd. quiet d \<and> incoming d = w \<and> resolve d dst = Inr fd \<and> lookup (fs d) fd = None \<longrightarrow>
      (\<exists>d'. file_recv sha info d = Some (\<lparr>last_chunk_recvd = 4096, recv_error_code = 0\<rparr>, d') \<and>
        lookup (fs d') fd = Some (NFile (butlast data))))"
proof -
  have N: "chunk_count_of (length data) = 4096" using chunk_count_16M assms(5) by simp
  have size: "length data < 2 ^ 36" using assms(5) by simp
  from file_send_stream [where sha = sha and s = 0 and acks = "incoming c" and rest = "[]", OF assms(1-4) size] assms(6)
  obtain c' w where s: "file_send sha src 0 c = Some (\<lparr>last_chunk_sent = 4096, send_error_code = 0\<rparr>, c')"
    "tx c' = tx c @ w" "chunk_stream sha data 0 4096 w" by (auto simp: N)
  have cnt: "unat (fi_chunk_count info) = 4096" "4096 * 4096 < (2::nat) ^ 63"
    "4096 * (4096 - 1) < length data \<or> 4096 = (0::nat)" using assms(5,8) by simp_all
  have seg: "(if 4096 = (0::nat) then [] else overwrite [] (4096 * 0) (segment data 0 (4096 - 0))) = butlast data"
    using assms(5) by (simp add: overwrite_def segment_def butlast_conv_take)
  have "\<exists>d'. file_recv sha info d = Some (\<lparr>last_chunk_recvd = 4096, recv_error_code = 0\<rparr>, d') \<and>
        lookup (fs d') fd = Some (NFile (butlast data))"
    if d: "quiet d" "incoming d = w" "resolve d dst = Inr fd" "lookup (fs d) fd = None" for d :: "'b io_scheme" and fd
  proof -
    have pl: "place (fs d) fd" by (rule resolve_place [OF d(3,4)])
    then have fd: "lookup (fs d) fd = Some (NFile []) \<or> lookup (fs d) fd = None \<and> place (fs d) fd \<and> ([] :: byte list) = []"
      "fd \<noteq> []" using d(4) by (simp_all add: place_def)
    have w: "chunk_stream sha data 0 (4096 - 0) w" "incoming d = w @ []" using s(3) d(2) by simp_all
    have k0: "0 = (0::nat) \<or> 0 < (4096::nat)" by simp
    from file_recv_stream [where sha = sha, OF assms(1) d(1) assms(7) d(3) fd cnt k0 w] show ?thesis
      unfolding seg by auto
  qed
  with s show ?thesis by auto
qed

theorem transfer_loses_tail_witness:
  "\<exists>w c' d'. file_send sample_sha ''/f'' 0
      (sample_io [(''f'', NFile (replicate (2 ^ 24 + 1) 7))] (concat (replicate 4096 (enc_hdr sample_ok)))) =
      Some (\<lparr>last_chunk_sent = 4096, send_error_code = 0\<rparr>, c') \<and> tx c' = w \<and>
    file_recv sample_sha (sample_file_info 4096) (sample_io [] w) =
      Some (\<lparr>last_chunk_recvd = 4096, recv_error_code = 0\<rparr>, d') \<and>
    lookup (fs d') [''g''] = Some (NFile (butlast (replicate (2 ^ 24 + 1) 7)))"
proof -
  obtain data :: "byte list" where data: "data = replicate (2 ^ 24 + 1) 7" by blast
  then have len: "length data = 2 ^ 24 + 1" by (simp only: length_replicate)
  obtain inc where inc: "inc = concat (replicate 4096 (enc_hdr sample_ok))" by blast
  let ?c = "sample_io [(''f'', NFile data)] inc"
  have a: "ack_stream 4096 (incoming ?c)" using sample_ack_stream [of 4096] unfolding inc sample_io_simps .
  have f: "lookup (fs ?c) [''f''] = Some (NFile data)" by simp
  have n: "fi_chunk_count (sample_file_info 4096) = 4096" by (simp add: sample_file_info_def)
  from transfer_loses_tail [where ?'b = unit and c = ?c and sha = sample_sha and src = "''/f''" and p = "[''f'']"
      and data = data and info = "sample_file_info 4096" and dst = "''/g''",
      OF length_sample_sha sample_io_simps(1,5) f len a sample_file_name n]
  obtain w c' where s: "file_send sample_sha ''/f'' 0 ?c = Some (\<lparr>last_chunk_sent = 4096, send_error_code = 0\<rparr>, c')"
    "tx c' = tx ?c @ w" and
    r: "\<forall>(d :: io) fd. quiet d \<and> incoming d = w \<and> resolve d ''/g'' = Inr fd \<and> lookup (fs d) fd = None \<longrightarrow>
      (\<exists>d'. file_recv sample_sha (sample_file_info 4096) d = Some (\<lparr>last_chunk_recvd = 4096, recv_error_code = 0\<rparr>, d') \<and>
        lookup (fs d') fd = Some (NFile (butlast data)))" by blast
  have "quiet (sample_io [] w) \<and> incoming (sample_io [] w) = w \<and> resolve (sample_io [] w) ''/g'' = Inr [''g''] \<and>
      lookup (fs (sample_io [] w)) [''g''] = None" by simp
  with r obtain d' where "file_recv sample_sha (sample_file_info 4096) (sample_io [] w) =
      Some (\<lparr>last_chunk_recvd = 4096, recv_error_code = 0\<rparr>, d')" "lookup (fs d') [''g''] = Some (NFile (butlast data))"
    by blast
  moreover have "tx c' = w" using s(2) by simp
  ultimately show ?thesis using s(1) unfolding data inc by blast
qed

end
