(* ===== verification/FsEffects.thy ===== *)
theory FsEffects
  imports FileXfer
begin

text \<open>
  What the functions on files and connections may change. A relation between the tree before and
  after that is reflexive and transitive is an effect; io_rel says that a function has the effect
  and leaves everything else of the process alone but the connection. Then what rm_r and
  create_directories_from_path do.
\<close>

section \<open>Effects\<close>

definition io_rel :: "(node \<Rightarrow> node \<Rightarrow> bool) \<Rightarrow> 'a io_scheme \<Rightarrow> 'a io_scheme \<Rightarrow> bool" where
  "io_rel R c c' \<longleftrightarrow> cwd c' = cwd c \<and> io.more c' = io.more c \<and> R (fs c) (fs c')"

abbreviation io_any :: "'a io_scheme \<Rightarrow> 'a io_scheme \<Rightarrow> bool" where
  "io_any \<equiv> io_rel (\<lambda>_ _. True)"

abbreviation io_same :: "'a io_scheme \<Rightarrow> 'a io_scheme \<Rightarrow> bool" where
  "io_same \<equiv> io_rel (=)"

locale effect =
  fixes R :: "node \<Rightarrow> node \<Rightarrow> bool"
  assumes R_refl: "R r r"
    and R_trans: "R a b \<Longrightarrow> R b c \<Longrightarrow> R a c"
begin

lemma of_same: "io_same c c' \<Longrightarrow> io_rel R c c'"
  by (simp add: io_rel_def R_refl)

lemma refl: "io_rel R c c"
  by (simp add: io_rel_def R_refl)

lemma trans: "io_rel R a b \<Longrightarrow> io_rel R b c \<Longrightarrow> io_rel R a c"
  using R_trans by (auto simp: io_rel_def)

lemma then_same: "io_rel R a b \<Longrightarrow> io_same b c \<Longrightarrow> io_rel R a c"
  by (simp add: io_rel_def)

lemma same_then: "io_same a b \<Longrightarrow> io_rel R b c \<Longrightarrow> io_rel R a c"
  by (simp add: io_rel_def)

end

text \<open>The three effects of the development: none, only files outside Q, and keeping a property.\<close>

definition keeps_files :: "(string list \<Rightarrow> bool) \<Rightarrow> node \<Rightarrow> node \<Rightarrow> bool" where
  "keeps_files Q r r' \<longleftrightarrow>
     (\<forall>q bs. Q q \<longrightarrow> (lookup r q = Some (NFile bs) \<longleftrightarrow> lookup r' q = Some (NFile bs)))"

definition shrinks :: "node \<Rightarrow> node \<Rightarrow> bool" where
  "shrinks r r' \<longleftrightarrow> (\<forall>q. lookup r' q \<noteq> None \<longrightarrow> lookup r q \<noteq> None)"

interpretation none: effect "(=)"
  by unfold_locales auto

interpretation any: effect "\<lambda>_ _. True"
  by unfold_locales auto

interpretation files: effect "keeps_files Q" for Q
  by unfold_locales (auto simp: keeps_files_def)

interpretation removal: effect "\<lambda>r r'. keeps_files Q r r' \<and> shrinks r r'" for Q
  by unfold_locales (auto simp: keeps_files_def shrinks_def)

lemma keeps_files_mono: "keeps_files Q r r' \<Longrightarrow> (\<And>q. Q' q \<Longrightarrow> Q q) \<Longrightarrow> keeps_files Q' r r'"
  by (simp add: keeps_files_def)

lemma io_rel_mono: "io_rel R c c' \<Longrightarrow> (R (fs c) (fs c') \<Longrightarrow> S (fs c) (fs c')) \<Longrightarrow> io_rel S c c'"
  by (simp add: io_rel_def)

lemma same_files_keeps: "same_files p r r' \<longleftrightarrow> keeps_files (\<lambda>q. q \<noteq> p) r r'"
  by (simp add: same_files_def keeps_files_def)

lemma io_sameD: "io_same c c' \<Longrightarrow> fs c' = fs c \<and> cwd c' = cwd c \<and> io.more c' = io.more c"
  by (simp add: io_rel_def)

lemmas io_same_refl [simp] = none.refl
lemmas io_same_trans [trans] = none.trans

section \<open>Functions that leave the tree alone\<close>

lemma conn_more_same: "conn.more c' = conn.more (c :: 'a io_scheme) \<Longrightarrow> io_same c c'"
  by (cases c; cases c') (simp add: io_rel_def)

lemma rx_step_same: "rx_step c c' \<Longrightarrow> io_same c c'"
  by (simp add: rx_step_def conn_more_same)

lemma tx_step_same: "tx_step c c' \<Longrightarrow> io_same c c'"
  by (simp add: tx_step_def conn_more_same)

lemma fs_next_same: "fs_next c = (ev, c') \<Longrightarrow> io_same c c'"
  by (auto simp: fs_next_def io_rel_def split: list.splits)

lemma fail_with_same [simp]: "io_same c (fail_with e c') \<longleftrightarrow> io_same c c'"
  by (simp add: fail_with_def io_rel_def)

lemma at_path_same: "at_path path c = (r, c') \<Longrightarrow> io_same c c'"
  by (auto simp: at_path_def split: prod.splits fs_event.splits dest: fs_next_same)

lemma lstat_same: "lstat path c = (r, c') \<Longrightarrow> io_same c c'"
  by (auto simp: lstat_def split: prod.splits sum.splits option.splits dest!: at_path_same)

lemma open_rd_same: "open_rd path c = (r, c') \<Longrightarrow> io_same c c'"
  by (auto simp: open_rd_def split: prod.splits sum.splits if_splits dest!: at_path_same)

lemma opendir_same: "opendir path c = (r, c') \<Longrightarrow> io_same c c'"
  by (auto simp: opendir_def split: prod.splits sum.splits option.splits node.splits dest!: at_path_same)

lemma fs_read_same: "fs_read p off n c = (r, c') \<Longrightarrow> io_same c c'"
  by (auto simp: fs_read_def split: prod.splits fs_event.splits option.splits node.splits dest!: fs_next_same)

lemma file_exists_same: "file_exists path c = (r, c') \<Longrightarrow> io_same c c'"
proof -
  assume run: "file_exists path c = (r, c')"
  obtain fd c1 where o: "open_rd path (c\<lparr>errno := 0\<rparr>) = (fd, c1)" by fastforce
  with run have "c' = c1" by (auto simp: file_exists_def split: option.splits if_splits)
  moreover have "io_same c (c\<lparr>errno := 0\<rparr>)" by (simp add: io_rel_def)
  ultimately show ?thesis using open_rd_same [OF o] io_same_trans by blast
qed

lemma read_all_same: "read_all p off acc c = Some (bs, c') \<Longrightarrow> io_same c c'"
proof (induction p off acc c rule: read_all.induct)
  case (1 p off acc c)
  obtain r c1 where r: "fs_read p off CHUNK_SIZE c = (r, c1)" by fastforce
  with 1(2) [unfolded read_all.simps [of p off acc c]] 1(1) show ?case
    by (auto split: option.splits if_splits dest: fs_read_same intro: io_same_trans)
qed

lemma file_checksum_same: "file_checksum sha name c = Some (r, chk, c') \<Longrightarrow> io_same c c'"
proof -
  assume run: "file_checksum sha name c = Some (r, chk, c')"
  obtain fd c1 where o: "open_rd name c = (fd, c1)" by fastforce
  obtain ev c2 where n: "fs_next c1 = (ev, c2)" by fastforce
  note s = open_rd_same [OF o] fs_next_same [OF n]
  show ?thesis
  proof (cases fd)
    case None
    with run o s show ?thesis by (auto simp: file_checksum_def)
  next
    case (Some p)
    with run o n have "c' = c2 \<or> (\<exists>bs. read_all p 0 [] c2 = Some (bs, c'))"
      by (auto simp: file_checksum_def bind_eq_Some_conv split: fs_event.splits)
    with s show ?thesis by (auto dest: read_all_same intro: io_same_trans)
  qed
qed

lemma fileinfo_same: "fileinfo_from_filename sha name i c = Some (r, i', c') \<Longrightarrow> io_same c c'"
proof -
  assume run: "fileinfo_from_filename sha name i c = Some (r, i', c')"
  obtain st c1 where l: "lstat name c = (st, c1)" by fastforce
  from run l have "c' = c1 \<or> (\<exists>ret chk. file_checksum sha name c1 = Some (ret, chk, c'))"
    by (auto simp: fileinfo_from_filename_def Let_def bind_eq_Some_conv split: option.splits node.splits if_splits)
  with lstat_same [OF l] show ?thesis by (auto dest: file_checksum_same intro: io_same_trans)
qed

lemma msg_send_same: "msg_send m ph n c = Some (ret, m', c') \<Longrightarrow> io_same c c'"
  by (rule tx_step_same [OF msg_send_step])

lemma uninit_same: "uninit n c = (bs, c') \<Longrightarrow> io_same c c'"
  using uninit_frame(5) [of c n] by (auto dest: rx_step_same)

lemma uninit_msg_same: "uninit_msg c = (m, c') \<Longrightarrow> io_same c c'"
  using uninit_msg_frame(5) [of c] by (auto dest: rx_step_same)

lemma uninit_info_same: "uninit_info c = (i, c') \<Longrightarrow> io_same c c'"
  by (auto simp: uninit_info_def split: prod.splits dest: uninit_same)

lemma msg_recv_header_same:
  "wf_hdr (hdr m) \<Longrightarrow> msg_recv_header m c = Some (ret, m', c') \<Longrightarrow> io_same c c'"
  using msg_recv_header_data [of m c] by (auto dest: rx_step_same)

lemma msg_recv_payload_same: "msg_recv_payload n m c = Some (ret, m', c') \<Longrightarrow> io_same c c'"
  using msg_recv_payload_data [of n m c] by (auto dest: rx_step_same)

lemma msg_recv_same: "wf_hdr (hdr m) \<Longrightarrow> msg_recv n m c = Some (ret, m', c') \<Longrightarrow> io_same c c' \<and> wf_hdr (hdr m')"
  using msg_recv_data [of m n c] by (auto dest: rx_step_same)


lemma chunk_recv_same: "chunk_recv sha ck c = Some (ret, ck', c') \<Longrightarrow> io_same c c'"
  using chunk_recv_data [of sha ck c ret ck' c'] by (auto dest: rx_step_same)

lemma chunk_send_same: "chunk_send ck c = Some (ret, c') \<Longrightarrow> io_same c c'"
  by (rule tx_step_same [OF chunk_send_step])

lemma send_until_ok_same:
  "send_until_ok ck m c = Some (res, m', c') \<Longrightarrow> wf_hdr (hdr m) \<Longrightarrow> io_same c c'"
proof (induction ck m c rule: send_until_ok.induct)
  case (1 ck m c)
  show ?case
  proof (cases "hdr_type (hdr m) = type_code MSGTYPE_CHUNK_OK")
    case True
    with 1(2) show ?thesis by (subst (asm) send_until_ok.simps) simp
  next
    case False
    with 1(2) obtain r1 c1 where s: "chunk_send ck c = Some (r1, c1)"
      by (subst (asm) send_until_ok.simps) (auto split: option.splits)
    note s1 = chunk_send_same [OF s]
    show ?thesis
    proof (cases "r1 < 0")
      case True
      with 1(2) False s s1 show ?thesis by (auto simp: send_until_ok.simps [of ck m c])
    next
      case r1: False
      with 1(2) False s obtain r2 m2 c2 where r: "msg_recv 0 m c1 = Some (r2, m2, c2)"
        by (subst (asm) send_until_ok.simps) (auto split: option.splits)
      note s2 = msg_recv_same [OF 1(3) r]
      have "c' = c2 \<or> send_until_ok ck m2 c2 = Some (res, m', c')" "r2 < 0 \<longrightarrow> c' = c2"
        using 1(2) False s r1 r by (auto simp: send_until_ok.simps [of ck m c] split: if_splits)
      with 1(1) [OF False s refl r1 r refl refl] s1 s2 show ?thesis by (blast intro: io_same_trans)
    qed
  qed
qed

lemma wf_zero_msg [simp]: "wf_hdr (hdr zero_msg)"
  by (simp add: zero_msg_def)

lemma send_chunks_same: "send_chunks sha fd info off start seq c = Some (st, c') \<Longrightarrow> io_same c c'"
proof (induction sha fd info off start seq c rule: send_chunks.induct)
  case (1 sha fd info off start seq c)
  note run = 1(2) [unfolded send_chunks.simps [of sha fd info off start seq c]]
  obtain r c1 where r: "fs_read fd off CHUNK_SIZE c = (r, c1)" by fastforce
  note s1 = fs_read_same [OF r]
  show ?case
  proof (cases "seq < fi_chunk_count info \<and> r \<noteq> None \<and> r \<noteq> Some []")
    case False
    with run r s1 show ?thesis by (auto split: if_splits option.splits)
  next
    case True
    then obtain buf where buf: "r = Some buf" "buf \<noteq> []" by auto
    let ?h = "\<lparr>ch_seq = seq, ch_start_byte = start, ch_end_byte = start + of_nat (length buf) - 1,
      ch_length = of_nat (length buf), ch_checksum = replicate 32 0\<rparr>"
    from run True r buf obtain chunk where ck: "chunk_init sha ?h buf = Some chunk"
      by (auto simp: Let_def split: option.splits)
    with run True r buf obtain res m c2 where s: "send_until_ok chunk zero_msg c1 = Some (res, m, c2)"
      by (auto simp: Let_def split: option.splits)
    note s2 = send_until_ok_same [OF s wf_zero_msg]
    show ?thesis
    proof (cases "res < 0")
      case True
      with run \<open>seq < _ \<and> _\<close> r buf ck s s1 s2 show ?thesis by (auto simp: Let_def intro: io_same_trans)
    next
      case False
      with run \<open>seq < _ \<and> _\<close> r buf ck s have
        "send_chunks sha fd info (off + length buf) (start + of_nat (length buf)) (seq + 1) c2 = Some (st, c')"
        by (auto simp: Let_def)
      with 1(1) [OF _ r [symmetric] buf(1,2) refl refl refl ck s refl refl False] True s1 s2
      show ?thesis by (blast intro: io_same_trans)
    qed
  qed
qed

lemma file_send_same: "file_send sha name start c = Some (st, c') \<Longrightarrow> io_same c c'"
proof -
  assume run: "file_send sha name start c = Some (st, c')"
  obtain i0 c0 where u: "uninit_info c = (i0, c0)" by fastforce
  from run u obtain r i c1 where f: "fileinfo_from_filename sha name i0 c0 = Some (r, i, c1)"
    by (auto simp: file_send_def bind_eq_Some_conv)
  obtain fd c2 where o: "open_rd name c1 = (fd, c2)" by fastforce
  have "c' = c1 \<or> c' = c2 \<or> (\<exists>p off st0 sq. send_chunks sha p i off st0 sq c2 = Some (st, c'))"
    using run u f o by (auto simp: file_send_def split: if_splits option.splits)
  with uninit_info_same [OF u] fileinfo_same [OF f] open_rd_same [OF o] show ?thesis
    by (auto dest!: send_chunks_same intro: io_same_trans)
qed

section \<open>file_recv\<close>

lemma fs_write_any: "fs_write p off new c = (r, c') \<Longrightarrow> io_any c c'"
  by (auto simp: fs_write_def Let_def fail_with_def io_rel_def split: prod.splits fs_event.splits if_splits
      dest!: fs_next_same)

lemma send_answer_same: "send_answer t m c = Some (res, m', c') \<Longrightarrow> io_same c c'"
  unfolding send_answer_def by (rule msg_send_same)

lemma keep_chunk_io: "keep_chunk fd ck m seq off c = Some (res, c') \<Longrightarrow> io_any c c'"
proof -
  assume run: "keep_chunk fd ck m seq off c = Some (res, c')"
  then obtain r m1 c1 where a: "send_answer MSGTYPE_CHUNK_OK m c = Some (r, m1, c1)"
    by (auto simp: keep_chunk_def bind_eq_Some_conv)
  have "c' = c1 \<or> (\<exists>d. c' = snd (fs_write fd off d c1))"
    using run a by (auto simp: keep_chunk_def Let_def bind_eq_Some_conv split_beta split: if_splits)
  moreover have "io_any c (snd (fs_write fd off d c1))" for d
    by (rule any.same_then [OF send_answer_same [OF a] fs_write_any [OF prod.collapse [symmetric]]])
  ultimately show ?thesis
    using send_answer_same [OF a] by (auto intro: any.of_same)
qed

lemma recv_chunk_step_io: "recv_chunk_step fd nb ck m seq off c = Some (res, c') \<Longrightarrow> io_any c c'"
  by (auto simp: recv_chunk_step_def Let_def bind_eq_Some_conv split: if_splits option.splits
      dest!: send_answer_same keep_chunk_io intro: any.of_same)

lemma recv_chunks_io: "recv_chunks sha fd info ck m seq off c = Some (st, c') \<Longrightarrow> io_any c c'"
proof (induction sha fd info ck m seq off c rule: recv_chunks.induct)
  case (1 sha fd info ck m seq off c)
  note run = 1(2) [unfolded recv_chunks.simps [of sha fd info ck m seq off c]]
  show ?case
  proof (cases "seq < fi_chunk_count info")
    case False
    with run show ?thesis by (simp add: any.refl)
  next
    case True
    with run obtain nb ck1 c1 where r: "chunk_recv sha ck c = Some (nb, ck1, c1)"
      by (auto split: option.splits)
    with run True obtain nxt c2 where s: "recv_chunk_step fd nb ck1 m seq off c1 = Some (nxt, c2)"
      by (auto split: option.splits)
    have s12: "io_any c c2"
      using chunk_recv_same [OF r] recv_chunk_step_io [OF s] by (rule any.same_then)
    show ?thesis
    proof (cases nxt)
      case (Inl st1)
      with run True r s s12 show ?thesis by auto
    next
      case (Inr n)
      obtain seq1 off1 m1 where n: "n = (seq1, off1, m1)" by (cases n) auto
      with run True r s Inr have "recv_chunks sha fd info ck1 m1 seq1 off1 c2 = Some (st, c')" by auto
      with 1(1) [OF True r refl refl s] Inr n s12 show ?thesis by (blast intro: any.trans)
    qed
  qed
qed

lemma open_wr_io: "open_wr path c = (r, c') \<Longrightarrow> io_any c c'"
  by (auto simp: open_wr_def fail_with_def io_rel_def split: prod.splits sum.splits option.splits node.splits
      dest!: at_path_same)

lemma file_recv_io: "file_recv sha info c = Some (st, c') \<Longrightarrow> io_any c c'"
proof -
  assume run: "file_recv sha info c = Some (st, c')"
  then obtain name where n: "info_name info = Some name" by (auto simp: file_recv_def bind_eq_Some_conv)
  obtain fd c1 where o: "open_wr name c = (fd, c1)" by fastforce
  have "c' = c1 \<or> (\<exists>p ck m seq off. recv_chunks sha p info ck m seq off c1 = Some (st, c'))"
    using run n o by (auto simp: file_recv_def split: option.splits)
  with open_wr_io [OF o] show ?thesis by (auto dest: recv_chunks_io intro: any.trans)
qed

text \<open>file_recv changes no file but the one its FileInfo names, and nothing if that is a directory.\<close>

lemma file_recv_files:
  assumes "file_recv sha info c = Some (st, c')" "fs c = NDir es" "info_name info = Some name"
    "\<And>q. resolve c name = Inr q \<Longrightarrow> Q q \<Longrightarrow> \<exists>ds. lookup (fs c) q = Some (NDir ds)"
  shows "io_rel (keeps_files Q) c c' \<and> recv_error_code st \<in> {0, -1, -2, -3, -4}"
proof -
  note any = file_recv_any [OF assms(1,2)]
  have "keeps_files Q (fs c) (fs c')"
  proof (cases "fs c' = fs c")
    case False
    with any assms(3) obtain fd where fd: "resolve c name = Inr fd" "\<forall>ds. lookup (fs c) fd \<noteq> Some (NDir ds)"
      "same_files fd (fs c) (fs c')" by auto
    with assms(4) have "\<not> Q fd" by blast
    moreover have "keeps_files (\<lambda>q. q \<noteq> fd) (fs c) (fs c')" using fd(3) by (simp add: same_files_keeps)
    ultimately show ?thesis by (auto elim: keeps_files_mono)
  qed (simp add: keeps_files_def)
  with any file_recv_io [OF assms(1)] show ?thesis by (simp add: io_rel_def)
qed

end
