(* ===== verification/FsOps.thy ===== *)
theory FsOps
  imports FsEffects
begin

text \<open>
  Removing a subtree (rm_r) and making the directories of a path (create_directories_from_path),
  on the tree of files: what they do when every system call goes as the tree has it, and what they
  leave alone however the calls go.
\<close>

section \<open>Taking a place of the tree away\<close>

lemma lookup_put_dirs:
  "place r p \<Longrightarrow> strict_prefix q p \<Longrightarrow> \<exists>es. lookup (put_node r p v) q = Some (NDir es)"
proof (induction p arbitrary: r q)
  case Nil
  then show ?case by simp
next
  case (Cons x xs)
  from Cons.prems obtain es where r: "r = NDir es" and
    xs: "xs = [] \<or> (\<exists>n. map_of es x = Some n \<and> place n xs)" using place_Cons by blast
  show ?case
  proof (cases q)
    case (Cons y q')
    with Cons.prems have q: "q = x # q'" "strict_prefix q' xs" by auto
    then have "xs \<noteq> []" by auto
    with xs obtain m where "map_of es x = Some m" "place m xs" by blast
    with Cons.IH q r \<open>xs \<noteq> []\<close> show ?thesis by (simp add: map_of_set_entry)
  qed (use xs r in \<open>auto split: option.splits\<close>)
qed

lemma lookup_put_below:
  "place r p \<Longrightarrow> lookup (put_node r p v) (p @ q) = (case v of None \<Rightarrow> None | Some n \<Rightarrow> lookup n q)"
proof (induction p arbitrary: r)
  case Nil
  then show ?case by (simp add: place_def)
next
  case (Cons x xs)
  from Cons.prems obtain es where r: "r = NDir es" and
    xs: "xs = [] \<or> (\<exists>n. map_of es x = Some n \<and> place n xs)" using place_Cons by blast
  show ?case
  proof (cases "xs = []")
    case False
    with xs obtain m where "map_of es x = Some m" "place m xs" by blast
    with Cons.IH False r show ?thesis by (simp add: map_of_set_entry)
  qed (simp add: r map_of_set_entry map_of_drop_entry split: option.split)
qed

lemma lookup_append: "lookup r (p @ q) = (case lookup r p of None \<Rightarrow> None | Some n \<Rightarrow> lookup n q)"
proof (induction p arbitrary: r)
  case (Cons x xs)
  then show ?case by (cases r) (auto split: option.splits)
qed simp

text \<open>Every place but those at and below p keeps its file.\<close>

lemma keeps_put:
  assumes "place r p"
  shows "keeps_files (\<lambda>q. \<not> prefix p q) r (put_node r p v)"
  unfolding keeps_files_def
proof (intro allI impI)
  fix q bs assume q: "\<not> prefix p q"
  show "lookup r q = Some (NFile bs) \<longleftrightarrow> lookup (put_node r p v) q = Some (NFile bs)"
  proof (cases "strict_prefix q p")
    case True
    with place_above [OF assms True] lookup_put_dirs [OF assms True, of v] show ?thesis by auto
  next
    case False
    with q have "\<not> prefix q p" by (auto simp: strict_prefix_def)
    with q lookup_put_other show ?thesis by metis
  qed
qed

lemma keeps_put_no_file:
  assumes "place r p" "\<And>q bs. lookup r (p @ q) \<noteq> Some (NFile bs)" "\<And>q bs n. v = Some n \<Longrightarrow> lookup n q \<noteq> Some (NFile bs)"
  shows "keeps_files Q r (put_node r p v)"
  unfolding keeps_files_def
proof (intro allI impI)
  fix q bs
  show "lookup r q = Some (NFile bs) \<longleftrightarrow> lookup (put_node r p v) q = Some (NFile bs)"
  proof (cases "prefix p q")
    case False
    with keeps_put [OF assms(1), of v] show ?thesis by (simp add: keeps_files_def)
  next
    case True
    then obtain q' where "q = p @ q'" by (auto simp: prefix_def)
    with assms lookup_put_below [OF assms(1), of v q'] show ?thesis by (auto split: option.splits)
  qed
qed

lemma shrinks_drop: "place r p \<Longrightarrow> shrinks r (put_node r p None)"
  unfolding shrinks_def
proof (intro allI impI)
  fix q assume p: "place r p" and q: "lookup (put_node r p None) q \<noteq> None"
  show "lookup r q \<noteq> None"
  proof (cases "prefix p q")
    case True
    then obtain q' where "q = p @ q'" by (auto simp: prefix_def)
    with q lookup_put_below [OF p, of None q'] show ?thesis by simp
  next
    case False
    show ?thesis
    proof (cases "strict_prefix q p")
      case True
      then show ?thesis using place_above [OF p True] by auto
    next
      case F: False
      with False have "\<not> prefix q p" by (auto simp: strict_prefix_def)
      with q False lookup_put_other show ?thesis by metis
    qed
  qed
qed

lemma set_entry_twice: "set_entry x m (set_entry x n es) = set_entry x m es"
  by (induction es) auto

lemma drop_set_entry: "filter (\<lambda>e. fst e \<noteq> x) (set_entry x n es) = filter (\<lambda>e. fst e \<noteq> x) es"
  by (induction es) auto

lemma put_put: "place r p \<Longrightarrow> put_node (put_node r p (Some n)) p v = put_node r p v"
proof (induction p arbitrary: r)
  case Nil
  then show ?case by (simp add: place_def)
next
  case (Cons x xs)
  from Cons.prems obtain es where r: "r = NDir es" and
    xs: "xs = [] \<or> (\<exists>n. map_of es x = Some n \<and> place n xs)" using place_Cons by blast
  show ?case
  proof (cases "xs = []")
    case False
    with xs obtain m where "map_of es x = Some m" "place m xs" by blast
    with Cons.IH False r show ?thesis by (simp add: map_of_set_entry set_entry_twice)
  qed (simp add: r set_entry_twice drop_set_entry split: option.split)
qed

text \<open>Taking an entry of the directory at p away.\<close>

lemma put_node_entry:
  "place r p \<Longrightarrow> lookup r p = Some (NDir es) \<Longrightarrow>
   put_node r (p @ [x]) None = put_node r p (Some (NDir (filter (\<lambda>e. fst e \<noteq> x) es)))"
proof (induction p arbitrary: r)
  case Nil
  then show ?case by (simp add: place_def)
next
  case (Cons y ys)
  from Cons.prems obtain fs where r: "r = NDir fs" and
    ys: "ys = [] \<or> (\<exists>n. map_of fs y = Some n \<and> place n ys)" using place_Cons by blast
  show ?case
  proof (cases "ys = []")
    case False
    with ys obtain m where "map_of fs y = Some m" "place m ys" by blast
    with Cons False r show ?thesis by simp
  next
    case True
    with Cons.prems r show ?thesis by (auto split: option.splits)
  qed
qed

section \<open>Resolving a plain absolute path\<close>

definition plain_name :: "string \<Rightarrow> bool" where
  "plain_name s \<longleftrightarrow> plain_seg s \<and> NUL \<notin> set s \<and> length s \<le> 255"

definition plain_path :: "string \<Rightarrow> bool" where
  "plain_path path \<longleftrightarrow> path \<noteq> [] \<and> hd path = CHR ''/'' \<and> (\<forall>s \<in> set (segments path). plain_name s)"

lemma plain_name_dots: "plain_name s \<Longrightarrow> s \<noteq> [] \<and> s \<noteq> ''.'' \<and> s \<noteq> ''..''"
  by (auto simp: plain_name_def plain_seg_def seg_ok_def)

lemma walk_plain:
  "\<forall>s \<in> set ss. s \<noteq> ''.'' \<and> s \<noteq> ''..'' \<Longrightarrow> walk r cur ss = Inr q \<Longrightarrow> q = cur @ ss \<and> (ss \<noteq> [] \<longrightarrow> place r q)"
proof (induction r cur ss rule: walk.induct)
  case (1 r cur)
  then show ?case by simp
next
  case (2 r cur s ss)
  then obtain es where es: "lookup r cur = Some (NDir es)"
    by (auto split: option.splits node.splits)
  with 2(5) 2(4) have w: "walk r (cur @ [s]) ss = Inr q" by (auto split: if_splits)
  show ?case
  proof (cases ss)
    case Nil
    with w es show ?thesis by (auto simp: place_def)
  next
    case Cons
    with 2(3) [OF es refl] 2(4) w show ?thesis by auto
  qed
qed

lemma walk_exists:
  "\<forall>s \<in> set ss. s \<noteq> ''.'' \<and> s \<noteq> ''..'' \<Longrightarrow> ss = [] \<or> place r (cur @ ss) \<Longrightarrow> walk r cur ss = Inr (cur @ ss)"
proof (induction ss arbitrary: cur)
  case (Cons s ss)
  have "place r (cur @ s # ss)" using Cons.prems(2) by simp
  moreover have "strict_prefix cur (cur @ s # ss)" by (simp add: strict_prefix_def)
  ultimately obtain es where es: "lookup r cur = Some (NDir es)" using place_above by blast
  with Cons.IH [of "cur @ [s]"] Cons.prems show ?case by (auto split: if_splits)
qed simp

lemma walk_append: "walk r cur (ss @ ts) = (case walk r cur ss of Inl e \<Rightarrow> Inl e | Inr q \<Rightarrow> walk r q ts)"
  by (induction r cur ss rule: walk.induct) (auto split: option.splits node.splits)

lemma resolve_cong: "io_same c c' \<Longrightarrow> resolve c' path = resolve c path"
  by (simp add: io_rel_def resolve_def)

lemma resolve_no_dots:
  assumes "path \<noteq> []" "hd path = CHR ''/''" "\<forall>s \<in> set (segments path). s \<noteq> ''.'' \<and> s \<noteq> ''..''" "resolve c path = Inr q"
  shows "q = segments path \<and> (q = [] \<or> place (fs c) q)"
proof -
  from assms have w: "walk (fs c) [] (path_comps path) = Inr q"
    by (auto simp: resolve_def split: if_splits)
  then obtain q1 where q1: "walk (fs c) [] (segments path) = Inr q1"
    by (auto simp: path_comps_def walk_append split: sum.splits)
  from w q1 have "q = q1"
    by (auto simp: path_comps_def walk_append split: if_splits option.splits node.splits)
  with walk_plain [OF assms(3) q1] show ?thesis by auto
qed

lemma resolve_plain:
  assumes "plain_path path" "resolve c path = Inr q"
  shows "q = segments path \<and> (q = [] \<or> place (fs c) q)"
  using resolve_no_dots [OF _ _ _ assms(2)] assms(1) plain_name_dots by (auto simp: plain_path_def)

lemma resolve_exists:
  assumes "plain_path path" "length path < PATH_MAX" "segments path = p" "p = [] \<or> place (fs c) p"
    "last path = CHR ''/'' \<Longrightarrow> \<exists>es. lookup (fs c) p = Some (NDir es)"
  shows "resolve c path = Inr p"
proof -
  have plain: "\<forall>s \<in> set (segments path). s \<noteq> ''.'' \<and> s \<noteq> ''..''"
    "\<forall>s \<in> set (segments path). length s \<le> 255"
    using assms(1) plain_name_dots by (auto simp: plain_path_def plain_name_def)
  have "walk (fs c) [] (segments path) = Inr p"
    using walk_exists [OF plain(1), of "fs c" "[]"] assms(3,4) by auto
  then have "walk (fs c) [] (path_comps path) = Inr p"
    using assms(5) by (auto simp: path_comps_def walk_append split: if_splits)
  then show ?thesis
    using assms(1,2) plain(2) by (fastforce simp: resolve_def plain_path_def)
qed


section \<open>rm_r\<close>

lemma plain_path_sub:
  assumes "plain_path path" "plain_name x"
  shows "plain_path (path @ ''/'' @ x)" "segments (path @ ''/'' @ x) = segments path @ [x]"
    "last (path @ ''/'' @ x) \<noteq> CHR ''/''"
proof -
  have x: "seg_ok x" using assms(2) by (simp add: plain_name_def plain_seg_def)
  then show s: "segments (path @ ''/'' @ x) = segments path @ [x]"
    by (simp add: segments_append_slash segments_seg)
  show "plain_path (path @ ''/'' @ x)"
    using assms unfolding plain_path_def s by auto
  show "last (path @ ''/'' @ x) \<noteq> CHR ''/''"
    using x by (auto simp: seg_ok_def) (metis last_in_set)
qed

text \<open>Every place below the path has plain names and fits into a path buffer.\<close>

definition fits :: "node \<Rightarrow> string \<Rightarrow> bool" where
  "fits r path \<longleftrightarrow> (\<forall>q. lookup r (segments path @ q) \<noteq> None \<longrightarrow>
     (\<forall>s \<in> set q. plain_name s) \<and> length path + length (render_tail q) < PATH_MAX)"

lemma fits_shrinks: "shrinks r r' \<Longrightarrow> fits r path \<Longrightarrow> fits r' path"
  unfolding fits_def shrinks_def by blast

lemma render_tail_Cons: "render_tail (x # q) = CHR ''/'' # x @ render_tail q"
  by (simp add: render_tail_def)

lemma fits_sub:
  assumes "fits r path" "plain_path path" "plain_name x"
  shows "fits r (path @ ''/'' @ x)"
  unfolding fits_def plain_path_sub(2) [OF assms(2,3)]
proof (intro allI impI)
  fix q assume "lookup r ((segments path @ [x]) @ q) \<noteq> None"
  then have "lookup r (segments path @ (x # q)) \<noteq> None" by simp
  with assms(1) have "(\<forall>s \<in> set (x # q). plain_name s) \<and> length path + length (render_tail (x # q)) < PATH_MAX"
    unfolding fits_def by blast
  then show "(\<forall>s \<in> set q. plain_name s) \<and> length (path @ ''/'' @ x) + length (render_tail q) < PATH_MAX"
    by (simp add: render_tail_Cons)
qed

lemma fits_entry:
  assumes "fits r path" "lookup r (segments path) = Some (NDir es)" "(x, n) \<in> set es"
  shows "plain_name x" "length (path @ ''/'' @ x) < PATH_MAX"
proof -
  have "map_of es x \<noteq> None" using assms(3) by (metis map_of_eq_None_iff image_eqI fst_conv)
  then have "lookup r (segments path @ [x]) \<noteq> None" using assms(2) by (auto simp: lookup_append)
  with assms(1) have "plain_name x \<and> length path + length (render_tail [x]) < PATH_MAX"
    by (fastforce simp: fits_def)
  then show "plain_name x" "length (path @ ''/'' @ x) < PATH_MAX" by (simp_all add: render_tail_Cons)
qed

abbreviation removes_below :: "string \<Rightarrow> node \<Rightarrow> node \<Rightarrow> bool" where
  "removes_below path \<equiv> \<lambda>r r'. keeps_files (\<lambda>q. \<not> prefix (segments path) q) r r' \<and> shrinks r r'"

lemma removes_sub:
  "plain_path path \<Longrightarrow> plain_name x \<Longrightarrow> removes_below (path @ ''/'' @ x) r r' \<Longrightarrow> removes_below path r r'"
  using plain_path_sub(2) [of path x]
  by (auto elim!: keeps_files_mono dest: append_prefixD)

lemma at_path_plain:
  assumes "at_path path c = (Inr q, c')" "plain_path path" "segments path \<noteq> []"
  shows "io_same c c'" "q = segments path" "place (fs c') q"
proof -
  show s: "io_same c c'" by (rule at_path_same [OF assms(1)])
  have "resolve c' path = Inr q"
    using assms(1) by (auto simp: at_path_def split: prod.splits fs_event.splits)
  then have "resolve c path = Inr q" by (simp add: resolve_cong [OF s])
  from resolve_plain [OF assms(2) this] assms(3) io_sameD [OF s]
  show "q = segments path" "place (fs c') q" by auto
qed

lemma put_none_removes:
  "place (fs c) (segments path) \<Longrightarrow>
   io_rel (removes_below path) c (c\<lparr>fs := put_node (fs c) (segments path) None\<rparr>)"
  using keeps_put [of "fs c" "segments path" None] shrinks_drop by (simp add: io_rel_def)

lemma fs_unlink_effect:
  assumes "fs_unlink path c = (ret, c')" "plain_path path" "segments path \<noteq> []"
  shows "(ret = 0 \<or> ret = -1) \<and> io_rel (removes_below path) c c'"
proof -
  obtain r c1 where a: "at_path path c = (r, c1)" by fastforce
  note s = at_path_same [OF a]
  show ?thesis
  proof (cases r)
    case (Inl e)
    with assms(1) a s show ?thesis by (auto simp: fs_unlink_def intro: removal.of_same)
  next
    case (Inr q)
    note q = at_path_plain [OF a [unfolded Inr] assms(2,3)]
    from put_none_removes [of c1 path] q assms(1) a Inr s show ?thesis
      by (auto simp: fs_unlink_def intro: removal.of_same removal.same_then split: option.splits node.splits)
  qed
qed

lemma fs_rmdir_effect:
  assumes "fs_rmdir path c = (ret, c')" "plain_path path" "segments path \<noteq> []"
  shows "(ret = 0 \<or> ret = -1) \<and> io_rel (removes_below path) c c'"
proof -
  obtain r c1 where a: "at_path path c = (r, c1)" by fastforce
  note s = at_path_same [OF a]
  show ?thesis
  proof (cases r)
    case (Inl e)
    with assms(1) a s show ?thesis by (auto simp: fs_rmdir_def intro: removal.of_same)
  next
    case (Inr q)
    note q = at_path_plain [OF a [unfolded Inr] assms(2,3)]
    from put_none_removes [of c1 path] q assms(1) a Inr s show ?thesis
      by (auto simp: fs_rmdir_def intro: removal.of_same removal.same_then split: option.splits node.splits if_splits)
  qed
qed

definition listed :: "string \<Rightarrow> (string \<times> node) list \<Rightarrow> bool" where
  "listed path es \<longleftrightarrow> (\<forall>x \<in> fst ` set es. x \<noteq> ''.'' \<and> x \<noteq> ''..'' \<longrightarrow>
     plain_name x \<and> length (path @ ''/'' @ x) < PATH_MAX)"

lemma opendir_listed:
  assumes "opendir path c = (Some es, c')" "plain_path path" "segments path \<noteq> []" "fits (fs c) path"
  shows "listed path es"
proof -
  obtain r c1 where a: "at_path path c = (r, c1)" by fastforce
  with assms(1) obtain q ds where r: "r = Inr q" and ds: "lookup (fs c1) q = Some (NDir ds)"
    and es: "es = (''.'', NDir []) # (''..'', NDir []) # ds"
    by (auto simp: opendir_def split: sum.splits option.splits node.splits)
  note q = at_path_plain [OF a [unfolded r] assms(2,3)]
  have f: "fits (fs c1) path" using assms(4) io_sameD [OF q(1)] by simp
  from fits_entry [OF f ds [unfolded q(2)]] es show ?thesis by (auto simp: listed_def)
qed

lemma rm_effects:
  "rm_r n path c = Some (ret, c') \<Longrightarrow> path = Some s \<Longrightarrow> plain_path s \<Longrightarrow> segments s \<noteq> [] \<Longrightarrow> fits (fs c) s \<Longrightarrow>
     (ret = 0 \<or> ret = -1) \<and> io_rel (removes_below s) c c'"
  "rm_entries n s es c = Some c' \<Longrightarrow> listed s es \<Longrightarrow> plain_path s \<Longrightarrow> segments s \<noteq> [] \<Longrightarrow> fits (fs c) s \<Longrightarrow>
     io_rel (removes_below s) c c'"
proof (induction n path c and n s es c arbitrary: ret c' s and c' rule: rm_r_rm_entries.induct)
  case (1 path c)
  then show ?case by simp
next
  case (2 n path c)
  obtain st c1 where l: "lstat s c = (st, c1)" by fastforce
  note s1 = lstat_same [OF l]
  consider (none) "st = None" | (dir) es where "st = Some (NDir es)" | (other) m where "st = Some m" "\<forall>es. m \<noteq> NDir es"
    by (cases st) auto
  then show ?case
  proof cases
    case none
    with 2(2,3) l s1 show ?thesis by (auto intro: removal.of_same)
  next
    case other
    then have "fs_unlink s c1 = (ret, c')"
      using 2(2,3) l by (cases m) auto
    from fs_unlink_effect [OF this 2(4,5)] s1 show ?thesis by (auto intro: removal.same_then)
  next
    case (dir es)
    obtain od c2 where o: "opendir s c1 = (od, c2)" by fastforce
    note s2 = io_same_trans [OF s1 opendir_same [OF o]]
    show ?thesis
    proof (cases od)
      case None
      with 2(2,3) l dir o s2 show ?thesis by (auto intro: removal.of_same)
    next
      case (Some ents)
      have f1: "fits (fs c1) s" "fits (fs c2) s" using 2(6) io_sameD [OF s1] io_sameD [OF s2] by simp_all
      have ls: "listed s ents" by (rule opendir_listed [OF o [unfolded Some] 2(4,5) f1(1)])
      from 2(2,3) l dir o Some obtain c3 where e: "rm_entries n s ents c2 = Some c3"
        by (auto simp: bind_eq_Some_conv)
      have e3: "io_rel (removes_below s) c2 c3"
        by (rule 2(1) [OF 2(3) l [symmetric] dir refl o [symmetric] Some e ls 2(4,5) f1(2)])
      obtain rr c4 where d: "fs_rmdir s c3 = (rr, c4)" by fastforce
      note e4 = fs_rmdir_effect [OF d 2(4,5)]
      have "io_rel (removes_below s) c c4"
        using s2 e3 e4 by (blast intro: removal.trans removal.same_then)
      moreover have "c' = c4 \<and> (ret = 0 \<or> ret = -1)"
        using 2(2,3) l dir o Some e d by (auto simp: Let_def split: if_splits)
      ultimately show ?thesis by simp
    qed
  qed
next
  case (3 n path c)
  then show ?case by (simp add: removal.refl)
next
  case (4 n path x m es c)
  show ?case
  proof (cases "x = ''.'' \<or> x = ''..''")
    case True
    with 4 show ?thesis by (auto simp: listed_def)
  next
    case False
    with 4(5) have x: "plain_name x" "length (path @ ''/'' @ x) < PATH_MAX" "listed path es"
      by (auto simp: listed_def)
    note p = plain_path_sub [OF 4(6) x(1)]
    have fp: "snprintf_str PATH_MAX (path @ ''/'' @ x) = path @ ''/'' @ x" by (rule snprintf_str_id [OF x(2)])
    from 4(4) False fp obtain r c1 where r: "rm_r n (Some (path @ ''/'' @ x)) c = Some (r, c1)"
      "rm_entries n path es c1 = Some c'"
      by (auto simp: bind_eq_Some_conv Let_def)
    have "io_rel (removes_below (path @ ''/'' @ x)) c c1"
      using 4(2) [OF False fp [symmetric] r(1) refl p(1)] p(2) fits_sub [OF 4(8,6) x(1)] by auto
    then have e1: "io_rel (removes_below path) c c1"
      by (rule io_rel_mono) (rule removes_sub [OF 4(6) x(1)])
    then have "fits (fs c1) path" using fits_shrinks [OF _ 4(8)] by (auto simp: io_rel_def)
    from 4(3) [OF False fp [symmetric] r(1) _ r(2) x(3) 4(6,7) this] e1
    show ?thesis by (auto intro: removal.trans)
  qed
qed


text \<open>
  The recursion ends, whatever the calls answer: with each level the path gets longer, and longer
  than the buffer it cannot get. So as many levels as the path is shorter than the buffer suffice.
\<close>

lemma rm_returns:
  "path = Some s \<Longrightarrow> plain_path s \<Longrightarrow> segments s \<noteq> [] \<Longrightarrow> fits (fs c) s \<Longrightarrow> 0 < n \<Longrightarrow> PATH_MAX \<le> n + length s \<Longrightarrow>
     rm_r n path c \<noteq> None"
  "listed s es \<Longrightarrow> plain_path s \<Longrightarrow> segments s \<noteq> [] \<Longrightarrow> fits (fs c) s \<Longrightarrow> PATH_MAX \<le> n + length s + 1 \<Longrightarrow>
     rm_entries n s es c \<noteq> None"
proof (induction n path c and n s es c arbitrary: s and rule: rm_r_rm_entries.induct)
  case (1 path c)
  then show ?case by simp
next
  case (2 n path c)
  obtain st c1 where l: "lstat s c = (st, c1)" by fastforce
  consider (none) "st = None" | (dir) es where "st = Some (NDir es)" | (other) m where "st = Some m" "\<forall>es. m \<noteq> NDir es"
    by (cases st) auto
  then show ?case
  proof cases
    case none
    with 2(2) l show ?thesis by simp
  next
    case other
    with 2(2) l show ?thesis by (cases m) auto
  next
    case (dir es)
    obtain od c2 where o: "opendir s c1 = (od, c2)" by fastforce
    show ?thesis
    proof (cases od)
      case None
      with 2(2) l dir o show ?thesis by simp
    next
      case (Some ents)
      note s1 = lstat_same [OF l] and s2 = io_same_trans [OF lstat_same [OF l] opendir_same [OF o]]
      have f: "fits (fs c1) s" "fits (fs c2) s" using 2(5) io_sameD [OF s1] io_sameD [OF s2] by simp_all
      have ls: "listed s ents" by (rule opendir_listed [OF o [unfolded Some] 2(3,4) f(1)])
      have "PATH_MAX \<le> n + length s + 1" using 2(7) by simp
      from 2(1) [OF 2(2) l [symmetric] dir refl o [symmetric] Some ls 2(3,4) f(2) this] obtain c3 where
        "rm_entries n s ents c2 = Some c3" by blast
      with 2(2) l dir o Some show ?thesis by (auto simp: Let_def split: prod.splits)
    qed
  qed
next
  case (3 n path c)
  then show ?case by simp
next
  case (4 n path x m es c)
  show ?case
  proof (cases "x = ''.'' \<or> x = ''..''")
    case True
    with 4 show ?thesis by (auto simp: listed_def)
  next
    case False
    with 4(4) have x: "plain_name x" "length (path @ ''/'' @ x) < PATH_MAX" "listed path es"
      by (auto simp: listed_def)
    note p = plain_path_sub [OF 4(5) x(1)]
    have fp: "snprintf_str PATH_MAX (path @ ''/'' @ x) = path @ ''/'' @ x" by (rule snprintf_str_id [OF x(2)])
    have n: "0 < n" "PATH_MAX \<le> n + length (path @ ''/'' @ x)" using x(2) 4(8) by simp_all
    have sub: "segments (path @ ''/'' @ x) \<noteq> []" "fits (fs c) (path @ ''/'' @ x)"
      using p(2) fits_sub [OF 4(7,5) x(1)] by simp_all
    from 4(2) [OF False fp [symmetric] refl p(1) sub n] obtain ret c1 where
      r: "rm_r n (Some (path @ ''/'' @ x)) c = Some (ret, c1)" by fast
    from rm_effects(1) [OF r refl p(1) sub] have "fits (fs c1) path"
      using fits_shrinks [OF _ 4(7)] by (simp add: io_rel_def)
    from 4(3) [OF False fp [symmetric] r _ x(3) 4(5,6) this 4(8)] r False fp show ?thesis
      by (simp add: Let_def)
  qed
qed

subsection \<open>When every call succeeds\<close>

text \<open>The calls of the process left to the tree; errno aside, nothing else changes.\<close>

definition calm :: "'a io_scheme \<Rightarrow> bool" where
  "calm c \<longleftrightarrow> fs_plan c = []"

definition fs_becomes :: "'a io_scheme \<Rightarrow> node \<Rightarrow> 'a io_scheme \<Rightarrow> bool" where
  "fs_becomes c r c' \<longleftrightarrow> (\<exists>e. c' = c\<lparr>errno := e, fs := r\<rparr>)"

lemma fs_becomes_refl: "fs c = r \<Longrightarrow> fs_becomes c r c"
  unfolding fs_becomes_def by (rule exI [of _ "errno c"]) simp

lemma fs_becomes_trans: "fs_becomes c r c1 \<Longrightarrow> fs_becomes c1 r' c2 \<Longrightarrow> fs_becomes c r' c2"
  by (auto simp: fs_becomes_def)

lemma fs_becomesD: "fs_becomes c r c' \<Longrightarrow> fs c' = r \<and> fs_plan c' = fs_plan c \<and> cwd c' = cwd c"
  by (auto simp: fs_becomes_def)

lemma calm_at_path: "calm c \<Longrightarrow> at_path path c = (resolve c path, c)"
  unfolding calm_def by (rule at_path_quiet)

text \<open>A path to a place, short enough to resolve; a slash at its end is only for a directory.\<close>

definition path_to :: "string \<Rightarrow> string list \<Rightarrow> 'a io_scheme \<Rightarrow> bool" where
  "path_to path p c \<longleftrightarrow> plain_path path \<and> segments path = p \<and> p \<noteq> [] \<and> length path < PATH_MAX \<and>
     (last path = CHR ''/'' \<longrightarrow> (\<exists>es. lookup (fs c) p = Some (NDir es)))"

lemma path_to_resolve: "path_to path p c \<Longrightarrow> place (fs c) p \<Longrightarrow> resolve c path = Inr p"
  by (rule resolve_exists) (auto simp: path_to_def)

definition depth_le :: "nat \<Rightarrow> node \<Rightarrow> bool" where
  "depth_le k n \<longleftrightarrow> (\<forall>q. lookup n q \<noteq> None \<longrightarrow> length q \<le> k)"

lemma depth_le_entry: "depth_le k (NDir es) \<Longrightarrow> map_of es x = Some m \<Longrightarrow> 0 < k \<and> depth_le (k - 1) m"
proof -
  assume d: "depth_le k (NDir es)" and m: "map_of es x = Some m"
  have "length (x # q) \<le> k" if "lookup m q \<noteq> None" for q
    using d m that unfolding depth_le_def by (metis lookup.simps(2) option.simps(5))
  from this [of "[]"] this show ?thesis by (fastforce simp: depth_le_def)
qed

lemma rm_file:
  assumes "calm c" "path_to path p c" "lookup (fs c) p = Some m" "\<forall>es. m \<noteq> NDir es"
  shows "\<exists>c'. rm_r (Suc n) (Some path) c = Some (0, c') \<and> fs_becomes c (put_node (fs c) p None) c'"
proof -
  have "place (fs c) p" using assms(2,3) by (auto simp: path_to_def intro: lookup_place)
  then have "at_path path c = (Inr p, c)" using assms(1,2) path_to_resolve calm_at_path by metis
  with assms(3,4) show ?thesis
    by (cases m) (auto simp: lstat_def fs_unlink_def fs_becomes_def intro: exI [of _ "errno c"])
qed

lemma rm_dir_open:
  assumes "calm c" "path_to path p c" "lookup (fs c) p = Some (NDir es)"
  shows "rm_r (Suc n) (Some path) c = do {
     c \<leftarrow> rm_entries n path ((''.'', NDir []) # (''..'', NDir []) # es) c;
     let (ret, c) = fs_rmdir path c;
     if ret < 0 then Some (-1, c) else Some (0, c) }"
proof -
  have "place (fs c) p" using assms(2,3) by (auto simp: path_to_def intro: lookup_place)
  then have "at_path path c = (Inr p, c)" using assms(1,2) path_to_resolve calm_at_path by metis
  with assms(3) show ?thesis by (simp add: lstat_def opendir_def)
qed

lemma rm_dir_close:
  assumes "calm c" "path_to path p c" "lookup (fs c) p = Some (NDir [])"
  shows "\<exists>c'. fs_rmdir path c = (0, c') \<and> fs_becomes c (put_node (fs c) p None) c'"
proof -
  have "place (fs c) p" using assms(2,3) by (auto simp: path_to_def intro: lookup_place)
  then have "at_path path c = (Inr p, c)" using assms(1,2) path_to_resolve calm_at_path by metis
  moreover have "p \<noteq> []" using assms(2) by (simp add: path_to_def)
  ultimately show ?thesis
    using assms(3) by (auto simp: fs_rmdir_def fs_becomes_def intro: exI [of _ "errno c"])
qed

text \<open>The entries of the list leave the directory, one by one; the rest of it stays.\<close>

lemma rm_gone:
  assumes "calm c" "path_to path p c" "lookup (fs c) p = None"
  shows "\<exists>c'. rm_r (Suc n) (Some path) c = Some (-1, c') \<and> fs_becomes c (fs c) c'"
proof -
  have "lstat path c = (None, fail_with e c)" if "resolve c path = Inl e" for e
    using that calm_at_path [OF assms(1)] by (simp add: lstat_def)
  moreover have "lstat path c = (None, fail_with ENOENT c)" if "resolve c path = Inr q" for q
    using that calm_at_path [OF assms(1)] resolve_plain [OF _ that] assms(2,3)
    by (simp add: lstat_def path_to_def)
  ultimately obtain e where "lstat path c = (None, fail_with e c)"
    by (cases "resolve c path") auto
  then show ?thesis by (auto simp: fs_becomes_def fail_with_def intro: exI [of _ e])
qed


lemma set_entry_same: "map_of es x = Some n \<Longrightarrow> set_entry x n es = es"
  by (induction es) (auto split: if_splits)

lemma put_same: "place r p \<Longrightarrow> lookup r p = Some n \<Longrightarrow> put_node r p (Some n) = r"
proof (induction p arbitrary: r)
  case Nil
  then show ?case by (simp add: place_def)
next
  case (Cons x xs)
  then show ?case
    by (cases r) (auto simp: place_Cons set_entry_same split: option.splits)
qed

lemma depth_le_filter: "depth_le k (NDir es) \<Longrightarrow> depth_le k (NDir (filter (\<lambda>e. fst e \<noteq> x) es))"
  unfolding depth_le_def
proof (intro allI impI)
  fix q assume d: "\<forall>q. lookup (NDir es) q \<noteq> None \<longrightarrow> length q \<le> k"
    and q: "lookup (NDir (filter (\<lambda>e. fst e \<noteq> x) es)) q \<noteq> None"
  show "length q \<le> k"
  proof (cases q)
    case (Cons y ys)
    with q have "lookup (NDir es) q \<noteq> None"
      by (auto simp: map_of_drop_entry split: option.splits if_splits)
    with d show ?thesis by blast
  qed simp
qed

definition rm_works :: "nat \<Rightarrow> 'a io_scheme itself \<Rightarrow> bool" where
  "rm_works n ty \<longleftrightarrow> (\<forall>path p m (c :: 'a io_scheme). calm c \<longrightarrow> path_to path p c \<longrightarrow> lookup (fs c) p = Some m \<longrightarrow>
     fits (fs c) path \<longrightarrow> depth_le (n - 1) m \<longrightarrow>
     (\<exists>c'. rm_r n (Some path) c = Some (0, c') \<and> fs_becomes c (put_node (fs c) p None) c'))"

lemma rm_entries_exact:
  assumes ih: "rm_works (Suc n) TYPE('a io_scheme)"
  shows "calm (c :: 'a io_scheme) \<Longrightarrow> path_to path p c \<Longrightarrow> lookup (fs c) p = Some (NDir ds) \<Longrightarrow> fits (fs c) path \<Longrightarrow>
    depth_le (Suc n) (NDir ds) \<Longrightarrow> \<forall>x \<in> fst ` set es. plain_name x \<and> length (path @ ''/'' @ x) < PATH_MAX \<Longrightarrow>
    \<exists>c'. rm_entries (Suc n) path es c = Some c' \<and>
      fs_becomes c (put_node (fs c) p (Some (NDir (filter (\<lambda>e. fst e \<notin> fst ` set es) ds)))) c'"
proof (induction es arbitrary: c ds)
  case Nil
  then have "place (fs c) p" by (auto simp: path_to_def intro: lookup_place)
  with Nil show ?case by (auto simp: put_same intro: fs_becomes_refl)
next
  case (Cons e es)
  obtain x m0 where e: "e = (x, m0)" by (cases e)
  have x: "plain_name x" "length (path @ ''/'' @ x) < PATH_MAX" using Cons.prems(6) e by auto
  have pl: "place (fs c) p" using Cons.prems(2,3) by (auto simp: path_to_def intro: lookup_place)
  have path: "plain_path path" "segments path = p" using Cons.prems(2) by (auto simp: path_to_def)
  note sub = plain_path_sub [OF path(1) x(1)]
  have to: "path_to (path @ ''/'' @ x) (p @ [x]) c"
    using sub x(2) path(2) by (simp add: path_to_def)
  have fp: "snprintf_str PATH_MAX (path @ ''/'' @ x) = path @ ''/'' @ x" by (rule snprintf_str_id [OF x(2)])
  let ?ds = "filter (\<lambda>e. fst e \<noteq> x) ds"
  have "\<exists>r c1. rm_r (Suc n) (Some (path @ ''/'' @ x)) c = Some (r, c1) \<and>
      fs_becomes c (put_node (fs c) p (Some (NDir ?ds))) c1"
  proof (cases "map_of ds x")
    case None
    then have "lookup (fs c) (p @ [x]) = None" using Cons.prems(3) by (simp add: lookup_append)
    moreover have "?ds = ds" using None by (auto simp: map_of_eq_None_iff filter_id_conv)
    ultimately show ?thesis
      using rm_gone [OF Cons.prems(1) to, of n] put_same [OF pl Cons.prems(3)] by metis
  next
    case (Some m)
    then have l: "lookup (fs c) (p @ [x]) = Some m" using Cons.prems(3) by (simp add: lookup_append)
    have "depth_le (Suc n - 1) m" using depth_le_entry [OF Cons.prems(5) Some] by simp
    moreover have "fits (fs c) (path @ ''/'' @ x)" by (rule fits_sub [OF Cons.prems(4) path(1) x(1)])
    ultimately obtain c1 where "rm_r (Suc n) (Some (path @ ''/'' @ x)) c = Some (0, c1)"
      "fs_becomes c (put_node (fs c) (p @ [x]) None) c1"
      using ih Cons.prems(1) to l unfolding rm_works_def by blast
    then show ?thesis by (simp add: put_node_entry [OF pl Cons.prems(3)])
  qed
  then obtain r c1 where r: "rm_r (Suc n) (Some (path @ ''/'' @ x)) c = Some (r, c1)"
    and b: "fs_becomes c (put_node (fs c) p (Some (NDir ?ds))) c1" by blast
  note f1 = fs_becomesD [OF b]
  have c1: "calm c1" "lookup (fs c1) p = Some (NDir ?ds)" "path_to path p c1"
    using Cons.prems(1,2) f1 lookup_put_same [OF pl] by (auto simp: calm_def path_to_def)
  have "put_node (fs c) p (Some (NDir ?ds)) = put_node (fs c) (p @ [x]) None"
    by (rule put_node_entry [OF pl Cons.prems(3), symmetric])
  moreover have "place (fs c) (p @ [x])" using Cons.prems(3) by (simp add: place_def)
  ultimately have "shrinks (fs c) (fs c1)" using f1 shrinks_drop by metis
  then have ft: "fits (fs c1) path" using Cons.prems(4) by (rule fits_shrinks)
  have "\<forall>x \<in> fst ` set es. plain_name x \<and> length (path @ ''/'' @ x) < PATH_MAX" using Cons.prems(6) by simp
  from Cons.IH [OF c1(1,3,2) ft depth_le_filter [OF Cons.prems(5)] this] obtain c2 where
    c2: "rm_entries (Suc n) path es c1 = Some c2"
      "fs_becomes c1 (put_node (fs c1) p (Some (NDir (filter (\<lambda>e. fst e \<notin> fst ` set es) ?ds)))) c2" by blast
  have "filter (\<lambda>e. fst e \<notin> fst ` set es) ?ds = filter (\<lambda>e. fst e \<notin> fst ` set ((x, m0) # es)) ds"
    by (auto intro: filter_cong)
  with c2(2) f1 have "fs_becomes c1 (put_node (fs c) p (Some (NDir (filter (\<lambda>e. fst e \<notin> fst ` set ((x, m0) # es)) ds)))) c2"
    by (simp add: put_put [OF pl])
  then have "fs_becomes c (put_node (fs c) p (Some (NDir (filter (\<lambda>e. fst e \<notin> fst ` set ((x, m0) # es)) ds)))) c2"
    by (rule fs_becomes_trans [OF b])
  moreover have "rm_entries (Suc n) path (e # es) c = Some c2"
    using e r c2(1) fp plain_name_dots [OF x(1)] by simp
  ultimately show ?case unfolding e by blast
qed

lemma rm_r_works: "rm_works (Suc n) TYPE('a io_scheme)"
proof (induction n)
  case 0
  show ?case
    unfolding rm_works_def
  proof (intro allI impI)
    fix path p m and c :: "'a io_scheme"
    assume c: "calm c" and to: "path_to path p c" and l: "lookup (fs c) p = Some m"
      and ft: "fits (fs c) path" and d: "depth_le (Suc 0 - 1) m"
    show "\<exists>c'. rm_r (Suc 0) (Some path) c = Some (0, c') \<and> fs_becomes c (put_node (fs c) p None) c'"
    proof (cases "\<exists>es. m = NDir es")
      case False
      with rm_file [OF c to l] show ?thesis by blast
    next
      case True
      then obtain es where m: "m = NDir es" by blast
      have "es = []"
      proof (cases es)
        case (Cons e es')
        then have "map_of es (fst e) = Some (snd e)" by simp
        with depth_le_entry [of 0 es] d m show ?thesis by auto
      qed simp
      with rm_dir_open [OF c to, of es 0] rm_dir_close [OF c to] l m show ?thesis
        by (auto simp: Let_def)
    qed
  qed
next
  case (Suc n)
  show ?case
    unfolding rm_works_def
  proof (intro allI impI)
    fix path p m and c :: "'a io_scheme"
    assume c: "calm c" and to: "path_to path p c" and l: "lookup (fs c) p = Some m"
      and ft: "fits (fs c) path" and d: "depth_le (Suc (Suc n) - 1) m"
    show "\<exists>c'. rm_r (Suc (Suc n)) (Some path) c = Some (0, c') \<and> fs_becomes c (put_node (fs c) p None) c'"
    proof (cases "\<exists>es. m = NDir es")
      case False
      with rm_file [OF c to l] show ?thesis by blast
    next
      case True
      then obtain es where m: "m = NDir es" by blast
      have pl: "place (fs c) p" using to l by (auto simp: path_to_def intro: lookup_place)
      have "\<forall>x \<in> fst ` set es. plain_name x \<and> length (path @ ''/'' @ x) < PATH_MAX"
        using fits_entry [OF ft] l m to by (auto simp: path_to_def)
      from rm_entries_exact [OF Suc c to l [unfolded m] ft _ this] d m obtain c1 where
        e: "rm_entries (Suc n) path es c = Some c1"
        "fs_becomes c (put_node (fs c) p (Some (NDir (filter (\<lambda>e. fst e \<notin> fst ` set es) es)))) c1" by auto
      have "filter (\<lambda>e. fst e \<notin> fst ` set es) es = []" by (simp add: filter_empty_conv)
      with e(2) have b: "fs_becomes c (put_node (fs c) p (Some (NDir []))) c1" by simp
      note f1 = fs_becomesD [OF b]
      have c1: "calm c1" "lookup (fs c1) p = Some (NDir [])" "path_to path p c1"
        using c to f1 lookup_put_same [OF pl] by (auto simp: calm_def path_to_def)
      from rm_dir_close [OF c1(1,3,2)] obtain c2 where
        c2: "fs_rmdir path c1 = (0, c2)" "fs_becomes c1 (put_node (fs c1) p None) c2" by blast
      have "fs_becomes c (put_node (fs c) p None) c2"
        using fs_becomes_trans [OF b c2(2)] f1 put_put [OF pl] by simp
      with rm_dir_open [OF c to, of es "Suc n"] l m e(1) c2(1) show ?thesis by simp
    qed
  qed
qed


section \<open>create_directories_from_path\<close>

text \<open>However the calls go, mkdir and the loop leave every file as it was.\<close>

lemma fs_mkdir_files: "fs_mkdir path c = (ret, c') \<Longrightarrow> (ret = 0 \<or> ret = -1) \<and> io_rel (keeps_files Q) c c'"
proof -
  assume run: "fs_mkdir path c = (ret, c')"
  obtain r c1 where a: "at_path (strip_slashes path) c = (r, c1)" by fastforce
  note s = at_path_same [OF a]
  show ?thesis
  proof (cases "\<exists>q. r = Inr q \<and> lookup (fs c1) q = None")
    case False
    with run a s show ?thesis
      by (auto simp: fs_mkdir_def intro: files.of_same split: sum.splits if_splits)
  next
    case True
    then obtain q where q: "r = Inr q" "lookup (fs c1) q = None" by blast
    then have "resolve c1 (strip_slashes path) = Inr q"
      using a by (auto simp: at_path_def split: prod.splits fs_event.splits)
    then have pl: "place (fs c1) q" using q(2) by (rule resolve_place)
    have "keeps_files Q (fs c1) (put_node (fs c1) q (Some (NDir [])))"
    proof (rule keeps_put_no_file [OF pl])
      show "lookup (fs c1) (q @ q') \<noteq> Some (NFile bs)" for q' bs
        using q(2) by (simp add: lookup_append)
      show "lookup n q' \<noteq> Some (NFile bs)" if "Some (NDir []) = Some n" for q' bs n
        using that by (cases q') auto
    qed
    with run a q s show ?thesis
      by (auto simp: fs_mkdir_def io_rel_def split: if_splits)
  qed
qed

lemma fs_mkdir_root: "fs_mkdir path c = (ret, c') \<Longrightarrow> fs c = NDir es \<Longrightarrow> \<exists>es'. fs c' = NDir es'"
proof -
  assume run: "fs_mkdir path c = (ret, c')" and es: "fs c = NDir es"
  obtain r c1 where a: "at_path (strip_slashes path) c = (r, c1)" by fastforce
  have f: "fs c1 = fs c" using io_sameD [OF at_path_same [OF a]] by blast
  show ?thesis
  proof (cases "fs c' = fs c")
    case False
    with run a f obtain q where q: "r = Inr q" "lookup (fs c1) q = None" "fs c' = put_node (fs c1) q (Some (NDir []))"
      by (auto simp: fs_mkdir_def fail_with_def split: sum.splits if_splits)
    then have "resolve c1 (strip_slashes path) = Inr q"
      using a by (auto simp: at_path_def split: prod.splits fs_event.splits)
    then have pl: "place (fs c1) q" using q(2) by (rule resolve_place)
    then have "strict_prefix [] q" by (cases q) (auto simp: place_def)
    from lookup_put_dirs [OF pl this] q(3) show ?thesis by auto
  qed (use es in simp)
qed

lemma mkdir_loop_files:
  assumes "mkdir_loop st c = Some y"
  shows "(fst y = 0 \<or> fst y = -3) \<and> io_rel (keeps_files Q) c (snd y)"
  using assms
proof (rule mkdir_loop.raw_induct
    [where P = "\<lambda>st c y. (fst y = 0 \<or> fst y = -3) \<and> io_rel (keeps_files Q) c (snd y)", rotated])
  fix rec :: "next_dir_state \<Rightarrow> 'a io_scheme \<Rightarrow> (int \<times> 'a io_scheme) option" and st c y
  assume ih: "\<And>st c y. rec st c = Some y \<Longrightarrow> (fst y = 0 \<or> fst y = -3) \<and> io_rel (keeps_files Q) c (snd y)"
    and run: "path_next_dir None 0 st \<bind>
      (\<lambda>(dir, st). case dir of None \<Rightarrow> Some (0, c)
        | Some d \<Rightarrow> let (ret, c) = fs_mkdir d c
            in if ret < 0 \<and> errno c \<noteq> EEXIST then Some (-3, c) else rec st c) = Some y"
  from run obtain dir st1 where d: "path_next_dir None 0 st = Some (dir, st1)"
    by (auto simp: bind_eq_Some_conv)
  show "(fst y = 0 \<or> fst y = -3) \<and> io_rel (keeps_files Q) c (snd y)"
  proof (cases dir)
    case None
    with run d show ?thesis by (auto simp: files.refl)
  next
    case (Some p)
    obtain r c1 where m: "fs_mkdir p c = (r, c1)" by fastforce
    have e: "io_rel (keeps_files Q) c c1" using fs_mkdir_files [OF m] by blast
    from run d Some m have "y = (-3, c1) \<or> rec st1 c1 = Some y" by (auto simp: Let_def split: if_splits)
    then show ?thesis
    proof
      assume "rec st1 c1 = Some y"
      with ih e show ?thesis by (blast intro: files.trans)
    qed (use e in simp)
  qed
qed

lemma create_directories_files:
  assumes "create_directories_from_path st0 ok root path c = Some (ret, c')"
  shows "ret \<in> {0, -1, -2, -3} \<and> io_rel (keeps_files Q) c c'"
proof -
  from assms have "(c' = c \<and> ret \<in> {-1, -2}) \<or> (\<exists>st. mkdir_loop st c = Some (ret, c'))"
    by (auto simp: create_directories_from_path_def Let_def bind_eq_Some_conv split: option.splits if_splits)
  then show ?thesis
  proof
    assume "\<exists>st. mkdir_loop st c = Some (ret, c')"
    then obtain st where "mkdir_loop st c = Some (ret, c')" ..
    from mkdir_loop_files [OF this, of Q] show ?thesis by auto
  qed (auto simp: files.refl)
qed

subsection \<open>When every call succeeds\<close>

text \<open>mkdir of a path whose parent directory exists.\<close>

lemma strip_slashes_one: "p \<noteq> [] \<Longrightarrow> last p \<noteq> CHR ''/'' \<Longrightarrow> strip_slashes p = p \<and> strip_slashes (p @ ''/'') = p"
  by (cases p rule: rev_cases) (auto simp: strip_slashes_def)

lemma fs_mkdir_calm:
  assumes c: "calm c" and path: "plain_path path" "segments path = p" "p \<noteq> []" "length path < PATH_MAX"
    "last path \<noteq> CHR ''/''" and t: "t = [] \<or> t = ''/''" and pl: "place (fs c) p"
  shows "fs_mkdir (path @ t) c = (case lookup (fs c) p of
      None \<Rightarrow> (0, c\<lparr>fs := put_node (fs c) p (Some (NDir []))\<rparr>)
    | Some n \<Rightarrow> (-1, fail_with EEXIST c))"
proof -
  have "path \<noteq> []" using path by auto
  then have "strip_slashes (path @ t) = path" using t path(5) strip_slashes_one by auto
  moreover have "resolve c path = Inr p" using path pl by (intro resolve_exists) auto
  ultimately show ?thesis
    using calm_at_path [OF c] by (auto simp: fs_mkdir_def split: option.splits)
qed

lemma render_plain_path:
  assumes "\<forall>s \<in> set zs. plain_name s" "zs \<noteq> []"
  shows "plain_path (render_tail zs)" "segments (render_tail zs) = zs" "last (render_tail zs) \<noteq> CHR ''/''"
    "NUL \<notin> set (render_tail zs)"
proof -
  have ok: "\<forall>s \<in> set zs. seg_ok s" using assms(1) by (auto simp: plain_name_def plain_seg_def)
  then show s: "segments (render_tail zs) = zs" by (rule segments_render_tail)
  from assms s show "plain_path (render_tail zs)"
    by (cases zs) (auto simp: plain_path_def render_tail_def)
  from ok assms(2) show "last (render_tail zs) \<noteq> CHR ''/''"
    by (cases zs rule: rev_cases) (auto simp: render_tail_snoc seg_ok_def, metis last_in_set)
  show "NUL \<notin> set (render_tail zs)"
    using assms(1) by (auto simp: render_tail_def plain_name_def NUL_def)
qed

text \<open>Everything on the way to a target is missing or a directory.\<close>

definition clear_way :: "node \<Rightarrow> string list \<Rightarrow> string list \<Rightarrow> bool" where
  "clear_way r xs ys \<longleftrightarrow> (\<exists>es. lookup r xs = Some (NDir es)) \<and>
     (\<forall>q. strict_prefix q ys \<longrightarrow> lookup r (xs @ q) = None \<or> (\<exists>es. lookup r (xs @ q) = Some (NDir es)))"

text \<open>All of it exists, and what existed stays: a file, too, when it is the target.\<close>

definition way_made :: "node \<Rightarrow> string list \<Rightarrow> string list \<Rightarrow> node \<Rightarrow> bool" where
  "way_made r xs ys r' \<longleftrightarrow>
     (\<forall>q. strict_prefix q ys \<longrightarrow> (\<exists>es. lookup r' (xs @ q) = Some (NDir es))) \<and>
     (if lookup r (xs @ ys) = None then lookup r' (xs @ ys) = Some (NDir []) else r' = r)"


text \<open>The buffer of path_next_dir: the path, with or without a slash at its end.\<close>

definition dir_buffer :: "string list \<Rightarrow> string \<Rightarrow> string" where
  "dir_buffer zs t = render_tail zs @ t"

lemma next_dir_component:
  assumes inv: "nd_inv (dir_buffer (xs @ y # ys) t) (length (render_tail xs)) st" and y: "seg_ok y"
    and t: "t = [] \<or> t = ''/''"
  shows "\<exists>st'. path_next_dir None 0 st = Some (Some (render_tail (xs @ [y])), st') \<and>
    nd_inv (dir_buffer ((xs @ [y]) @ ys) t) (length (render_tail (xs @ [y]))) st'"
proof -
  let ?s = "dir_buffer (xs @ y # ys) t" and ?k = "length (render_tail xs)"
  have s: "?s = render_tail xs @ CHR ''/'' # y @ render_tail ys @ t"
    by (simp add: dir_buffer_def render_tail_def)
  have k: "?k < length ?s" "?s ! ?k = CHR ''/''" unfolding s by (simp_all add: nth_append)
  have "takeWhile non_slash (y @ render_tail ys @ t) = y"
    using y t by (cases ys) (auto simp: render_tail_def seg_ok_def takeWhile_seg_append takeWhile_non_slash_id)
  then have cut: "next_cut ?s (Suc ?k) = length (render_tail (xs @ [y]))"
    unfolding s by (simp add: next_cut_def render_tail_def)
  have "take (length (render_tail (xs @ [y]))) ?s = render_tail (xs @ [y])"
    by (simp add: dir_buffer_def render_tail_def)
  with path_next_dir_next [OF inv k(1)] k(2) cut show ?thesis by auto
qed

lemma next_dir_slash:
  assumes inv: "nd_inv (dir_buffer zs ''/'') (length (render_tail zs)) st"
  shows "\<exists>st'. path_next_dir None 0 st = Some (Some (render_tail zs @ ''/''), st') \<and>
    nd_inv (dir_buffer zs ''/'') (length (dir_buffer zs ''/'')) st'"
proof -
  have k: "length (render_tail zs) < length (dir_buffer zs ''/'')"
    "dir_buffer zs ''/'' ! length (render_tail zs) = CHR ''/''"
    "next_cut (dir_buffer zs ''/'') (Suc (length (render_tail zs))) = length (dir_buffer zs ''/'')"
    by (simp_all add: dir_buffer_def next_cut_def)
  from path_next_dir_next [OF inv k(1)] k(2,3) show ?thesis by (auto simp: dir_buffer_def)
qed

lemma mkdir_loop_end: "path_next_dir None 0 st = Some (None, st') \<Longrightarrow> mkdir_loop st c = Some (0, c)"
  by (subst mkdir_loop.simps) simp

lemma mkdir_loop_next:
  "path_next_dir None 0 st = Some (Some d, st') \<Longrightarrow> fs_mkdir d c = (ret, c1) \<Longrightarrow> ret = 0 \<or> errno c1 = EEXIST \<Longrightarrow>
   mkdir_loop st c = mkdir_loop st' c1"
  by (subst mkdir_loop.simps) auto

lemma mkdir_loop_target:
  assumes inv: "nd_inv (dir_buffer zs t) (length (render_tail zs)) st" and t: "t = [] \<or> t = ''/''"
    and c: "calm c" and zs: "\<forall>s \<in> set zs. plain_name s" "zs \<noteq> []" and l: "lookup (fs c) zs \<noteq> None"
    and len: "length (dir_buffer zs t) < PATH_MAX"
  shows "\<exists>c'. mkdir_loop st c = Some (0, c') \<and> fs_becomes c (fs c) c'"
proof (cases "t = []")
  case True
  then have "path_next_dir None 0 st = Some (None, st)"
    using path_next_dir_last [of "dir_buffer zs t" st] inv by (simp add: dir_buffer_def)
  then show ?thesis using mkdir_loop_end [of st st c] fs_becomes_refl [of c] by auto
next
  case False
  with t have t: "t = ''/''" by simp
  from next_dir_slash [OF inv [unfolded t]] obtain st1 where
    n: "path_next_dir None 0 st = Some (Some (render_tail zs @ t), st1)"
      "nd_inv (dir_buffer zs t) (length (dir_buffer zs t)) st1" using t by auto
  note p = render_plain_path [OF zs]
  have pl: "place (fs c) zs" using l zs(2) lookup_place by blast
  have "length (render_tail zs) < PATH_MAX" using len by (simp add: dir_buffer_def)
  from fs_mkdir_calm [OF c p(1,2) zs(2) this p(3) _ pl, of t] t l
  have "fs_mkdir (render_tail zs @ t) c = (-1, fail_with EEXIST c)" by auto
  from mkdir_loop_next [OF n(1) this] mkdir_loop_end [OF path_next_dir_last [OF n(2)]]
  have "mkdir_loop st c = Some (0, fail_with EEXIST c)" by (simp add: fail_with_def)
  moreover have "fs_becomes c (fs c) (fail_with EEXIST c)"
    unfolding fs_becomes_def by (rule exI [of _ EEXIST]) (simp add: fail_with_def)
  ultimately show ?thesis by blast
qed

lemma clear_way_Cons:
  assumes "clear_way r xs (y # ys)" "ys \<noteq> []"
  shows "lookup r (xs @ [y]) = None \<or> clear_way r (xs @ [y]) ys"
proof (cases "lookup r (xs @ [y]) = None")
  case False
  have "strict_prefix [y] (y # ys)" using assms(2) by (cases ys) auto
  with assms(1) have "lookup r (xs @ [y]) = None \<or> (\<exists>es. lookup r (xs @ [y]) = Some (NDir es))"
    unfolding clear_way_def by blast
  with False have "\<exists>es. lookup r (xs @ [y]) = Some (NDir es)" by auto
  moreover have "lookup r ((xs @ [y]) @ q) = None \<or> (\<exists>es. lookup r ((xs @ [y]) @ q) = Some (NDir es))"
    if "strict_prefix q ys" for q
  proof -
    have "strict_prefix (y # q) (y # ys)" using that by simp
    with assms(1) show ?thesis unfolding clear_way_def by fastforce
  qed
  ultimately show ?thesis by (simp add: clear_way_def)
qed simp

lemma clear_way_new:
  assumes "place r zs"
  shows "clear_way (put_node r zs (Some (NDir []))) zs ys"
proof -
  have "lookup (NDir []) q = None \<or> lookup (NDir []) q = Some (NDir [])" for q by (cases q) auto
  then show ?thesis
    using lookup_put_same [OF assms, of "NDir []"] lookup_put_below [OF assms, of "Some (NDir [])"]
    by (auto simp: clear_way_def)
qed

lemma way_made_Cons:
  assumes w: "way_made r1 (xs @ [y]) ys r'" and xs: "\<exists>es. lookup r1 xs = Some (NDir es)"
    and r: "(lookup r (xs @ [y]) = None \<and> r1 = put_node r (xs @ [y]) (Some (NDir [])) \<and> place r (xs @ [y])) \<or>
      (lookup r (xs @ [y]) \<noteq> None \<and> r1 = r)"
  shows "way_made r xs (y # ys) r'"
proof -
  have l1: "lookup r1 (xs @ [y]) \<noteq> None" using r lookup_put_same by fastforce
  have dirs: "\<exists>es. lookup r' ((xs @ [y]) @ q) = Some (NDir es)" if "strict_prefix q ys" for q
    using w that by (simp add: way_made_def)
  have "lookup r' (xs @ [y]) \<noteq> None"
  proof (cases ys)
    case Nil
    with w l1 show ?thesis by (auto simp: way_made_def)
  next
    case (Cons a as)
    then have "strict_prefix [] ys" by simp
    from dirs [OF this] show ?thesis by auto
  qed
  then have "place r' (xs @ [y])" by (auto intro: lookup_place)
  then have top: "\<exists>es. lookup r' xs = Some (NDir es)" by (simp add: place_def)
  have "\<exists>es. lookup r' (xs @ q) = Some (NDir es)" if "strict_prefix q (y # ys)" for q
  proof (cases q)
    case (Cons a q')
    with that have "a = y" "strict_prefix q' ys" by auto
    with dirs Cons show ?thesis by simp
  qed (use top in simp)
  moreover have "if lookup r (xs @ y # ys) = None then lookup r' (xs @ y # ys) = Some (NDir []) else r' = r"
  proof (cases "lookup r (xs @ [y]) = None")
    case True
    then have "lookup r (xs @ y # ys) = None" using lookup_append [of r "xs @ [y]" ys] by simp
    moreover have "lookup r' (xs @ y # ys) = Some (NDir [])"
    proof (cases ys)
      case Nil
      with w r True l1 lookup_put_same show ?thesis by (auto simp: way_made_def)
    next
      case (Cons a as)
      have "lookup r1 ((xs @ [y]) @ ys) = None"
        using r True lookup_put_below [of r "xs @ [y]" "Some (NDir [])" ys] Cons by auto
      with w show ?thesis by (simp add: way_made_def)
    qed
    ultimately show ?thesis by simp
  next
    case False
    with r have "r1 = r" by simp
    moreover have "(xs @ [y]) @ ys = xs @ y # ys" by simp
    ultimately show ?thesis using w unfolding way_made_def by metis
  qed
  ultimately show ?thesis by (simp add: way_made_def)
qed

lemma mkdir_loop_makes:
  assumes t: "t = [] \<or> t = ''/''"
  shows "nd_inv (dir_buffer (xs @ ys) t) (length (render_tail xs)) st \<Longrightarrow> calm c \<Longrightarrow>
    \<forall>s \<in> set (xs @ ys). plain_name s \<Longrightarrow> xs \<noteq> [] \<Longrightarrow> clear_way (fs c) xs ys \<Longrightarrow>
    length (dir_buffer (xs @ ys) t) < PATH_MAX \<Longrightarrow>
    \<exists>c'. mkdir_loop st c = Some (0, c') \<and> way_made (fs c) xs ys (fs c') \<and> fs_becomes c (fs c') c'"
proof (induction ys arbitrary: xs st c)
  case Nil
  then have l: "lookup (fs c) xs \<noteq> None" by (auto simp: clear_way_def)
  from mkdir_loop_target [OF _ t Nil.prems(2) _ Nil.prems(4) l, of st] Nil.prems obtain c' where
    c': "mkdir_loop st c = Some (0, c')" "fs_becomes c (fs c) c'" by auto
  with l fs_becomesD [OF c'(2)] show ?case by (auto simp: way_made_def)
next
  case (Cons y ys)
  have y: "plain_name y" using Cons.prems(3) by simp
  then have "seg_ok y" by (simp add: plain_name_def plain_seg_def)
  from next_dir_component [OF Cons.prems(1) this t] obtain st1 where
    n: "path_next_dir None 0 st = Some (Some (render_tail (xs @ [y])), st1)"
      "nd_inv (dir_buffer ((xs @ [y]) @ ys) t) (length (render_tail (xs @ [y]))) st1" by blast
  have names: "\<forall>s \<in> set (xs @ [y]). plain_name s" "xs @ [y] \<noteq> []" "\<forall>s \<in> set ((xs @ [y]) @ ys). plain_name s"
    using Cons.prems(3) by auto
  note p = render_plain_path [OF names(1,2)]
  have len: "length (render_tail (xs @ [y])) < PATH_MAX" "length (dir_buffer ((xs @ [y]) @ ys) t) < PATH_MAX"
    using Cons.prems(6) by (simp_all add: dir_buffer_def render_tail_def)
  have xs: "\<exists>es. lookup (fs c) xs = Some (NDir es)" using Cons.prems(5) by (simp add: clear_way_def)
  then have pl: "place (fs c) (xs @ [y])" by (simp add: place_def)
  from fs_mkdir_calm [OF Cons.prems(2) p(1,2) names(2) len(1) p(3) _ pl, of "[]"]
  have m: "fs_mkdir (render_tail (xs @ [y])) c = (case lookup (fs c) (xs @ [y]) of
      None \<Rightarrow> (0, c\<lparr>fs := put_node (fs c) (xs @ [y]) (Some (NDir []))\<rparr>)
    | Some n \<Rightarrow> (-1, fail_with EEXIST c))" by simp
  show ?case
  proof (cases "lookup (fs c) (xs @ [y])")
    case None
    let ?c1 = "c\<lparr>fs := put_node (fs c) (xs @ [y]) (Some (NDir []))\<rparr>"
    have b: "fs_becomes c (fs ?c1) ?c1" unfolding fs_becomes_def by (rule exI [of _ "errno c"]) simp
    have c1: "calm ?c1" "clear_way (fs ?c1) (xs @ [y]) ys"
      using Cons.prems(2) clear_way_new [OF pl, of ys] by (simp_all add: calm_def)
    from Cons.IH [OF n(2) c1(1) names(3,2) c1(2) len(2)] obtain c' where
      c': "mkdir_loop st1 ?c1 = Some (0, c')" "way_made (fs ?c1) (xs @ [y]) ys (fs c')" "fs_becomes ?c1 (fs c') c'"
      by blast
    have "\<exists>es. lookup (fs ?c1) xs = Some (NDir es)"
      using lookup_put_dirs [OF pl, of xs "Some (NDir [])"] by (simp add: strict_prefix_def)
    from way_made_Cons [OF c'(2) this, of "fs c"] None pl have "way_made (fs c) xs (y # ys) (fs c')" by simp
    moreover have "mkdir_loop st c = mkdir_loop st1 ?c1"
      by (rule mkdir_loop_next [OF n(1), of c 0]) (simp_all add: m None)
    ultimately show ?thesis using c' fs_becomes_trans [OF b c'(3)] by auto
  next
    case (Some m0)
    let ?c1 = "fail_with EEXIST c"
    have b: "fs_becomes c (fs c) ?c1" unfolding fs_becomes_def by (rule exI [of _ EEXIST]) (simp add: fail_with_def)
    have c1: "calm ?c1" "fs ?c1 = fs c" using Cons.prems(2) by (simp_all add: calm_def fail_with_def)
    have "\<exists>c'. mkdir_loop st1 ?c1 = Some (0, c') \<and> way_made (fs ?c1) (xs @ [y]) ys (fs c') \<and> fs_becomes ?c1 (fs c') c'"
    proof (cases "ys = []")
      case True
      from mkdir_loop_target [OF _ t c1(1) names(1,2), of st1] n(2) Some c1(2) len(2) True obtain c' where
        c': "mkdir_loop st1 ?c1 = Some (0, c')" "fs_becomes ?c1 (fs ?c1) c'" by auto
      with fs_becomesD [OF c'(2)] Some c1(2) True show ?thesis by (auto simp: way_made_def)
    next
      case False
      with clear_way_Cons [OF Cons.prems(5)] Some have "clear_way (fs ?c1) (xs @ [y]) ys" using c1(2) by simp
      from Cons.IH [OF n(2) c1(1) names(3,2) this len(2)] show ?thesis .
    qed
    then obtain c' where c': "mkdir_loop st1 ?c1 = Some (0, c')" "way_made (fs ?c1) (xs @ [y]) ys (fs c')"
      "fs_becomes ?c1 (fs c') c'" by blast
    from way_made_Cons [OF c'(2), of "fs c"] xs Some c1(2) have "way_made (fs c) xs (y # ys) (fs c')" by simp
    moreover have "mkdir_loop st c = mkdir_loop st1 ?c1"
      by (rule mkdir_loop_next [OF n(1), of c "-1"]) (simp_all add: m Some fail_with_def)
    ultimately show ?thesis using c' fs_becomes_trans [OF b c'(3)] by auto
  qed
qed


lemma create_directories_run:
  assumes u: "uuid_text unparse" and len: "length user_path < 4045" and nul: "NUL \<notin> set user_path"
    and target: "user_target unparse user_path u = storage_segs @ unparse u # below"
    and names: "\<forall>s \<in> set below. plain_name s"
  shows "\<exists>t st. (t = [] \<or> t = ''/'') \<and>
    create_directories_from_path st0 True (get_user_root unparse u) user_path c = mkdir_loop st c \<and>
    nd_inv (dir_buffer ((storage_segs @ [unparse u]) @ below) t) (length (render_tail (storage_segs @ [unparse u]))) st \<and>
    length (dir_buffer ((storage_segs @ [unparse u]) @ below) t) < PATH_MAX \<and>
    (\<forall>s \<in> set ((storage_segs @ [unparse u]) @ below). plain_name s)"
proof -
  let ?root = "get_user_root unparse u" and ?xs = "storage_segs @ [unparse u]"
  let ?p = "?root @ ''/'' @ user_path"
  have root: "?root = render_tail ?xs" "length ?root = 49"
    using get_user_root_render [OF u] length_get_user_root [OF u] by simp_all
  have p: "?p \<noteq> []" "hd ?p = CHR ''/''" by (auto simp: get_user_root_eq [OF u] STORAGE_DIR_def)
  have abs: "snprintf_str PATH_MAX ?p = ?p" using root(2) len by (simp add: PATH_MAX_def)
  have kept: "kept_path user_path = user_path" using len by (simp add: kept_path_def)
  note np = normalized_abs_out [OF p]
  have segs: "resolve_abs (segments ?p) = ?xs @ below"
    using target segments_append_slash [of ?root user_path] segments_get_user_root [OF u]
    by (simp add: user_target_def kept)
  have un: "plain_name (unparse u)"
    using uuid_text_seg [OF u, of u] by (simp add: plain_name_def)
  then have all: "\<forall>s \<in> set (?xs @ below). plain_name s"
    using names storage_segs_ok by (auto simp: plain_name_def storage_segs_def NUL_def)
  have ne: "?xs @ below \<noteq> []" by simp
  from abs_out_shape [OF np] segs obtain t where t: "t = [] \<or> t = ''/''" "normalized ?p = dir_buffer (?xs @ below) t"
    by (auto simp: render_abs_def dir_buffer_def)
  have "length (normalized ?p) \<le> length ?p + 1"
    using normalize_path_runs [of ?p] by (auto simp: normalized_def)
  then have l: "length (dir_buffer (?xs @ below) t) < PATH_MAX"
    using t(2) root(2) len by (simp add: PATH_MAX_def)
  have pre: "prefix ?root (dir_buffer (?xs @ below) t)"
    unfolding root by (simp add: dir_buffer_def render_tail_def)
  have nul': "NUL \<notin> set (dir_buffer (?xs @ below) t)"
    using render_plain_path(4) [OF all ne] t(1) by (auto simp: dir_buffer_def NUL_def)
  have "takeWhile non_slash (render_tail below @ t) = []"
    using t(1) by (cases below) (auto simp: render_tail_def)
  then have cut: "next_cut (dir_buffer (?xs @ below) t) (length ?root) = length ?root"
    unfolding root by (simp add: next_cut_def dir_buffer_def render_tail_def)
  have "int (length ?root) - 1 < int (length (dir_buffer (?xs @ below) t))"
    unfolding root by (simp add: dir_buffer_def render_tail_def)
  from path_next_dir_first [OF nul' _ this, of st0] cut root(2) obtain st d where
    st: "path_next_dir (Some (dir_buffer (?xs @ below) t)) (int (length ?root) - 1) st0 = Some (d, st)"
      "nd_inv (dir_buffer (?xs @ below) t) (length ?root) st" by auto
  have "strncmp_eq ?root (dir_buffer (?xs @ below) t) (length ?root)"
    using pre strncmp_eq_prefix by blast
  then have "create_directories_from_path st0 True ?root user_path c = mkdir_loop st c"
    using abs t(2) st(1) by (simp add: create_directories_from_path_def Let_def normalize_path_normalized)
  with t(1) st(2) [unfolded root(1)] l all show ?thesis unfolding root(1) by blast
qed

section \<open>A whole tree\<close>

text \<open>The levels of the recursion are bounded by the length of the paths.\<close>

lemma rm_r_tree:
  assumes "calm c" "path_to path p c" "lookup (fs c) p = Some m" "fits (fs c) path" "PATH_MAX \<le> fuel"
  shows "\<exists>c'. rm_r fuel (Some path) c = Some (0, c') \<and> fs_becomes c (put_node (fs c) p None) c'"
proof -
  obtain n where fuel: "fuel = Suc n" using assms(5) by (cases fuel) (auto simp: PATH_MAX_def)
  have "depth_le n m"
    unfolding depth_le_def
  proof (intro allI impI)
    fix q assume "lookup m q \<noteq> None"
    then have "lookup (fs c) (segments path @ q) \<noteq> None"
      using assms(2,3) by (auto simp: lookup_append path_to_def)
    with assms(4) have "length (render_tail q) < PATH_MAX" by (fastforce simp: fits_def)
    moreover have "length q \<le> length (render_tail q)" by (induction q) (auto simp: render_tail_def)
    ultimately show "length q \<le> n" using assms(5) fuel by simp
  qed
  then show ?thesis
    using rm_r_works [of n] assms(1-4) unfolding fuel rm_works_def diff_Suc_1 by blast
qed

section \<open>Properties\<close>

text \<open>
  C13. rm_r terminates and does its job: on a file or directory, with every name in it plain and
  every path in it short enough for the path buffer, and every call going as the tree has it, it
  returns 0 with fewer than PATH_MAX levels of recursion, and the tree is what it was without the
  subtree: nothing else of the process changes but errno.
\<close>

theorem rm_r_removes:
  assumes "calm c" "path_to path p c" "lookup (fs c) p = Some m" "fits (fs c) path" "PATH_MAX \<le> fuel"
  shows "\<exists>c'. rm_r fuel (Some path) c = Some (0, c') \<and> fs_becomes c (put_node (fs c) p None) c'"
  using assms by (rule rm_r_tree)

text \<open>A directory with a file and an empty directory in it.\<close>

definition sample_tree :: "(string \<times> node) list" where
  "sample_tree = [(''d'', NDir [(''f'', NFile [1]), (''e'', NDir [])]), (''g'', NFile [2])]"

lemma sample_plain: "plain_path ''/d''" "plain_name ''f''" "plain_name ''e''"
  by (simp_all add: plain_path_def plain_name_def plain_seg_def seg_ok_def NUL_def)

lemma sample_fits: "fits (NDir sample_tree) ''/d''"
  unfolding fits_def
proof (intro allI impI)
  fix q assume q: "lookup (NDir sample_tree) (segments ''/d'' @ q) \<noteq> None"
  then have "q = [] \<or> q = [''f''] \<or> q = [''e'']"
    by (cases q; cases "tl q") (auto simp: sample_tree_def split: if_splits)
  then show "(\<forall>s \<in> set q. plain_name s) \<and> length ''/d'' + length (render_tail q) < PATH_MAX"
    by (auto simp: sample_plain render_tail_def PATH_MAX_def)
qed

theorem rm_r_removes_witness:
  "\<exists>c'. rm_r PATH_MAX (Some ''/d'') (sample_io sample_tree []) = Some (0, c') \<and>
     fs_becomes (sample_io sample_tree []) (NDir [(''g'', NFile [2])]) c'"
proof -
  let ?c = "sample_io sample_tree []"
  have c: "calm ?c" "fs ?c = NDir sample_tree" by (simp_all add: calm_def sample_io_def)
  have l: "lookup (fs ?c) [''d''] = Some (NDir [(''f'', NFile [1]), (''e'', NDir [])])"
    using c by (simp add: sample_tree_def)
  have "path_to ''/d'' [''d''] ?c" by (simp add: path_to_def sample_plain PATH_MAX_def)
  from rm_r_removes [OF c(1) this l, of PATH_MAX] sample_fits c(2) show ?thesis
    by (simp add: sample_tree_def)
qed

text \<open>
  C22. rm_r returns and stays below its path, whatever the system calls answer: given a path with plain
  components to a tree whose paths fit the path buffer, it comes back with 0 or -1 after fewer than
  PATH_MAX levels of recursion, no file outside the subtree is changed, and nothing is created.
\<close>

theorem rm_r_confined:
  assumes "plain_path path" "segments path \<noteq> []" "fits (fs c) path" "PATH_MAX \<le> fuel"
  shows "\<exists>ret c'. rm_r fuel (Some path) c = Some (ret, c') \<and> (ret = 0 \<or> ret = -1) \<and>
    keeps_files (\<lambda>q. \<not> prefix (segments path) q) (fs c) (fs c') \<and> shrinks (fs c) (fs c')"
proof -
  have "0 < fuel" "PATH_MAX \<le> fuel + length path" using assms(4) by (simp_all add: PATH_MAX_def)
  from rm_returns(1) [OF refl assms(1-3) this] obtain ret c' where r: "rm_r fuel (Some path) c = Some (ret, c')" by fast
  with rm_effects(1) [OF r refl assms(1-3)] show ?thesis by (simp add: io_rel_def)
qed

theorem rm_r_confined_witness:
  "\<exists>c'. rm_r PATH_MAX (Some ''/d'') (sample_io sample_tree []\<lparr>fs_plan := [FsErr 5]\<rparr>) = Some (-1, c') \<and>
     lookup (fs c') [''g''] = Some (NFile [2])"
proof -
  let ?c = "sample_io sample_tree []\<lparr>fs_plan := [FsErr 5]\<rparr>"
  have f: "fs ?c = NDir sample_tree" by (simp add: sample_io_def)
  have r: "rm_r (Suc n) (Some ''/d'') ?c = Some (-1, fail_with 5 (sample_io sample_tree []))" for n
    by (simp add: lstat_def at_path_def fs_next_def sample_io_def)
  obtain n where n: "PATH_MAX = Suc n" by (metis PATH_MAX_def not0_implies_Suc zero_neq_numeral)
  have g: "lookup (fs ?c) [''g''] = Some (NFile [2])" "\<not> prefix (segments ''/d'') [''g'']"
    by (simp_all add: f sample_tree_def)
  have "segments ''/d'' \<noteq> []" "fits (fs ?c) ''/d''" using sample_fits f by simp_all
  from rm_r_confined [OF sample_plain(1) this, of PATH_MAX] r [of n] have
    "keeps_files (\<lambda>q. \<not> prefix (segments ''/d'') q) (fs ?c) (fs (fail_with 5 (sample_io sample_tree [])))"
    unfolding n by auto
  with g have "lookup (fs (fail_with 5 (sample_io sample_tree []))) [''g''] = Some (NFile [2])"
    unfolding keeps_files_def by blast
  with r [of n] show ?thesis unfolding n by blast
qed

text \<open>The whole call, for a target below the user's root.\<close>

lemma create_directories_works:
  assumes "uuid_text unparse" "length user_path < 4045" "NUL \<notin> set user_path"
    "user_target unparse user_path u = storage_segs @ unparse u # below" "\<forall>s \<in> set below. plain_name s"
    "calm c" "clear_way (fs c) (storage_segs @ [unparse u]) below"
  shows "\<exists>c'. create_directories_from_path st True (get_user_root unparse u) user_path c = Some (0, c') \<and>
    way_made (fs c) (storage_segs @ [unparse u]) below (fs c') \<and> keeps_files (\<lambda>_. True) (fs c) (fs c') \<and>
    fs_becomes c (fs c') c'"
proof -
  from create_directories_run [OF assms(1-5), of st c] obtain t st1 where
    r: "t = [] \<or> t = ''/''" "create_directories_from_path st True (get_user_root unparse u) user_path c = mkdir_loop st1 c"
      "nd_inv (dir_buffer ((storage_segs @ [unparse u]) @ below) t) (length (render_tail (storage_segs @ [unparse u]))) st1"
      "length (dir_buffer ((storage_segs @ [unparse u]) @ below) t) < PATH_MAX"
      "\<forall>s \<in> set ((storage_segs @ [unparse u]) @ below). plain_name s" by blast
  have "storage_segs @ [unparse u] \<noteq> []" by simp
  from mkdir_loop_makes [OF r(1,3) assms(6) r(5) this assms(7) r(4)] obtain c' where
    c': "mkdir_loop st1 c = Some (0, c')" "way_made (fs c) (storage_segs @ [unparse u]) below (fs c')"
      "fs_becomes c (fs c') c'" by blast
  from mkdir_loop_files [OF c'(1), of "\<lambda>_. True"] c' r(2) show ?thesis by (auto simp: io_rel_def)
qed

text \<open>
  C18. create_directories_from_path makes the directories of a path below the user's root that is
  not blocked by a file on the way: it returns 0, every directory on the way exists, and the
  target, if it was missing, is a new empty directory; nothing that existed is changed. So a
  target that is an existing file is reported as made, and stays a file.
\<close>

theorem create_directories_makes:
  assumes "uuid_text unparse" "length user_path < 4045" "NUL \<notin> set user_path"
    "user_target unparse user_path u = storage_segs @ unparse u # below" "\<forall>s \<in> set below. plain_name s"
    "calm c" "clear_way (fs c) (storage_segs @ [unparse u]) below"
  shows "\<exists>c'. create_directories_from_path st True (get_user_root unparse u) user_path c = Some (0, c') \<and>
    way_made (fs c) (storage_segs @ [unparse u]) below (fs c') \<and> keeps_files (\<lambda>_. True) (fs c) (fs c') \<and>
    fs_becomes c (fs c') c'"
  using create_directories_works [OF assms] .

definition sample_storage :: "(string \<times> node) list \<Rightarrow> (string \<times> node) list" where
  "sample_storage es = [(''var'', NDir [(''minibox'', NDir [(sample_uuid True, NDir es)])])]"

theorem create_directories_makes_witness:
  "\<exists>c'. create_directories_from_path next_dir_statics True (get_user_root sample_uuid True) ''a/b''
       (sample_io (sample_storage []) []) = Some (0, c') \<and>
     lookup (fs c') (storage_segs @ [sample_uuid True, ''a'', ''b'']) = Some (NDir [])"
proof -
  let ?c = "sample_io (sample_storage []) []"
  have f: "fs ?c = NDir (sample_storage [])" "calm ?c" by (simp_all add: sample_io_def calm_def)
  have "segments (kept_path ''a/b'') = [''a'', ''b'']" by (simp add: kept_path_def)
  then have t: "user_target sample_uuid ''a/b'' True = storage_segs @ sample_uuid True # [''a'', ''b'']"
    by (simp add: user_target_def resolve_abs_def abs_step_def storage_segs_def)
  have n: "\<forall>s \<in> set [''a'', ''b'']. plain_name s"
    by (simp add: plain_name_def plain_seg_def seg_ok_def NUL_def)
  have top: "lookup (fs ?c) (storage_segs @ [sample_uuid True]) = Some (NDir [])"
    by (simp add: f sample_storage_def storage_segs_def)
  have none: "lookup (fs ?c) ((storage_segs @ [sample_uuid True]) @ q) = None" if "q \<noteq> []" for q
    using that unfolding lookup_append [of _ _ q] top by (cases q) auto
  then have w: "clear_way (fs ?c) (storage_segs @ [sample_uuid True]) [''a'', ''b'']"
    using top unfolding clear_way_def by (metis append.right_neutral)
  have "length ''a/b'' < 4045" "NUL \<notin> set ''a/b''" by (simp_all add: NUL_def)
  from create_directories_makes [OF sample_uuid_text this t n f(2) w, of next_dir_statics] none [of "[''a'', ''b'']"]
  show ?thesis by (auto simp: way_made_def)
qed

end
