(* ===== verification/UserMap.thy ===== *)
theory UserMap
  imports Prelude
begin

text \<open>
  The hash map from user tokens to users: src/user_map.h and src/user_map.c. Entries live in a
  heap of addresses, 0 being NULL; a bucket is a chain of entries linked by their next fields.
  malloc does not clear memory, so the next field of a new entry is whatever its memory held: the
  heap says what that is (stale). None is an access through a pointer that is not an entry, or a
  walk that never ends. uuid_compare is libuuid's, a parameter; what the map relies on is that it
  returns 0 exactly on equal tokens (uuid_order).
\<close>

section \<open>Data\<close>

record 'u UserMapEntry =
  e_key :: uuid
  e_value :: 'u
  e_next :: addr

record UserMap =
  entries :: "addr list"
  count :: usize
  capacity :: usize

text \<open>
  The memory of entries: those allocated, the address malloc hands out next, what the next field
  of newly allocated memory holds, and the addresses that were freed.
\<close>

record 'u heap =
  cells :: "addr \<Rightarrow> 'u UserMapEntry option"
  brk :: addr
  stale :: "addr \<Rightarrow> addr"

definition uuid_size :: nat where
  "uuid_size = 16"

definition uuid_order :: "(uuid \<Rightarrow> uuid \<Rightarrow> int) \<Rightarrow> bool" where
  "uuid_order cmp \<longleftrightarrow> (\<forall>a b. length a = uuid_size \<longrightarrow> length b = uuid_size \<longrightarrow> (cmp a b = 0 \<longleftrightarrow> a = b))"

section \<open>Operations\<close>

definition umap_init :: "usize \<Rightarrow> UserMap" where
  "umap_init cap = \<lparr>entries = replicate (unat cap) NULL, count = 0, capacity = cap\<rparr>"

definition hash_step :: "u64 \<Rightarrow> byte \<Rightarrow> u64" where
  "hash_step h c = (push_bit 5 h + h) + ucast c"

definition hash :: "byte list \<Rightarrow> nat \<Rightarrow> u64" where
  "hash str len = foldl hash_step 5381 (take len str)"

text \<open>The remainder by a capacity of 0 is a trap.\<close>

definition umap_key_to_index :: "UserMap \<Rightarrow> uuid \<Rightarrow> nat option" where
  "umap_key_to_index umap key =
     (if capacity umap = 0 then None else Some (unat (hash key uuid_size mod capacity umap)))"

definition slot :: "UserMap \<Rightarrow> nat \<Rightarrow> addr option" where
  "slot umap idx = (if idx < length (entries umap) then Some (entries umap ! idx) else None)"

definition malloc_entry :: "uuid \<Rightarrow> 'u \<Rightarrow> 'u heap \<Rightarrow> addr \<times> 'u heap" where
  "malloc_entry key val h =
     (brk h, h\<lparr>cells := (cells h)(brk h \<mapsto> \<lparr>e_key = key, e_value = val, e_next = stale h (brk h)\<rparr>),
               brk := brk h + 1\<rparr>)"

definition free_entry :: "addr \<Rightarrow> 'u heap \<Rightarrow> 'u heap option" where
  "free_entry a h =
     (if a = NULL then Some h
      else if cells h a = None then None else Some (h\<lparr>cells := (cells h)(a := None)\<rparr>))"

partial_function (option) chain_end :: "'u heap \<Rightarrow> addr \<Rightarrow> addr option" where
  [code]: "chain_end h cur = do {
     e \<leftarrow> cells h cur;
     if e_next e \<noteq> NULL then chain_end h (e_next e) else Some cur
   }"

definition umap_put ::
  "(uuid \<Rightarrow> uuid \<Rightarrow> int) \<Rightarrow> UserMap \<Rightarrow> uuid \<Rightarrow> 'u \<Rightarrow> 'u heap \<Rightarrow> (int \<times> UserMap \<times> 'u heap) option" where
  "umap_put cmp umap key val h = do {
     idx \<leftarrow> umap_key_to_index umap key;
     let (new_entry, h) = malloc_entry key val h;
     first \<leftarrow> slot umap idx;
     if first = NULL
     then Some (0, umap\<lparr>entries := (entries umap)[idx := new_entry], count := count umap + 1\<rparr>, h)
     else do {
       e \<leftarrow> cells h first;
       if cmp (e_key e) key = 0 then Some (-1, umap, h)
       else do {
         cur \<leftarrow> chain_end h first;
         e \<leftarrow> cells h cur;
         Some (0, umap\<lparr>count := count umap + 1\<rparr>,
               h\<lparr>cells := (cells h)(cur \<mapsto> e\<lparr>e_next := new_entry\<rparr>)\<rparr>)
       }
     }
   }"

text \<open>The walk along a chain: whether an entry with the key is on it.\<close>

partial_function (option) chain_has ::
  "(uuid \<Rightarrow> uuid \<Rightarrow> int) \<Rightarrow> 'u heap \<Rightarrow> uuid \<Rightarrow> addr \<Rightarrow> bool option" where
  [code]: "chain_has cmp h key cur =
     (if cur = NULL then Some False
      else do {
        e \<leftarrow> cells h cur;
        if cmp (e_key e) key = 0 then Some True else chain_has cmp h key (e_next e)
      })"

text \<open>
  umap_get leaves *out alone when it returns -1. When the key is found behind the first entry of
  its chain, the value stored to *out is the first entry's.
\<close>

definition umap_get ::
  "(uuid \<Rightarrow> uuid \<Rightarrow> int) \<Rightarrow> UserMap \<Rightarrow> uuid \<Rightarrow> 'u option \<Rightarrow> 'u heap \<Rightarrow> (int \<times> 'u option) option" where
  "umap_get cmp umap key out h = do {
     idx \<leftarrow> umap_key_to_index umap key;
     first \<leftarrow> slot umap idx;
     if first = NULL then Some (-1, out)
     else do {
       e \<leftarrow> cells h first;
       if cmp (e_key e) key = 0 then Some (0, Some (e_value e))
       else do {
         found \<leftarrow> chain_has cmp h key first;
         if found then Some (0, Some (e_value e)) else Some (-1, out)
       }
     }
   }"

text \<open>
  umap_entry_free frees the entries of a chain and, but for the last one, their users; the list
  collects the values handed to umap_value_free.
\<close>

partial_function (option) umap_entry_free :: "addr \<Rightarrow> 'u heap \<Rightarrow> ('u list \<times> 'u heap) option" where
  [code]: "umap_entry_free cur h = do {
     e \<leftarrow> cells h cur;
     if e_next e \<noteq> NULL
     then do {
       h \<leftarrow> free_entry cur h;
       (vs, h) \<leftarrow> umap_entry_free (e_next e) h;
       Some (e_value e # vs, h)
     }
     else do { h \<leftarrow> free_entry cur h; Some ([], h) }
   }"

fun free_all :: "addr list \<Rightarrow> 'u heap \<Rightarrow> 'u heap option" where
  "free_all [] h = Some h"
| "free_all (a # as) h = do { h \<leftarrow> free_entry a h; free_all as h }"

definition umap_free_entries :: "UserMap \<Rightarrow> 'u heap \<Rightarrow> 'u heap option" where
  "umap_free_entries umap h = free_all (take (unat (capacity umap)) (entries umap)) h"

section \<open>Chains\<close>

fun chain :: "'u heap \<Rightarrow> addr \<Rightarrow> addr list \<Rightarrow> bool" where
  "chain h a [] \<longleftrightarrow> a = NULL"
| "chain h a (x # xs) \<longleftrightarrow> a = x \<and> x \<noteq> NULL \<and> (\<exists>e. cells h x = Some e \<and> chain h (e_next e) xs)"

definition pair_at :: "'u heap \<Rightarrow> addr \<Rightarrow> uuid \<times> 'u" where
  "pair_at h a = (e_key (the (cells h a)), e_value (the (cells h a)))"

lemma chain_end_chain: "chain h a (xs @ [x]) \<Longrightarrow> chain_end h a = Some x"
proof (induction xs arbitrary: a)
  case Nil
  then show ?case by (subst chain_end.simps) auto
next
  case (Cons y ys)
  then obtain e where "a = y" "cells h y = Some e" "chain h (e_next e) (ys @ [x])" by auto
  moreover from this(3) have "e_next e \<noteq> NULL" by (cases ys) auto
  ultimately show ?case using Cons.IH by (subst chain_end.simps) simp
qed

lemma chain_has_chain:
  "chain h a xs \<Longrightarrow> uuid_order cmp \<Longrightarrow> length key = uuid_size \<Longrightarrow>
   \<forall>x \<in> set xs. length (fst (pair_at h x)) = uuid_size \<Longrightarrow>
   chain_has cmp h key a = Some (\<exists>x \<in> set xs. fst (pair_at h x) = key)"
proof (induction xs arbitrary: a)
  case Nil
  then show ?case by (subst chain_has.simps) simp
next
  case (Cons x xs)
  then obtain e where e: "a = x" "x \<noteq> NULL" "cells h x = Some e" "chain h (e_next e) xs" by auto
  with Cons.prems have "cmp (e_key e) key = 0 \<longleftrightarrow> e_key e = key"
    by (simp add: uuid_order_def pair_at_def)
  with e Cons show ?case by (subst chain_has.simps) (auto simp: pair_at_def)
qed

lemma chain_cong:
  "chain h a xs \<Longrightarrow> \<forall>x \<in> set xs. cells h' x = cells h x \<Longrightarrow> chain h' a xs"
  by (induction xs arbitrary: a) auto

lemma chain_unique: "chain h a xs \<Longrightarrow> chain h a ys \<Longrightarrow> xs = ys"
  by (induction xs arbitrary: a ys; case_tac ys) auto

lemma chain_append:
  assumes "chain h a (xs @ [x])" "distinct (xs @ [x])" "cells h x = Some e"
    "cells h n = Some f" "e_next f = NULL" "n \<noteq> NULL" "n \<notin> set (xs @ [x])"
  shows "chain (h\<lparr>cells := (cells h)(x \<mapsto> e\<lparr>e_next := n\<rparr>)\<rparr>) a (xs @ [x, n])"
  using assms
proof (induction xs arbitrary: a)
  case Nil
  then show ?case by auto
next
  case (Cons y ys)
  then show ?case by auto
qed

lemma chain_cells: "chain h a xs \<Longrightarrow> x \<in> set xs \<Longrightarrow> \<exists>e. cells h x = Some e \<and> x \<noteq> NULL"
  by (induction xs arbitrary: a) auto

section \<open>What the map represents\<close>

text \<open>
  umap_rep: bs lists the addresses of each bucket's chain; the chains are disjoint and below the
  break, and count is their total length. umap_view is the abstract map: for each bucket the list
  of keys and values in the order they were inserted.
\<close>

definition umap_rep :: "'u heap \<Rightarrow> UserMap \<Rightarrow> addr list list \<Rightarrow> bool" where
  "umap_rep h m bs \<longleftrightarrow>
     length bs = length (entries m) \<and> length (entries m) = unat (capacity m) \<and> capacity m \<noteq> 0 \<and>
     (\<forall>i < length bs. chain h (entries m ! i) (bs ! i) \<and> distinct (bs ! i) \<and>
        (\<forall>a \<in> set (bs ! i). a < brk h \<and> length (fst (pair_at h a)) = uuid_size)) \<and>
     (\<forall>i < length bs. \<forall>j < length bs. i \<noteq> j \<longrightarrow> set (bs ! i) \<inter> set (bs ! j) = {}) \<and>
     0 < brk h \<and> count m = of_nat (sum_list (map length bs))"

definition umap_view :: "'u heap \<Rightarrow> addr list list \<Rightarrow> (uuid \<times> 'u) list list" where
  "umap_view h bs = map (map (pair_at h)) bs"

definition bucket_of :: "usize \<Rightarrow> uuid \<Rightarrow> nat" where
  "bucket_of cap key = unat (hash key uuid_size mod cap)"

text \<open>The specification of the two operations on the abstract map.\<close>

definition put_spec ::
  "usize \<Rightarrow> uuid \<Rightarrow> 'u \<Rightarrow> (uuid \<times> 'u) list list \<Rightarrow> int \<times> (uuid \<times> 'u) list list" where
  "put_spec cap key val kvs =
     (let i = bucket_of cap key
      in if kvs ! i \<noteq> [] \<and> fst (hd (kvs ! i)) = key then (-1, kvs)
         else (0, kvs[i := kvs ! i @ [(key, val)]]))"

definition get_spec :: "usize \<Rightarrow> uuid \<Rightarrow> (uuid \<times> 'u) list list \<Rightarrow> 'u option" where
  "get_spec cap key kvs =
     (let b = kvs ! bucket_of cap key
      in if key \<in> fst ` set b then Some (snd (hd b)) else None)"

lemma bucket_of_less: "cap \<noteq> 0 \<Longrightarrow> bucket_of cap key < unat cap"
  by (simp add: bucket_of_def unat_mod word_neq_0_conv word_less_nat_alt)

lemma umap_repD:
  assumes "umap_rep h m bs"
  shows "length bs = length (entries m)" "length (entries m) = unat (capacity m)" "capacity m \<noteq> 0"
    "0 < brk h" "count m = of_nat (sum_list (map length bs))"
    "i < length bs \<Longrightarrow> chain h (entries m ! i) (bs ! i)" "i < length bs \<Longrightarrow> distinct (bs ! i)"
    "i < length bs \<Longrightarrow> a \<in> set (bs ! i) \<Longrightarrow> a < brk h"
    "i < length bs \<Longrightarrow> a \<in> set (bs ! i) \<Longrightarrow> length (fst (pair_at h a)) = uuid_size"
    "i < length bs \<Longrightarrow> j < length bs \<Longrightarrow> i \<noteq> j \<Longrightarrow> set (bs ! i) \<inter> set (bs ! j) = {}"
  using assms unfolding umap_rep_def by blast+

lemma umap_rep_slot:
  assumes "umap_rep h m bs"
  shows "umap_key_to_index m key = Some (bucket_of (capacity m) key)"
    "bucket_of (capacity m) key < length bs"
    "slot m (bucket_of (capacity m) key) = Some (entries m ! bucket_of (capacity m) key)"
    "chain h (entries m ! bucket_of (capacity m) key) (bs ! bucket_of (capacity m) key)"
proof -
  note R = umap_repD [OF assms]
  let ?i = "bucket_of (capacity m) key"
  show "umap_key_to_index m key = Some ?i"
    using R(3) by (simp add: umap_key_to_index_def bucket_of_def)
  have "?i < unat (capacity m)" using R(3) by (rule bucket_of_less)
  then show "?i < length bs" using R(1,2) by simp
  then show "slot m ?i = Some (entries m ! ?i)" "chain h (entries m ! ?i) (bs ! ?i)"
    using R(1,6) by (simp_all add: slot_def)
qed

lemma sum_list_snoc_bucket:
  "i < length bs \<Longrightarrow> sum_list (map length (bs[i := bs ! i @ [n]])) = Suc (sum_list (map length bs))"
  by (induction bs arbitrary: i) (auto split: nat.split)

lemma umap_rep_extend:
  assumes rep: "umap_rep h m bs" and i: "i < length bs"
    and es: "length es = length (entries m)" "\<forall>j < length bs. j \<noteq> i \<longrightarrow> es ! j = entries m ! j"
    and new: "pair_at h' (brk h) = (key, val)" "length key = uuid_size" "brk h' = Suc (brk h)"
    and old: "\<forall>x < brk h. pair_at h' x = pair_at h x"
    and here: "chain h' (es ! i) (bs ! i @ [brk h])"
    and others: "\<forall>j < length bs. j \<noteq> i \<longrightarrow> chain h' (entries m ! j) (bs ! j)"
  shows "umap_rep h' (m\<lparr>entries := es, count := count m + 1\<rparr>) (bs[i := bs ! i @ [brk h]])"
    and "umap_view h' (bs[i := bs ! i @ [brk h]]) =
      (umap_view h bs)[i := umap_view h bs ! i @ [(key, val)]]"
proof -
  let ?bs = "bs[i := bs ! i @ [brk h]]"
  have low: "\<forall>j < length bs. \<forall>a \<in> set (bs ! j). a < brk h \<and> length (fst (pair_at h a)) = uuid_size"
    using umap_repD(8,9) [OF rep] by blast
  have at: "?bs ! j = (if j = i then bs ! i @ [brk h] else bs ! j)" if "j < length bs" for j
    using that i by simp
  have "\<forall>j < length bs. chain h' (es ! j) (?bs ! j) \<and> distinct (?bs ! j) \<and>
      (\<forall>a \<in> set (?bs ! j). a < brk h' \<and> length (fst (pair_at h' a)) = uuid_size)"
  proof (intro allI impI)
    fix j assume j: "j < length bs"
    have "chain h' (es ! j) (?bs ! j)" using at [OF j] es(2) here others j by auto
    moreover have "distinct (?bs ! j)"
      using at [OF j] low j umap_repD(7) [OF rep] by fastforce
    moreover have "a < brk h' \<and> length (fst (pair_at h' a)) = uuid_size" if "a \<in> set (?bs ! j)" for a
    proof (cases "a = brk h")
      case True
      then show ?thesis using new by simp
    next
      case False
      with that at [OF j] have "a \<in> set (bs ! j)" by (auto split: if_splits)
      with low j have "a < brk h" "length (fst (pair_at h a)) = uuid_size" by auto
      then show ?thesis using old new(3) by auto
    qed
    ultimately show "chain h' (es ! j) (?bs ! j) \<and> distinct (?bs ! j) \<and>
      (\<forall>a \<in> set (?bs ! j). a < brk h' \<and> length (fst (pair_at h' a)) = uuid_size)" by blast
  qed
  moreover have "\<forall>j < length bs. \<forall>k < length bs. j \<noteq> k \<longrightarrow> set (?bs ! j) \<inter> set (?bs ! k) = {}"
  proof (intro allI impI)
    fix j k assume jk: "j < length bs" "k < length bs" "j \<noteq> k"
    then have "set (bs ! j) \<inter> set (bs ! k) = {}" by (rule umap_repD(10) [OF rep])
    moreover have "brk h \<notin> set (bs ! j)" "brk h \<notin> set (bs ! k)" using low jk by auto
    ultimately show "set (?bs ! j) \<inter> set (?bs ! k) = {}"
      using at [OF jk(1)] at [OF jk(2)] jk(3) by auto
  qed
  moreover define m' where "m' = m\<lparr>entries := es, count := count m + 1\<rparr>"
  then have m': "entries m' = es" "capacity m' = capacity m" "count m' = count m + 1" by simp_all
  moreover have "length bs = length es" "length es = unat (capacity m)" "capacity m \<noteq> 0" "0 < brk h'"
    "count m + 1 = of_nat (sum_list (map length ?bs))"
    using umap_repD(1-5) [OF rep] es(1) new(3) sum_list_snoc_bucket [OF i, of "brk h"] by simp_all
  ultimately have "umap_rep h' m' ?bs"
    unfolding umap_rep_def m' length_list_update by blast
  then show "umap_rep h' (m\<lparr>entries := es, count := count m + 1\<rparr>) ?bs" by (simp add: m'_def)
  have "map (pair_at h') (bs ! j) = map (pair_at h) (bs ! j)" if "j < length bs" for j
    using old low that by auto
  then have "map (map (pair_at h')) bs = umap_view h bs" "map (pair_at h') (bs ! i) = umap_view h bs ! i"
    using i by (simp_all add: umap_view_def list_eq_iff_nth_eq)
  then show "umap_view h' ?bs = (umap_view h bs)[i := umap_view h bs ! i @ [(key, val)]]"
    unfolding umap_view_def [of h'] map_update map_append list.map new(1) by simp
qed

lemma umap_rep_frame:
  assumes rep: "umap_rep h m bs" and same: "\<forall>x < brk h. cells h' x = cells h x" "brk h \<le> brk h'"
  shows "umap_rep h' m bs" "umap_view h' bs = umap_view h bs"
proof -
  note R = umap_repD [OF rep]
  have cells: "\<forall>a \<in> set (bs ! j). cells h' a = cells h a" if "j < length bs" for j
    using R(8) [OF that] same(1) by blast
  then have pairs: "\<forall>a \<in> set (bs ! j). pair_at h' a = pair_at h a" if "j < length bs" for j
    using that by (simp add: pair_at_def)
  have "chain h' (entries m ! j) (bs ! j)" if "j < length bs" for j
    using chain_cong [OF R(6) [OF that] cells [OF that]] .
  moreover have "a < brk h' \<and> length (fst (pair_at h' a)) = uuid_size"
    if "j < length bs" "a \<in> set (bs ! j)" for j a
    using R(8,9) [OF that] same(2) pairs [OF that(1)] that(2) by simp
  ultimately show "umap_rep h' m bs"
    using R same(2) unfolding umap_rep_def by (metis (no_types, lifting) less_le_trans)
  from pairs show "umap_view h' bs = umap_view h bs"
    by (simp add: umap_view_def list_eq_iff_nth_eq)
qed

text \<open>umap_put and umap_get do on the chains what the specification does on the abstract map.\<close>

text \<open>A new entry behind the last one of a chain.\<close>

lemma umap_rep_append:
  assumes rep: "umap_rep h m bs" and i: "i < length bs" and ys: "bs ! i = ys @ [y]" and g: "cells h y = Some g"
    and key: "length key = uuid_size"
    and h': "h' = h\<lparr>cells := (cells h)(brk h \<mapsto> \<lparr>e_key = key, e_value = val, e_next = NULL\<rparr>, y \<mapsto> g\<lparr>e_next := brk h\<rparr>),
      brk := brk h + 1\<rparr>"
  shows "umap_rep h' (m\<lparr>count := count m + 1\<rparr>) (bs[i := bs ! i @ [brk h]])"
    and "umap_view h' (bs[i := bs ! i @ [brk h]]) = (umap_view h bs)[i := umap_view h bs ! i @ [(key, val)]]"
proof -
  note R = umap_repD [OF rep]
  let ?n = "brk h"
  let ?f = "\<lparr>e_key = key, e_value = val, e_next = NULL\<rparr>"
  let ?h1 = "h\<lparr>cells := (cells h)(?n \<mapsto> ?f), brk := ?n + 1\<rparr>"
  have h2: "h' = ?h1\<lparr>cells := (cells ?h1)(y \<mapsto> g\<lparr>e_next := ?n\<rparr>)\<rparr>" by (simp add: h')
  have low: "?n \<notin> set (bs ! j)" if "j < length bs" for j using R(8) [OF that] by blast
  have keep: "chain ?h1 (entries m ! j) (bs ! j)" if "j < length bs" for j
    by (rule chain_cong [OF R(6) [OF that]]) (use low [OF that] in auto)
  have yn: "y \<noteq> ?n" using low [OF i] ys by auto
  have "chain h' (entries m ! i) (bs ! i @ [?n])"
    unfolding h2 using chain_append [of ?h1 "entries m ! i" ys y g ?n ?f] keep [OF i] R(7) [OF i] ys g yn low [OF i] R(4) by auto
  moreover have "\<forall>j < length bs. j \<noteq> i \<longrightarrow> chain h' (entries m ! j) (bs ! j)"
  proof (intro allI impI)
    fix j assume j: "j < length bs" "j \<noteq> i"
    then have "y \<notin> set (bs ! j)" using R(10) [OF j(1) i j(2)] ys by auto
    then show "chain h' (entries m ! j) (bs ! j)" unfolding h2 by (intro chain_cong [OF keep [OF j(1)]]) auto
  qed
  moreover have "pair_at h' ?n = (key, val)" "\<forall>z < ?n. pair_at h' z = pair_at h z" "brk h' = Suc ?n"
    using g yn by (auto simp: pair_at_def h')
  ultimately show "umap_rep h' (m\<lparr>count := count m + 1\<rparr>) (bs[i := bs ! i @ [?n]])"
    "umap_view h' (bs[i := bs ! i @ [?n]]) = (umap_view h bs)[i := umap_view h bs ! i @ [(key, val)]]"
    using umap_rep_extend [OF rep i, of "entries m" h' key val] key by auto
qed

lemma umap_put_sim:
  assumes rep: "umap_rep h m bs" and ord: "uuid_order cmp" and key: "length key = uuid_size"
    and clear: "stale h (brk h) = NULL"
  shows "\<exists>ret m' h' bs'. umap_put cmp m key val h = Some (ret, m', h') \<and> umap_rep h' m' bs' \<and>
    (ret, umap_view h' bs') = put_spec (capacity m) key val (umap_view h bs) \<and>
    capacity m' = capacity m \<and> stale h' = stale h"
proof -
  note R = umap_repD [OF rep]
  let ?i = "bucket_of (capacity m) key" and ?n = "brk h"
  note S = umap_rep_slot [OF rep, of key]
  define f where "f = \<lparr>e_key = key, e_value = val, e_next = NULL\<rparr>"
  define h1 where "h1 = h\<lparr>cells := (cells h)(?n \<mapsto> f), brk := ?n + 1\<rparr>"
  have m1: "malloc_entry key val h = (?n, h1)"
    using clear by (simp add: malloc_entry_def h1_def f_def)
  have h1: "cells h1 ?n = Some f" "\<forall>x. x \<noteq> ?n \<longrightarrow> cells h1 x = cells h x" "brk h1 = Suc ?n"
    "stale h1 = stale h" by (simp_all add: h1_def)
  have low: "?n \<notin> set (bs ! j)" if "j < length bs" for j using R(8) [OF that] by blast
  have keep: "chain h1 (entries m ! j) (bs ! j)" if "j < length bs" for j
    using chain_cong [OF R(6) [OF that]] low [OF that] h1(2) by metis
  have view: "umap_view h bs ! ?i = map (pair_at h) (bs ! ?i)" using S(2) by (simp add: umap_view_def)
  show ?thesis
  proof (cases "bs ! ?i")
    case Nil
    let ?es = "(entries m)[?i := ?n]"
    have first: "entries m ! ?i = NULL" using S(4) Nil by simp
    have put: "umap_put cmp m key val h = Some (0, m\<lparr>entries := ?es, count := count m + 1\<rparr>, h1)"
      using S(1,3) m1 first by (simp add: umap_put_def)
    have "pair_at h1 ?n = (key, val)" "\<forall>x < ?n. pair_at h1 x = pair_at h x"
      using h1 by (simp_all add: pair_at_def f_def)
    moreover have "chain h1 (?es ! ?i) (bs ! ?i @ [?n])"
      using Nil S(2) R(1,4) h1(1) by (simp add: f_def)
    ultimately have "umap_rep h1 (m\<lparr>entries := ?es, count := count m + 1\<rparr>) (bs[?i := bs ! ?i @ [?n]])"
      "umap_view h1 (bs[?i := bs ! ?i @ [?n]]) =
        (umap_view h bs)[?i := umap_view h bs ! ?i @ [(key, val)]]"
      using umap_rep_extend [OF rep S(2), of ?es h1 key val] h1(3) key keep by auto
    moreover have "put_spec (capacity m) key val (umap_view h bs) =
        (0, (umap_view h bs)[?i := umap_view h bs ! ?i @ [(key, val)]])"
      using view Nil by (simp add: put_spec_def)
    ultimately show ?thesis using put h1(4) by fastforce
  next
    case (Cons x xs)
    from S(4) Cons obtain e where e: "entries m ! ?i = x" "x \<noteq> NULL" "cells h x = Some e" by auto
    have xn: "x \<noteq> ?n" using low [OF S(2)] Cons by auto
    have pe: "pair_at h x = (e_key e, e_value e)" using e(3) by (simp add: pair_at_def)
    have eq: "cmp (e_key e) key = 0 \<longleftrightarrow> e_key e = key"
      using R(9) [OF S(2), of x] Cons pe ord key by (simp add: uuid_order_def)
    have hd: "umap_view h bs ! ?i = (e_key e, e_value e) # map (pair_at h) xs"
      using view Cons pe by simp
    show ?thesis
    proof (cases "e_key e = key")
      case True
      have "umap_put cmp m key val h = Some (-1, m, h1)"
        using S(1,3) m1 e xn h1(2) eq True by (simp add: umap_put_def)
      moreover have "umap_rep h1 m bs" "umap_view h1 bs = umap_view h bs"
        using umap_rep_frame [OF rep, of h1] h1(2,3) by simp_all
      moreover have "put_spec (capacity m) key val (umap_view h bs) = (-1, umap_view h bs)"
        using hd True by (simp add: put_spec_def)
      ultimately show ?thesis using h1(4) by fastforce
    next
      case False
      obtain ys y where ys: "bs ! ?i = ys @ [y]" using Cons by (metis append_butlast_last_id list.distinct(1))
      have yn: "y \<noteq> ?n" using low [OF S(2)] ys by auto
      obtain g where g: "cells h y = Some g" "y \<noteq> NULL" using chain_cells [OF S(4), of y] ys by auto
      let ?h2 = "h1\<lparr>cells := (cells h1)(y \<mapsto> g\<lparr>e_next := ?n\<rparr>)\<rparr>"
      have "chain_end h1 x = Some y"
        using chain_end_chain [of h1 "entries m ! ?i" ys y] keep [OF S(2)] ys e(1) by simp
      then have put: "umap_put cmp m key val h = Some (0, m\<lparr>count := count m + 1\<rparr>, ?h2)"
        using S(1,3) m1 e xn yn g h1(2) eq False by (simp add: umap_put_def)
      have "?h2 = h\<lparr>cells := (cells h)(?n \<mapsto> \<lparr>e_key = key, e_value = val, e_next = NULL\<rparr>, y \<mapsto> g\<lparr>e_next := ?n\<rparr>), brk := ?n + 1\<rparr>"
        by (simp add: h1_def f_def)
      note umap_rep_append [OF rep S(2) ys g(1) key this]
      moreover have "put_spec (capacity m) key val (umap_view h bs) =
          (0, (umap_view h bs)[?i := umap_view h bs ! ?i @ [(key, val)]])"
        using hd False by (simp add: put_spec_def)
      ultimately show ?thesis using put h1(4) by fastforce
    qed
  qed
qed

lemma umap_get_sim:
  assumes rep: "umap_rep h m bs" and ord: "uuid_order cmp" and key: "length key = uuid_size"
  shows "umap_get cmp m key out h =
    Some (case get_spec (capacity m) key (umap_view h bs) of Some v \<Rightarrow> (0, Some v) | None \<Rightarrow> (-1, out))"
proof -
  let ?i = "bucket_of (capacity m) key"
  note S = umap_rep_slot [OF rep, of key]
  have view: "umap_view h bs ! ?i = map (pair_at h) (bs ! ?i)" using S(2) by (simp add: umap_view_def)
  show ?thesis
  proof (cases "bs ! ?i")
    case Nil
    then show ?thesis using S view by (simp add: umap_get_def get_spec_def)
  next
    case (Cons x xs)
    from S(4) Cons obtain e where e: "entries m ! ?i = x" "x \<noteq> NULL" "cells h x = Some e" by auto
    have pe: "pair_at h x = (e_key e, e_value e)" using e(3) by (simp add: pair_at_def)
    note lens = umap_repD(9) [OF rep S(2)]
    have eq: "cmp (e_key e) key = 0 \<longleftrightarrow> e_key e = key"
      using lens [of x] Cons pe ord key by (simp add: uuid_order_def)
    have "chain_has cmp h key x = Some (\<exists>y \<in> set (x # xs). fst (pair_at h y) = key)"
      using chain_has_chain [OF _ ord key, of h x "x # xs"] S(4) e(1) Cons lens by simp
    then show ?thesis
      using S(1,3) view Cons e pe eq by (auto simp: umap_get_def get_spec_def image_iff)
  qed
qed

lemma umap_init_rep:
  assumes "cap \<noteq> 0" "0 < brk h"
  shows "umap_rep h (umap_init cap) (replicate (unat cap) [])"
    and "umap_view h (replicate (unat cap) []) = replicate (unat cap) []"
  using assms by (simp_all add: umap_rep_def umap_init_def umap_view_def sum_list_replicate)

section \<open>The user directory as an interface\<close>

text \<open>
  A store of values under keys, implemented over a state that represents an abstract one: put and
  get run and agree with the abstract operations. Whatever sequence of puts a client makes, the
  answer of get is then that of the abstract sequence.
\<close>

fun run_puts :: "('k \<Rightarrow> 'v \<Rightarrow> 's \<Rightarrow> (int \<times> 's) option) \<Rightarrow> ('k \<times> 'v) list \<Rightarrow> 's \<Rightarrow> 's option" where
  "run_puts put [] s = Some s"
| "run_puts put (p # ps) s = do { (_, s) \<leftarrow> put (fst p) (snd p) s; run_puts put ps s }"

locale keyed_store =
  fixes rep :: "'s \<Rightarrow> 'a \<Rightarrow> bool"
    and put :: "'k \<Rightarrow> 'v \<Rightarrow> 's \<Rightarrow> (int \<times> 's) option"
    and get :: "'k \<Rightarrow> 's \<Rightarrow> 'v option option"
    and put_a :: "'k \<Rightarrow> 'v \<Rightarrow> 'a \<Rightarrow> int \<times> 'a"
    and get_a :: "'k \<Rightarrow> 'a \<Rightarrow> 'v option"
    and key_ok :: "'k \<Rightarrow> bool"
  assumes put_sim: "rep s a \<Longrightarrow> key_ok k \<Longrightarrow>
      \<exists>s'. put k v s = Some (fst (put_a k v a), s') \<and> rep s' (snd (put_a k v a))"
    and get_sim: "rep s a \<Longrightarrow> key_ok k \<Longrightarrow> get k s = Some (get_a k a)"
begin

lemma run_sim:
  "rep s a \<Longrightarrow> \<forall>p \<in> set ps. key_ok (fst p) \<Longrightarrow>
   \<exists>s'. run_puts put ps s = Some s' \<and> rep s' (foldl (\<lambda>a p. snd (put_a (fst p) (snd p) a)) a ps)"
proof (induction ps arbitrary: s a)
  case Nil
  then show ?case by simp
next
  case (Cons p ps)
  then obtain s1 where
    "put (fst p) (snd p) s = Some (fst (put_a (fst p) (snd p) a), s1)"
    "rep s1 (snd (put_a (fst p) (snd p) a))" using put_sim by (metis list.set_intros(1))
  with Cons show ?case by simp
qed

lemma get_after_puts:
  assumes "rep s a" "\<forall>p \<in> set ps. key_ok (fst p)" "key_ok k"
  shows "\<exists>s'. run_puts put ps s = Some s' \<and>
    get k s' = Some (get_a k (foldl (\<lambda>a p. snd (put_a (fst p) (snd p) a)) a ps))"
  using run_sim [OF assms(1,2)] get_sim assms(3) by blast

end

text \<open>
  The hash map as such a store: its state is the comparison, the map and the memory, in which
  memory handed out by malloc happens to be clear.
\<close>

type_synonym 'u dir = "(uuid \<Rightarrow> uuid \<Rightarrow> int) \<times> UserMap \<times> 'u heap"

definition dir_rep :: "'u dir \<Rightarrow> usize \<times> (uuid \<times> 'u) list list \<Rightarrow> bool" where
  "dir_rep = (\<lambda>(cmp, m, h) (cap, kvs). uuid_order cmp \<and> (\<forall>a. stale h a = NULL) \<and> capacity m = cap \<and>
     (\<exists>bs. umap_rep h m bs \<and> kvs = umap_view h bs))"

definition dir_put :: "uuid \<Rightarrow> 'u \<Rightarrow> 'u dir \<Rightarrow> (int \<times> 'u dir) option" where
  "dir_put key val = (\<lambda>(cmp, m, h). do {
     (ret, m, h) \<leftarrow> umap_put cmp m key val h;
     Some (ret, cmp, m, h)
   })"

definition dir_get :: "uuid \<Rightarrow> 'u dir \<Rightarrow> 'u option option" where
  "dir_get key = (\<lambda>(cmp, m, h). do { (_, out) \<leftarrow> umap_get cmp m key None h; Some out })"

definition dir_put_spec ::
  "uuid \<Rightarrow> 'u \<Rightarrow> usize \<times> (uuid \<times> 'u) list list \<Rightarrow> int \<times> usize \<times> (uuid \<times> 'u) list list" where
  "dir_put_spec key val = (\<lambda>(cap, kvs). (fst (put_spec cap key val kvs), cap, snd (put_spec cap key val kvs)))"

definition dir_get_spec :: "uuid \<Rightarrow> usize \<times> (uuid \<times> 'u) list list \<Rightarrow> 'u option" where
  "dir_get_spec key = (\<lambda>(cap, kvs). get_spec cap key kvs)"

interpretation dir: keyed_store dir_rep dir_put dir_get dir_put_spec dir_get_spec
  "\<lambda>key :: uuid. length key = uuid_size"
proof unfold_locales
  fix s :: "'u dir" and a and key :: uuid and val
  assume r: "dir_rep s a" and key: "length key = uuid_size"
  obtain cmp m h cap kvs where s: "s = (cmp, m, h)" "a = (cap, kvs)"
    by (metis prod.exhaust)
  with r obtain bs where bs: "uuid_order cmp" "\<forall>a. stale h a = NULL" "capacity m = cap"
    "umap_rep h m bs" "kvs = umap_view h bs" by (auto simp: dir_rep_def)
  from umap_put_sim [OF bs(4,1) key, of val] bs obtain ret m' h' bs' where
    p: "umap_put cmp m key val h = Some (ret, m', h')" "umap_rep h' m' bs'"
      "put_spec cap key val kvs = (ret, umap_view h' bs')" "capacity m' = cap" "stale h' = stale h"
    by metis
  then have "dir_put key val s = Some (ret, cmp, m', h')"
    "dir_rep (cmp, m', h') (cap, umap_view h' bs')"
    using s bs by (auto simp: dir_put_def dir_rep_def)
  then show "\<exists>s'. dir_put key val s = Some (fst (dir_put_spec key val a), s') \<and>
      dir_rep s' (snd (dir_put_spec key val a))"
    using s(2) p(3) by (simp add: dir_put_spec_def)
  show "dir_get key s = Some (dir_get_spec key a)"
    using umap_get_sim [OF bs(4,1) key, of None] s bs(3,5)
    by (simp add: dir_get_def dir_get_spec_def split: option.splits)
qed

section \<open>What a history of registrations leaves\<close>

definition put_all_spec :: "usize \<Rightarrow> (uuid \<times> 'u) list \<Rightarrow> (uuid \<times> 'u) list list" where
  "put_all_spec cap regs =
     foldl (\<lambda>kvs p. snd (put_spec cap (fst p) (snd p) kvs)) (replicate (unat cap) []) regs"

definition in_bucket :: "usize \<Rightarrow> nat \<Rightarrow> (uuid \<times> 'u) list \<Rightarrow> (uuid \<times> 'u) list" where
  "in_bucket cap i regs = filter (\<lambda>p. bucket_of cap (fst p) = i) regs"

lemma put_all_spec_bucket:
  assumes cap: "cap \<noteq> 0"
  shows "length (put_all_spec cap regs) = unat cap \<and>
    (\<forall>i < unat cap. fst ` set (put_all_spec cap regs ! i) = fst ` set (in_bucket cap i regs) \<and>
       (in_bucket cap i regs \<noteq> [] \<longrightarrow> hd (put_all_spec cap regs ! i) = hd (in_bucket cap i regs)))"
proof (induction regs rule: rev_induct)
  case Nil
  then show ?case by (simp add: put_all_spec_def in_bucket_def)
next
  case (snoc p regs)
  let ?K = "put_all_spec cap regs" and ?b = "bucket_of cap (fst p)"
  have b: "?b < unat cap" by (rule bucket_of_less [OF cap])
  have step: "put_all_spec cap (regs @ [p]) = snd (put_spec cap (fst p) (snd p) ?K)"
    by (simp add: put_all_spec_def)
  have nil: "?K ! i = [] \<longleftrightarrow> in_bucket cap i regs = []" if "i < unat cap" for i
    using snoc that by (metis image_is_empty set_empty)
  show ?case
  proof (cases "?K ! ?b \<noteq> [] \<and> fst (hd (?K ! ?b)) = fst p")
    case True
    then have K: "put_all_spec cap (regs @ [p]) = ?K" by (simp add: step put_spec_def)
    have "fst p \<in> fst ` set (?K ! ?b)" using True by (metis hd_in_set image_eqI)
    then have "fst ` set (in_bucket cap i (regs @ [p])) = fst ` set (?K ! i)" if "i < unat cap" for i
      using snoc that by (auto simp: in_bucket_def)
    moreover have "hd (in_bucket cap i (regs @ [p])) = hd (?K ! i)"
      if "i < unat cap" "in_bucket cap i (regs @ [p]) \<noteq> []" for i
      using snoc that nil [OF that(1)] True by (auto simp: in_bucket_def)
    ultimately show ?thesis using snoc K by simp
  next
    case False
    then have K: "put_all_spec cap (regs @ [p]) = ?K[?b := ?K ! ?b @ [p]]"
      by (auto simp: step put_spec_def Let_def)
    show ?thesis
      using snoc nil b by (auto simp: K nth_list_update in_bucket_def hd_append)
  qed
qed

lemma in_bucket_key:
  "key \<in> fst ` set (in_bucket cap (bucket_of cap key) regs) \<longleftrightarrow> key \<in> fst ` set regs"
  by (auto simp: in_bucket_def)

lemma get_put_all_spec:
  assumes "cap \<noteq> 0"
  shows "get_spec cap key (put_all_spec cap regs) =
    (if key \<in> fst ` set regs then Some (snd (hd (in_bucket cap (bucket_of cap key) regs))) else None)"
proof -
  let ?b = "bucket_of cap key"
  have b: "?b < unat cap" by (rule bucket_of_less [OF assms])
  have "in_bucket cap ?b regs \<noteq> []" if "key \<in> fst ` set regs"
    using that in_bucket_key [of key cap regs] by auto
  then show ?thesis
    using put_all_spec_bucket [OF assms, of regs] b in_bucket_key [of key cap regs]
    by (simp add: get_spec_def)
qed

lemma dir_put_spec_fold:
  "foldl (\<lambda>a p. snd (dir_put_spec (fst p) (snd p) a)) (cap, kvs) regs =
   (cap, foldl (\<lambda>kvs p. snd (put_spec cap (fst p) (snd p) kvs)) kvs regs)"
  by (induction regs arbitrary: kvs) (simp_all add: dir_put_spec_def)

text \<open>
  The memory before the first allocation, whatever it holds; and the case that malloc happens to
  return cleared memory every time, which nothing promises.
\<close>

definition empty_heap :: "(addr \<Rightarrow> addr) \<Rightarrow> 'u heap" where
  "empty_heap mem = \<lparr>cells = \<lambda>_. None, brk = 1, stale = mem\<rparr>"

definition fresh_heap :: "'u heap" where
  "fresh_heap = empty_heap (\<lambda>_. NULL)"

lemma empty_heap_simps [simp]: "brk (empty_heap mem) = 1" "stale (empty_heap mem) = mem" "cells (empty_heap mem) = (\<lambda>_. None)"
  by (simp_all add: empty_heap_def)

lemma dir_history:
  fixes regs :: "(uuid \<times> 'a) list"
  assumes "uuid_order cmp" "cap \<noteq> 0" "\<forall>p \<in> set regs. length (fst p) = uuid_size" "length key = uuid_size"
  shows "\<exists>s. run_puts dir_put regs (cmp, umap_init cap, fresh_heap) = Some s \<and>
    dir_get key s = Some (get_spec cap key (put_all_spec cap regs))"
proof -
  have "dir_rep (cmp, umap_init cap, fresh_heap :: 'a heap) (cap, replicate (unat cap) [])"
  proof -
    have "umap_rep (fresh_heap :: 'a heap) (umap_init cap) (replicate (unat cap) [])"
      "umap_view (fresh_heap :: 'a heap) (replicate (unat cap) []) = replicate (unat cap) []"
      by (rule umap_init_rep [OF assms(2)]; simp add: fresh_heap_def)+
    moreover have "\<forall>a. stale (fresh_heap :: 'a heap) a = NULL" "capacity (umap_init cap) = cap"
      by (simp_all add: fresh_heap_def umap_init_def)
    ultimately show ?thesis
      unfolding dir_rep_def prod.case using assms(1)
      by (intro conjI exI [of _ "replicate (unat cap) []"]) simp_all
  qed
  from dir.get_after_puts [OF this, of regs key] assms(3,4) show ?thesis
    by (simp add: dir_put_spec_fold put_all_spec_def dir_get_spec_def)
qed

text \<open>
  Without collisions only the first entry of a bucket is ever made part of it, so it does not
  matter for umap_put what malloc returns: the first entry of each bucket is that of the first put
  into it, with the next field that its memory happened to hold.
\<close>

definition head_ok :: "(addr \<Rightarrow> addr) \<Rightarrow> (uuid \<times> 'u) list \<Rightarrow> 'u heap \<Rightarrow> addr \<Rightarrow> (uuid \<times> 'u) list \<Rightarrow> bool" where
  "head_ok mem regs h a ps \<longleftrightarrow> (case ps of
     [] \<Rightarrow> a = NULL
   | p # _ \<Rightarrow> \<exists>i < length regs. a = Suc i \<and> regs ! i = p \<and>
       cells h a = Some \<lparr>e_key = fst p, e_value = snd p, e_next = mem a\<rparr>)"

definition heads :: "usize \<Rightarrow> (addr \<Rightarrow> addr) \<Rightarrow> (uuid \<times> 'u) list \<Rightarrow> UserMap \<Rightarrow> 'u heap \<Rightarrow> bool" where
  "heads cap mem regs m h \<longleftrightarrow> capacity m = cap \<and> length (entries m) = unat cap \<and> stale h = mem \<and>
     brk h = Suc (length regs) \<and> (\<forall>a > length regs. cells h a = None) \<and>
     (\<forall>i < unat cap. head_ok mem regs h (entries m ! i) (in_bucket cap i regs))"

lemma in_bucket_snoc: "in_bucket cap i (regs @ [p]) = in_bucket cap i regs @ (if bucket_of cap (fst p) = i then [p] else [])"
  by (simp add: in_bucket_def)

lemma head_ok_extend:
  assumes "head_ok mem regs h a ps" "\<forall>x \<le> length regs. cells h' x = cells h x"
  shows "head_ok mem (regs @ [p]) h' a ps"
  using assms by (auto simp: head_ok_def nth_append less_Suc_eq split: list.splits)

lemma heads_put:
  assumes H: "heads cap mem regs m h" and ord: "uuid_order cmp" and cap: "cap \<noteq> 0"
    and keys: "\<forall>q \<in> set (regs @ [p]). length (fst q) = uuid_size"
    and apart: "\<forall>q \<in> set regs. bucket_of cap (fst q) = bucket_of cap (fst p) \<longrightarrow> fst q = fst p"
  shows "\<exists>ret m' h'. umap_put cmp m (fst p) (snd p) h = Some (ret, m', h') \<and> heads cap mem (regs @ [p]) m' h'"
proof -
  let ?i = "bucket_of cap (fst p)" and ?a = "Suc (length regs)"
  let ?h = "h\<lparr>cells := (cells h)(?a \<mapsto> \<lparr>e_key = fst p, e_value = snd p, e_next = mem ?a\<rparr>), brk := Suc ?a\<rparr>"
  have m: "capacity m = cap" "length (entries m) = unat cap" "stale h = mem" "brk h = ?a" "\<forall>a > length regs. cells h a = None"
    and ok: "\<And>i. i < unat cap \<Longrightarrow> head_ok mem regs h (entries m ! i) (in_bucket cap i regs)"
    using H by (simp_all add: heads_def)
  have i: "?i < unat cap" by (rule bucket_of_less [OF cap])
  have idx: "umap_key_to_index m (fst p) = Some ?i" "slot m ?i = Some (entries m ! ?i)"
    using m(1,2) cap i by (simp_all add: umap_key_to_index_def bucket_of_def slot_def)
  have new: "malloc_entry (fst p) (snd p) h = (?a, ?h)" using m(3,4) by (simp add: malloc_entry_def)
  have keep: "head_ok mem (regs @ [p]) ?h (entries m ! j) (in_bucket cap j regs)" if "j < unat cap" for j
    by (rule head_ok_extend [OF ok [OF that]]) simp
  show ?thesis
  proof (cases "in_bucket cap ?i regs")
    case Nil
    let ?m = "m\<lparr>entries := (entries m)[?i := ?a], count := count m + 1\<rparr>"
    have "umap_put cmp m (fst p) (snd p) h = Some (0, ?m, ?h)"
      using idx new ok [OF i] Nil by (simp add: umap_put_def head_ok_def)
    moreover have "head_ok mem (regs @ [p]) ?h ((entries m)[?i := ?a] ! j) (in_bucket cap j (regs @ [p]))" if "j < unat cap" for j
      using keep [OF that] that m(2) Nil by (cases "j = ?i") (auto simp: in_bucket_snoc head_ok_def)
    then have "heads cap mem (regs @ [p]) ?m ?h" using m by (simp add: heads_def)
    ultimately show ?thesis by blast
  next
    case (Cons q qs)
    then have "q \<in> set (in_bucket cap ?i regs)" by simp
    then have q: "q \<in> set regs" "fst q = fst p" using apart by (auto simp: in_bucket_def)
    from ok [OF i] Cons obtain k where k: "k < length regs" "entries m ! ?i = Suc k"
        "cells h (Suc k) = Some \<lparr>e_key = fst q, e_value = snd q, e_next = mem (Suc k)\<rparr>"
      by (auto simp: head_ok_def)
    have "cmp (fst q) (fst p) = 0" using ord keys q by (simp add: uuid_order_def)
    then have "umap_put cmp m (fst p) (snd p) h = Some (-1, m, ?h)"
      using idx new k by (simp add: umap_put_def)
    moreover have "head_ok mem (regs @ [p]) ?h (entries m ! j) (in_bucket cap j (regs @ [p]))" if "j < unat cap" for j
      using keep [OF that] Cons by (cases "j = ?i") (auto simp: in_bucket_snoc head_ok_def)
    then have "heads cap mem (regs @ [p]) m ?h" using m by (simp add: heads_def)
    ultimately show ?thesis by blast
  qed
qed

lemma run_puts_append: "run_puts put (xs @ ys) s = do { s \<leftarrow> run_puts put xs s; run_puts put ys s }"
  by (induction xs arbitrary: s) (auto simp: bind_eq_Some_conv split: bind_splits)

lemma heads_run:
  assumes "uuid_order cmp" "cap \<noteq> 0" "\<forall>p \<in> set regs. length (fst p) = uuid_size"
    "\<forall>p \<in> set regs. \<forall>q \<in> set regs. bucket_of cap (fst p) = bucket_of cap (fst q) \<longrightarrow> fst p = fst q"
  shows "\<exists>m h. run_puts dir_put regs (cmp, umap_init cap, empty_heap mem) = Some (cmp, m, h) \<and> heads cap mem regs m h"
  using assms(3,4)
proof (induction regs rule: rev_induct)
  case Nil
  then show ?case by (simp add: heads_def head_ok_def umap_init_def in_bucket_def)
next
  case (snoc p regs)
  then obtain m h where s: "run_puts dir_put regs (cmp, umap_init cap, empty_heap mem) = Some (cmp, m, h)" "heads cap mem regs m h"
    by auto
  have "\<forall>q \<in> set regs. bucket_of cap (fst q) = bucket_of cap (fst p) \<longrightarrow> fst q = fst p" using snoc.prems(2) by simp
  from heads_put [OF s(2) assms(1,2) snoc.prems(1) this] obtain ret m' h' where
    "umap_put cmp m (fst p) (snd p) h = Some (ret, m', h')" "heads cap mem (regs @ [p]) m' h'" by blast
  with s(1) show ?case by (simp add: run_puts_append dir_put_def [of "fst p"])
qed

text \<open>What a lookup finds then.\<close>

lemma heads_get:
  assumes H: "heads cap mem regs m h" and ord: "uuid_order cmp" and cap: "cap \<noteq> 0" and key: "length key = uuid_size"
    and keys: "\<forall>q \<in> set regs. length (fst q) = uuid_size"
  shows "in_bucket cap (bucket_of cap key) regs = [] \<longrightarrow> dir_get key (cmp, m, h) = Some None"
    and "in_bucket cap (bucket_of cap key) regs \<noteq> [] \<and> fst (hd (in_bucket cap (bucket_of cap key) regs)) = key \<longrightarrow>
      dir_get key (cmp, m, h) = Some (Some (snd (hd (in_bucket cap (bucket_of cap key) regs))))"
    and "key \<notin> fst ` set regs \<and> in_bucket cap (bucket_of cap key) regs \<noteq> [] \<longrightarrow>
       (\<exists>i < length regs. bucket_of cap (fst (regs ! i)) = bucket_of cap key \<and>
          (mem (i + 1) = NULL \<longrightarrow> dir_get key (cmp, m, h) = Some None) \<and>
          (length regs < mem (i + 1) \<longrightarrow> dir_get key (cmp, m, h) = None))"
proof -
  let ?i = "bucket_of cap key"
  have i: "?i < unat cap" by (rule bucket_of_less [OF cap])
  have m: "capacity m = cap" "length (entries m) = unat cap" "\<forall>a > length regs. cells h a = None"
    and ok: "head_ok mem regs h (entries m ! ?i) (in_bucket cap ?i regs)"
    using H i by (simp_all add: heads_def)
  have idx: "umap_key_to_index m key = Some ?i" "slot m ?i = Some (entries m ! ?i)"
    using m(1,2) cap i by (simp_all add: umap_key_to_index_def bucket_of_def slot_def)
  show "in_bucket cap ?i regs = [] \<longrightarrow> dir_get key (cmp, m, h) = Some None"
    using idx ok by (auto simp: dir_get_def umap_get_def head_ok_def)
  have used: "\<exists>k < length regs. entries m ! ?i = Suc k \<and> regs ! k = p \<and> bucket_of cap (fst p) = ?i \<and>
      cells h (Suc k) = Some \<lparr>e_key = fst p, e_value = snd p, e_next = mem (Suc k)\<rparr> \<and>
      (cmp (fst p) key = 0 \<longleftrightarrow> fst p = key)" if "in_bucket cap ?i regs = p # ps" for p ps
  proof -
    have "p \<in> set (in_bucket cap ?i regs)" using that by simp
    then have "p \<in> set regs" "bucket_of cap (fst p) = ?i" by (auto simp: in_bucket_def)
    then show ?thesis using ok that ord key keys by (auto simp: head_ok_def uuid_order_def)
  qed
  show "in_bucket cap ?i regs \<noteq> [] \<and> fst (hd (in_bucket cap ?i regs)) = key \<longrightarrow>
      dir_get key (cmp, m, h) = Some (Some (snd (hd (in_bucket cap ?i regs))))"
    using used idx by (cases "in_bucket cap ?i regs") (auto simp: dir_get_def umap_get_def)
  show "key \<notin> fst ` set regs \<and> in_bucket cap ?i regs \<noteq> [] \<longrightarrow>
       (\<exists>i < length regs. bucket_of cap (fst (regs ! i)) = ?i \<and>
          (mem (i + 1) = NULL \<longrightarrow> dir_get key (cmp, m, h) = Some None) \<and>
          (length regs < mem (i + 1) \<longrightarrow> dir_get key (cmp, m, h) = None))"
  proof (intro impI)
    assume new: "key \<notin> fst ` set regs \<and> in_bucket cap ?i regs \<noteq> []"
    then obtain p ps where "in_bucket cap ?i regs = p # ps" by (meson neq_Nil_conv)
    from used [OF this] obtain k where k: "k < length regs" "entries m ! ?i = Suc k" "regs ! k = p" "bucket_of cap (fst p) = ?i"
        "cells h (Suc k) = Some \<lparr>e_key = fst p, e_value = snd p, e_next = mem (Suc k)\<rparr>" "cmp (fst p) key = 0 \<longleftrightarrow> fst p = key"
      by blast
    then have "cmp (fst p) key \<noteq> 0" using new nth_mem [OF k(1)] by force
    then have "dir_get key (cmp, m, h) = do {
        found \<leftarrow> chain_has cmp h key (mem (Suc k)); if found then Some (Some (snd p)) else Some None }"
      using k idx by (simp add: dir_get_def umap_get_def chain_has.simps [of cmp h key "Suc k"] split: bind_splits)
    moreover have "chain_has cmp h key NULL = Some False" by (subst chain_has.simps) simp
    moreover have "chain_has cmp h key a = None" if "length regs < a" for a
      using that m(3) by (subst chain_has.simps) simp
    ultimately show "\<exists>i < length regs. bucket_of cap (fst (regs ! i)) = ?i \<and>
          (mem (i + 1) = NULL \<longrightarrow> dir_get key (cmp, m, h) = Some None) \<and>
          (length regs < mem (i + 1) \<longrightarrow> dir_get key (cmp, m, h) = None)"
      using k(1,3,4) by (intro exI [of _ k]) simp
  qed
qed

lemma heads_map_of:
  assumes "key \<in> fst ` set regs"
    and "\<forall>p \<in> set regs. \<forall>q \<in> set regs. bucket_of cap (fst p) = bucket_of cap (fst q) \<longrightarrow> fst p = fst q"
  shows "in_bucket cap (bucket_of cap key) regs \<noteq> [] \<and> fst (hd (in_bucket cap (bucket_of cap key) regs)) = key \<and>
    map_of regs key = Some (snd (hd (in_bucket cap (bucket_of cap key) regs)))"
  using assms by (induction regs) (auto simp: in_bucket_def)

lemma free_all_cells:
  "\<forall>a \<in> set as. a \<noteq> NULL \<longrightarrow> cells h a \<noteq> None \<Longrightarrow>
   \<forall>i < length as. \<forall>j < length as. i \<noteq> j \<longrightarrow> as ! i = as ! j \<longrightarrow> as ! i = NULL \<Longrightarrow>
   \<exists>h'. free_all as h = Some h' \<and> (\<forall>a. cells h' a = (if a \<noteq> NULL \<and> a \<in> set as then None else cells h a))"
proof (induction as arbitrary: h)
  case Nil
  then show ?case by simp
next
  case (Cons x xs)
  have tl: "\<forall>i < length xs. \<forall>j < length xs. i \<noteq> j \<longrightarrow> xs ! i = xs ! j \<longrightarrow> xs ! i = NULL"
    using Cons.prems(2) by (metis Suc_less_eq length_Cons nat.inject nth_Cons_Suc)
  have x: "x \<notin> set xs" if "x \<noteq> NULL"
  proof
    assume "x \<in> set xs"
    then obtain j where "j < length xs" "xs ! j = x" by (auto simp: in_set_conv_nth)
    with Cons.prems(2) that show False by force
  qed
  obtain h1 where h1: "free_entry x h = Some h1"
    "\<forall>a. cells h1 a = (if a \<noteq> NULL \<and> a = x then None else cells h a)"
  proof (cases "x = NULL")
    case True
    then show ?thesis by (auto simp: free_entry_def intro!: that)
  next
    case False
    then show ?thesis using Cons.prems(1)
      by (intro that [of "h\<lparr>cells := (cells h)(x := None)\<rparr>"]) (auto simp: free_entry_def)
  qed
  have "\<forall>a \<in> set xs. a \<noteq> NULL \<longrightarrow> cells h1 a \<noteq> None" using Cons.prems(1) h1(2) x by auto
  from Cons.IH [OF this tl] h1 show ?case by auto
qed

section \<open>Properties\<close>

text \<open>
  For the witnesses: a comparison that satisfies uuid_order, and three tokens, of which the first
  two have the same hash and the third is in a bucket of its own.
\<close>

definition sample_compare :: "uuid \<Rightarrow> uuid \<Rightarrow> int" where
  "sample_compare a b = (if a = b then 0 else 1)"

definition sample_token :: "byte \<Rightarrow> byte \<Rightarrow> uuid" where
  "sample_token a b = replicate 14 0 @ [a, b]"

lemma sample_compare_order: "uuid_order sample_compare"
  by (simp add: uuid_order_def sample_compare_def)

lemma length_sample_token [simp]: "length (sample_token a b) = uuid_size"
  by (simp add: sample_token_def uuid_size_def)

lemma sample_token_neq: "sample_token 0 33 \<noteq> sample_token 1 0"
  by (simp add: sample_token_def)

lemma sample_token_buckets:
  "bucket_of 256 (sample_token 0 33) = 38" "bucket_of 256 (sample_token 1 0) = 38"
  "bucket_of 256 (sample_token 0 0) = 5"
  by code_simp+

text \<open>
  Refinement: on a map whose chains represent the buckets kvs, in memory that malloc returns
  clear, umap_put runs without a bad access and does what put_spec does to the buckets: -1 when
  the first key of the bucket is the key, otherwise the pair is appended and count goes up.
\<close>

theorem umap_put_refines:
  assumes "umap_rep h m bs" "uuid_order cmp" "length key = uuid_size" "stale h (brk h) = NULL"
  shows "\<exists>ret m' h' bs'. umap_put cmp m key val h = Some (ret, m', h') \<and> umap_rep h' m' bs' \<and>
    (ret, umap_view h' bs') = put_spec (capacity m) key val (umap_view h bs)"
  using umap_put_sim [OF assms] by blast

theorem umap_put_refines_witness:
  "\<exists>m' h' bs'. umap_put sample_compare (umap_init 256) (sample_token 0 0) ''alice'' fresh_heap = Some (0, m', h') \<and>
    umap_rep h' m' bs' \<and> umap_view h' bs' = (replicate 256 [])[5 := [(sample_token 0 0, ''alice'')]]"
proof -
  have "umap_rep (fresh_heap :: string heap) (umap_init 256) (replicate 256 [])"
    "umap_view (fresh_heap :: string heap) (replicate 256 []) = replicate 256 []"
    using umap_init_rep [of 256 "fresh_heap :: string heap"] by (simp_all add: fresh_heap_def)
  with umap_put_refines [OF this(1) sample_compare_order length_sample_token, of 0 0 "''alice''"]
  show ?thesis
    by (auto simp: fresh_heap_def put_spec_def umap_init_def sample_token_buckets Let_def nth_list_update)
qed

text \<open>
  C17. The directory over its whole life, whatever malloc leaves in the next fields of the entries:
  after any sequence of umap_put calls on a new map in which no two different keys share a bucket,
  umap_get returns the value put first under a key that was put, and nothing for a key whose bucket
  is empty. For another key of a bucket that is in use the answer depends on the next field that
  the entry of the bucket was left with: with a null pointer there the key is not found, with one
  that is no entry the lookup follows it, a bad access.
\<close>

theorem umap_get_history:
  assumes "uuid_order cmp" "cap \<noteq> 0" "\<forall>p \<in> set regs. length (fst p) = uuid_size" "length key = uuid_size"
    and "\<forall>p \<in> set regs. \<forall>q \<in> set regs. bucket_of cap (fst p) = bucket_of cap (fst q) \<longrightarrow> fst p = fst q"
  shows "\<exists>s. run_puts dir_put regs (cmp, umap_init cap, empty_heap mem) = Some s \<and>
    (key \<in> fst ` set regs \<longrightarrow> dir_get key s = Some (map_of regs key)) \<and>
    (in_bucket cap (bucket_of cap key) regs = [] \<longrightarrow> dir_get key s = Some None) \<and>
    (key \<notin> fst ` set regs \<and> in_bucket cap (bucket_of cap key) regs \<noteq> [] \<longrightarrow>
       (\<exists>i < length regs. bucket_of cap (fst (regs ! i)) = bucket_of cap key \<and>
          (mem (i + 1) = NULL \<longrightarrow> dir_get key s = Some None) \<and> (length regs < mem (i + 1) \<longrightarrow> dir_get key s = None)))"
proof -
  from heads_run [OF assms(1-3,5)] obtain m h where
    s: "run_puts dir_put regs (cmp, umap_init cap, empty_heap mem) = Some (cmp, m, h)" "heads cap mem regs m h" by blast
  note get = heads_get [OF s(2) assms(1,2,4,3)]
  have found: "key \<in> fst ` set regs \<longrightarrow> dir_get key (cmp, m, h) = Some (map_of regs key)"
    using get(2) heads_map_of [OF _ assms(5)] by metis
  show ?thesis by (intro exI [of _ "(cmp, m, h)"] conjI, rule s(1), rule found, rule get(1), rule get(3))
qed

theorem umap_get_history_witness:
  "(\<exists>s. run_puts dir_put [(sample_token 0 33, ''alice''), (sample_token 0 0, ''carol'')]
      (sample_compare, umap_init 256, empty_heap (\<lambda>_. 99)) = Some s \<and>
    dir_get (sample_token 0 0) s = Some (Some ''carol'')) \<and>
   (\<exists>s. run_puts dir_put [(sample_token 0 33, ''alice''), (sample_token 0 0, ''carol'')]
      (sample_compare, umap_init 256, empty_heap (\<lambda>_. 99)) = Some s \<and> dir_get (sample_token 1 0) s = None)"
proof (rule conjI)
  let ?regs = "[(sample_token 0 33, ''alice''), (sample_token 0 0, ''carol'')]"
  have neq: "sample_token 0 33 \<noteq> sample_token 0 0" "sample_token 1 0 \<noteq> sample_token 0 0" "sample_token 1 0 \<noteq> sample_token 0 33"
    by (simp_all add: sample_token_def)
  have apart: "\<forall>p \<in> set ?regs. \<forall>q \<in> set ?regs. bucket_of 256 (fst p) = bucket_of 256 (fst q) \<longrightarrow> fst p = fst q"
    by (simp add: sample_token_buckets)
  note H = umap_get_history [OF sample_compare_order _ _ _ apart, where mem = "\<lambda>_. 99"]
  from H [where key = "sample_token 0 0"] neq show "\<exists>s. run_puts dir_put ?regs (sample_compare, umap_init 256, empty_heap (\<lambda>_. 99)) = Some s \<and>
      dir_get (sample_token 0 0) s = Some (Some ''carol'')"
    by (fastforce simp del: run_puts.simps)
  from H [where key = "sample_token 1 0"] neq show "\<exists>s. run_puts dir_put ?regs (sample_compare, umap_init 256, empty_heap (\<lambda>_. 99)) = Some s \<and>
      dir_get (sample_token 1 0) s = None"
    by (auto simp: in_bucket_def sample_token_buckets simp del: run_puts.simps)
qed

text \<open>
  In cleared memory the puts may collide: umap_get then finds a key exactly when it was put, and
  the value it returns is the one stored first under any key of the same bucket.
\<close>

lemma umap_get_cleared:
  assumes "uuid_order cmp" "cap \<noteq> 0" "\<forall>p \<in> set regs. length (fst p) = uuid_size" "length key = uuid_size"
  shows "\<exists>s. run_puts dir_put regs (cmp, umap_init cap, fresh_heap) = Some s \<and>
    dir_get key s = Some
      (if key \<in> fst ` set regs then Some (snd (hd (in_bucket cap (bucket_of cap key) regs))) else None)"
  using dir_history [OF assms] unfolding get_put_all_spec [OF assms(2)] .

text \<open>
  When no two different keys that were put share a bucket, umap_get is the lookup of the first
  value put under the key: the map is correct without collisions.
\<close>

theorem umap_get_no_collision:
  assumes "uuid_order cmp" "cap \<noteq> 0" "\<forall>p \<in> set regs. length (fst p) = uuid_size" "length key = uuid_size"
    and apart: "\<forall>p \<in> set regs. bucket_of cap (fst p) = bucket_of cap key \<longrightarrow> fst p = key"
  shows "\<exists>s. run_puts dir_put regs (cmp, umap_init cap, fresh_heap) = Some s \<and>
    dir_get key s = Some (map_of regs key)"
proof -
  have "map_of regs key = (if key \<in> fst ` set regs then Some (snd (hd (in_bucket cap (bucket_of cap key) regs))) else None)"
    using apart by (induction regs) (auto simp: in_bucket_def)
  with dir_history [OF assms(1-4)] show ?thesis unfolding get_put_all_spec [OF assms(2)] by simp
qed

theorem umap_get_no_collision_witness:
  "\<exists>s. run_puts dir_put [(sample_token 0 33, ''alice''), (sample_token 0 0, ''carol'')]
      (sample_compare, umap_init 256, fresh_heap) = Some s \<and>
    dir_get (sample_token 0 33) s = Some (Some ''alice'')"
  using umap_get_no_collision [OF sample_compare_order, of 256
      "[(sample_token 0 33, ''alice''), (sample_token 0 0, ''carol'')]" "sample_token 0 33"]
  by (simp add: sample_token_buckets del: run_puts.simps)

text \<open>
  C31. When two different keys share a bucket, and malloc returns cleared memory, looking up the second
  returns the value stored under the first: one user's requests are served with another user's record.
\<close>

theorem umap_get_collision:
  assumes "uuid_order cmp" "cap \<noteq> 0" "length k1 = uuid_size" "length k2 = uuid_size"
    and "bucket_of cap k1 = bucket_of cap k2"
  shows "\<exists>s. run_puts dir_put [(k1, v1), (k2, v2)] (cmp, umap_init cap, fresh_heap) = Some s \<and>
    dir_get k2 s = Some (Some v1)"
proof -
  have "get_spec cap k2 (put_all_spec cap [(k1, v1), (k2, v2)]) = Some v1"
    using get_put_all_spec [OF assms(2), of k2 "[(k1, v1), (k2, v2)]"] assms(5)
    by (simp add: in_bucket_def)
  with dir_history [OF assms(1,2), of "[(k1, v1), (k2, v2)]" k2] assms(3,4) show ?thesis
    by (simp del: run_puts.simps)
qed

theorem umap_get_collision_witness:
  "\<exists>s. run_puts dir_put [(sample_token 0 33, ''alice''), (sample_token 1 0, ''bob'')]
      (sample_compare, umap_init 256, fresh_heap) = Some s \<and>
    dir_get (sample_token 1 0) s = Some (Some ''alice'')"
  using umap_get_collision [OF sample_compare_order _ length_sample_token length_sample_token,
      of 256 0 33 1 0 "''alice''" "''bob''"]
  by (simp add: sample_token_buckets del: run_puts.simps)

text \<open>
  umap_free_entries frees the first entry of each bucket and nothing behind it: every other
  entry of a chain is still allocated afterwards.
\<close>

theorem umap_free_entries_leaks:
  assumes "umap_rep h m bs"
  shows "\<exists>h'. umap_free_entries m h = Some h' \<and>
    (\<forall>i < length bs. \<forall>a \<in> set (bs ! i). cells h' a = (if a = hd (bs ! i) then None else cells h a))"
proof -
  note R = umap_repD [OF assms]
  have first: "entries m ! i = (if bs ! i = [] then NULL else hd (bs ! i))" if "i < length bs" for i
    using R(6) [OF that] by (cases "bs ! i") auto
  have alloc: "cells h a \<noteq> None \<and> a \<noteq> NULL" if "i < length bs" "a \<in> set (bs ! i)" for i a
    using chain_cells [OF R(6) [OF that(1)] that(2)] by auto
  have "\<forall>a \<in> set (entries m). a \<noteq> NULL \<longrightarrow> cells h a \<noteq> None"
  proof (intro ballI impI)
    fix a assume "a \<in> set (entries m)" "a \<noteq> NULL"
    then obtain i where i: "i < length bs" "entries m ! i = a" using R(1) by (auto simp: in_set_conv_nth)
    with first \<open>a \<noteq> NULL\<close> have "a \<in> set (bs ! i)" by (metis hd_in_set)
    with alloc i(1) show "cells h a \<noteq> None" by blast
  qed
  moreover have "\<forall>i < length (entries m). \<forall>j < length (entries m). i \<noteq> j \<longrightarrow>
      entries m ! i = entries m ! j \<longrightarrow> entries m ! i = NULL"
    using first R(1,10) by (metis disjoint_iff hd_in_set)
  ultimately obtain h' where h': "free_all (entries m) h = Some h'"
    "\<forall>a. cells h' a = (if a \<noteq> NULL \<and> a \<in> set (entries m) then None else cells h a)"
    using free_all_cells by blast
  have "cells h' a = (if a = hd (bs ! i) then None else cells h a)"
    if i: "i < length bs" "a \<in> set (bs ! i)" for i a
  proof -
    have "a \<in> set (entries m) \<longleftrightarrow> a = hd (bs ! i)"
    proof
      assume "a \<in> set (entries m)"
      then obtain j where j: "j < length bs" "entries m ! j = a" using R(1) by (auto simp: in_set_conv_nth)
      then have "a = hd (bs ! j)" "a \<in> set (bs ! j)" using first alloc [OF i] by (auto split: if_splits)
      then show "a = hd (bs ! i)" using R(10) [OF i(1) j(1)] i(2) by auto
    next
      assume "a = hd (bs ! i)"
      then have "a = entries m ! i" using first [OF i(1)] i(2) by auto
      then show "a \<in> set (entries m)" using i(1) R(1) by simp
    qed
    with alloc [OF i] h'(2) show ?thesis by auto
  qed
  moreover have "umap_free_entries m h = Some h'" using h'(1) R(2) by (simp add: umap_free_entries_def)
  ultimately show ?thesis by blast
qed

text \<open>A map of one bucket with two entries in it.\<close>

definition chained_heap :: "string heap" where
  "chained_heap =
     \<lparr>cells = [1 \<mapsto> \<lparr>e_key = sample_token 0 33, e_value = ''alice'', e_next = 2\<rparr>,
               2 \<mapsto> \<lparr>e_key = sample_token 1 0, e_value = ''bob'', e_next = NULL\<rparr>],
      brk = 3, stale = \<lambda>_. NULL\<rparr>"

theorem umap_free_entries_leaks_witness:
  "\<exists>h'. umap_free_entries \<lparr>entries = [1], count = 2, capacity = 1\<rparr> chained_heap = Some h' \<and>
    cells h' 1 = None \<and> cells h' 2 = cells chained_heap 2 \<and> cells chained_heap 2 \<noteq> None"
proof -
  have "umap_rep chained_heap \<lparr>entries = [1], count = 2, capacity = 1\<rparr> [[1, 2]]"
    by (simp add: umap_rep_def chained_heap_def pair_at_def)
  from umap_free_entries_leaks [OF this] show ?thesis
    by (auto simp: chained_heap_def)
qed

text \<open>
  malloc does not clear memory: when the memory of a new entry holds a non-null next that is
  no entry, the first lookup of another key of its bucket follows it, a bad access.
\<close>

theorem umap_get_stale_next:
  assumes "cap \<noteq> 0" "length k1 = uuid_size" "length k2 = uuid_size" "uuid_order cmp" "k1 \<noteq> k2"
    and "bucket_of cap k1 = bucket_of cap k2"
    and "stale h (brk h) = w" "w \<noteq> NULL" "w \<noteq> brk h" "cells h w = None" "brk h \<noteq> NULL"
  shows "\<exists>m h'. umap_put cmp (umap_init cap) k1 v1 h = Some (0, m, h') \<and>
    umap_get cmp m k2 out h' = None"
proof -
  let ?m = "umap_init cap" and ?i = "bucket_of cap k1" and ?n = "brk h"
  let ?f = "\<lparr>e_key = k1, e_value = v1, e_next = w\<rparr>"
  let ?h = "h\<lparr>cells := (cells h)(?n \<mapsto> ?f), brk := ?n + 1\<rparr>"
  let ?m' = "?m\<lparr>entries := (entries ?m)[?i := ?n], count := 1\<rparr>"
  have i: "?i < unat cap" by (rule bucket_of_less [OF assms(1)])
  have idx: "umap_key_to_index ?m k1 = Some ?i" "umap_key_to_index ?m' k2 = Some ?i"
    using assms(1,6) by (simp_all add: umap_key_to_index_def bucket_of_def umap_init_def)
  have slots: "slot ?m ?i = Some NULL" "slot ?m' ?i = Some ?n"
    using i by (simp_all add: slot_def umap_init_def)
  have "malloc_entry k1 v1 h = (?n, ?h)" using assms(7) by (simp add: malloc_entry_def)
  then have put: "umap_put cmp ?m k1 v1 h = Some (0, ?m', ?h)"
    using idx(1) slots(1) by (simp add: umap_put_def umap_init_def)
  have "cmp k1 k2 \<noteq> 0" using assms(2-5) by (simp add: uuid_order_def)
  moreover have "chain_has cmp ?h k2 w = None"
    using assms(8-10) by (subst chain_has.simps) simp
  moreover have "chain_has cmp ?h k2 ?n = chain_has cmp ?h k2 w" if "cmp k1 k2 \<noteq> 0"
    using assms(11) that by (subst chain_has.simps) simp
  ultimately have "umap_get cmp ?m' k2 out ?h = None"
    using idx(2) slots(2) assms(11) by (simp add: umap_get_def)
  with put show ?thesis by blast
qed

definition stale_heap :: "string heap" where
  "stale_heap = \<lparr>cells = \<lambda>_. None, brk = 1, stale = \<lambda>_. 99\<rparr>"

theorem umap_get_stale_next_witness:
  "\<exists>m h'. umap_put sample_compare (umap_init 256) (sample_token 0 33) ''alice'' stale_heap = Some (0, m, h') \<and>
    umap_get sample_compare m (sample_token 1 0) None h' = None"
  by (rule umap_get_stale_next [where w = 99])
    (simp_all add: sample_compare_order sample_token_neq sample_token_buckets stale_heap_def)

end
