(* ===== verification/Users.thy ===== *)
theory Users
  imports FileInfo
begin

text \<open>
  Transfer sessions and users: src/session.h, src/session.c, src/user.h and src/user.c. Sessions
  and the FileInfos they point to live in memory (objects); a user keeps pointers to its sessions
  in an array of ten. None is a bad access: a null or dangling pointer, a name with no end, an
  index outside the array.
\<close>

section \<open>Sessions\<close>

datatype SessionType = SESS_NONE | SESS_DOWNLOAD | SESS_UPLOAD
datatype SessionState = SSTATE_IDLE | SSTATE_RUNNING | SSTATE_INTERRUPTED

record Session =
  s_type :: SessionType
  s_state :: SessionState
  s_file_info :: addr
  s_last_transfered_chunk :: usize
  s_started_at :: timespec

definition session_init :: "addr \<Rightarrow> SessionType \<Rightarrow> timespec \<Rightarrow> Session" where
  "session_init file_info type now =
     \<lparr>s_type = type, s_state = SSTATE_IDLE, s_file_info = file_info,
      s_last_transfered_chunk = 0, s_started_at = now\<rparr>"

fun sesstype_to_str :: "SessionType \<Rightarrow> string" where
  "sesstype_to_str SESS_NONE = ''SESS_NONE''"
| "sesstype_to_str SESS_DOWNLOAD = ''SESS_DOWNLOAD''"
| "sesstype_to_str SESS_UPLOAD = ''SESS_UPLOAD''"

fun sstate_to_str :: "SessionState \<Rightarrow> string" where
  "sstate_to_str SSTATE_IDLE = ''SSTATE_IDLE''"
| "sstate_to_str SSTATE_RUNNING = ''SSTATE_RUNNING''"
| "sstate_to_str SSTATE_INTERRUPTED = ''SSTATE_INTERRUPTED''"

section \<open>Users\<close>

record User =
  u_token :: uuid
  u_total_space :: usize
  u_used_space :: usize
  u_sessions :: "addr list"
  u_sessions_count :: usize
  u_sessions_capacity :: usize

record objects =
  sess :: "addr \<Rightarrow> Session option"
  infos :: "addr \<Rightarrow> FileInfo option"

definition MAX_USER_SPACE :: nat where
  "MAX_USER_SPACE = 10000000000"

text \<open>
  generated is what uuid_generate returns, used when no token is given; array is what the malloc'd
  array of pointers holds.
\<close>

definition user_init :: "uuid \<Rightarrow> (nat \<Rightarrow> addr) \<Rightarrow> uuid option \<Rightarrow> User" where
  "user_init generated array token =
     \<lparr>u_token = (case token of None \<Rightarrow> generated | Some t \<Rightarrow> t),
      u_total_space = of_nat MAX_USER_SPACE, u_used_space = 0,
      u_sessions = map array [0..<10], u_sessions_count = 0, u_sessions_capacity = 10\<rparr>"

text \<open>A store to the array outside its allocation is a fault.\<close>

definition array_set :: "'a list \<Rightarrow> nat \<Rightarrow> 'a \<Rightarrow> 'a list option" where
  "array_set xs i x = (if i < length xs then Some (xs[i := x]) else None)"

definition array_get :: "'a list \<Rightarrow> nat \<Rightarrow> 'a option" where
  "array_get xs i = (if i < length xs then Some (xs ! i) else None)"

definition user_add_session :: "User \<Rightarrow> addr \<Rightarrow> (int \<times> User) option" where
  "user_add_session self session =
     (if u_sessions_count self \<ge> u_sessions_capacity self then Some (-1, self)
      else do {
        ss \<leftarrow> array_set (u_sessions self) (unat (u_sessions_count self)) session;
        Some (0, self\<lparr>u_sessions := ss, u_sessions_count := u_sessions_count self + 1\<rparr>)
      })"

text \<open>The session behind a pointer and the name of its file.\<close>

definition session_at :: "objects \<Rightarrow> addr \<Rightarrow> (Session \<times> string) option" where
  "session_at m a = do {
     s \<leftarrow> sess m a;
     info \<leftarrow> infos m (s_file_info s);
     name \<leftarrow> info_name info;
     Some (s, name)
   }"

text \<open>The loop of user_get_session from index i; it prints every name, so it reads every name.\<close>

function get_session_from ::
  "objects \<Rightarrow> User \<Rightarrow> SessionType \<Rightarrow> string \<Rightarrow> nat \<Rightarrow> addr option" where
  "get_session_from m self type filename i =
     (if i < unat (u_sessions_count self)
      then do {
        a \<leftarrow> array_get (u_sessions self) i;
        (s, name) \<leftarrow> session_at m a;
        if s_type s = type \<and> name = filename then Some a
        else get_session_from m self type filename (i + 1)
      }
      else Some NULL)"
  by pat_completeness auto
termination
  by (relation "measure (\<lambda>(m, self, t, f, i). unat (u_sessions_count self) - i)") auto

definition user_get_session :: "objects \<Rightarrow> User \<Rightarrow> SessionType \<Rightarrow> string \<Rightarrow> addr option" where
  "user_get_session m self type filename = get_session_from m self type filename 0"

text \<open>
  The inner loop of user_remove_session bubbles the cleared pointer at j to the end: the last
  step exchanges the last session with the element behind it.
\<close>

function bubble :: "addr list \<Rightarrow> nat \<Rightarrow> nat \<Rightarrow> addr list option" where
  "bubble ss n j =
     (if j < n
      then do {
        tmp \<leftarrow> array_get ss j;
        right \<leftarrow> array_get ss (j + 1);
        ss \<leftarrow> array_set ss j right;
        ss \<leftarrow> array_set ss (j + 1) tmp;
        bubble ss n (j + 1)
      }
      else Some ss)"
  by pat_completeness auto
termination
  by (relation "measure (\<lambda>(ss, n, j). n - j)") auto

text \<open>The name is compared only when the type agrees.\<close>

function remove_session_from ::
  "objects \<Rightarrow> User \<Rightarrow> SessionType \<Rightarrow> string \<Rightarrow> nat \<Rightarrow> (int \<times> User) option" where
  "remove_session_from m self type filename i =
     (if i < unat (u_sessions_count self)
      then do {
        a \<leftarrow> array_get (u_sessions self) i;
        s \<leftarrow> sess m a;
        found \<leftarrow> (if s_type s = type
                  then do { (_, name) \<leftarrow> session_at m a; Some (name = filename) } else Some False);
        if found
        then do {
          ss \<leftarrow> array_set (u_sessions self) i NULL;
          ss \<leftarrow> bubble ss (unat (u_sessions_count self)) i;
          Some (0, self\<lparr>u_sessions := ss, u_sessions_count := u_sessions_count self - 1\<rparr>)
        }
        else remove_session_from m self type filename (i + 1)
      }
      else Some (-1, self))"
  by pat_completeness auto
termination
  by (relation "measure (\<lambda>(m, self, t, f, i). unat (u_sessions_count self) - i)") auto

definition user_remove_session :: "objects \<Rightarrow> User \<Rightarrow> SessionType \<Rightarrow> string \<Rightarrow> (int \<times> User) option" where
  "user_remove_session m self type filename = remove_session_from m self type filename 0"

declare get_session_from.simps [simp del] bubble.simps [simp del] remove_session_from.simps [simp del]

section \<open>The sessions as a list\<close>

definition session_list :: "User \<Rightarrow> addr list" where
  "session_list u = take (unat (u_sessions_count u)) (u_sessions u)"

definition wf_user :: "User \<Rightarrow> bool" where
  "wf_user u \<longleftrightarrow> length (u_sessions u) = unat (u_sessions_capacity u) \<and>
     u_sessions_count u \<le> u_sessions_capacity u"

definition is_for :: "objects \<Rightarrow> SessionType \<Rightarrow> string \<Rightarrow> addr \<Rightarrow> bool" where
  "is_for m type filename a =
     (case session_at m a of Some (s, name) \<Rightarrow> s_type s = type \<and> name = filename | None \<Rightarrow> False)"

definition readable :: "objects \<Rightarrow> User \<Rightarrow> bool" where
  "readable m u \<longleftrightarrow> (\<forall>a \<in> set (session_list u). session_at m a \<noteq> None)"

definition remove1_by :: "('a \<Rightarrow> bool) \<Rightarrow> 'a list \<Rightarrow> 'a list" where
  "remove1_by P xs = takeWhile (\<lambda>x. \<not> P x) xs @ tl (dropWhile (\<lambda>x. \<not> P x) xs)"

lemma wf_user_count: "wf_user u \<Longrightarrow> unat (u_sessions_count u) \<le> length (u_sessions u)"
  by (simp add: wf_user_def word_le_nat_alt)

lemma length_session_list: "wf_user u \<Longrightarrow> length (session_list u) = unat (u_sessions_count u)"
  using wf_user_count [of u] by (simp add: session_list_def)

lemma drop_session_list:
  assumes "wf_user u" "i < unat (u_sessions_count u)"
  shows "drop i (session_list u) = u_sessions u ! i # drop (i + 1) (session_list u)"
    "array_get (u_sessions u) i = Some (u_sessions u ! i)" "u_sessions u ! i \<in> set (session_list u)"
proof -
  have len: "i < length (session_list u)" "i < length (u_sessions u)"
    using assms length_session_list wf_user_count [OF assms(1)] by simp_all
  moreover have nth: "session_list u ! i = u_sessions u ! i" using assms(2) by (simp add: session_list_def)
  ultimately show "drop i (session_list u) = u_sessions u ! i # drop (i + 1) (session_list u)"
    by (metis Cons_nth_drop_Suc Suc_eq_plus1)
  from len(1) nth show "u_sessions u ! i \<in> set (session_list u)" by (metis nth_mem)
  from len(2) show "array_get (u_sessions u) i = Some (u_sessions u ! i)" by (simp add: array_get_def)
qed

lemma get_session_from_list:
  assumes "wf_user u" "readable m u"
  shows "get_session_from m u t f i =
    Some (case filter (is_for m t f) (drop i (session_list u)) of [] \<Rightarrow> NULL | a # _ \<Rightarrow> a)"
  using assms
proof (induction m u t f i rule: get_session_from.induct)
  case (1 m u t f i)
  show ?case
  proof (cases "i < unat (u_sessions_count u)")
    case True
    note d = drop_session_list [OF 1(2) True]
    obtain s name where s: "session_at m (u_sessions u ! i) = Some (s, name)"
      using 1(3) d(3) by (auto simp: readable_def)
    have isf: "is_for m t f (u_sessions u ! i) \<longleftrightarrow> s_type s = t \<and> name = f"
      using s by (simp add: is_for_def)
    show ?thesis
      using 1(1) [OF True d(2) s refl] 1(2,3) True d s isf
      by (subst get_session_from.simps) auto
  next
    case False
    then show ?thesis
      using length_session_list [OF 1(2)] by (subst get_session_from.simps) simp
  qed
qed

lemma bubble_moves:
  "bubble (xs @ x # ys @ z # zs) (length xs + length ys + 1) (length xs) = Some (xs @ ys @ z # x # zs)"
proof (induction ys arbitrary: xs)
  case Nil
  then show ?case
    by (subst bubble.simps, subst bubble.simps)
      (simp add: array_get_def array_set_def list_update_append nth_append)
next
  case (Cons y ys)
  have "bubble (xs @ x # (y # ys) @ z # zs) (length xs + length (y # ys) + 1) (length xs) =
      bubble ((xs @ [y]) @ x # ys @ z # zs) (length (xs @ [y]) + length ys + 1) (length (xs @ [y]))"
    by (subst bubble.simps) (simp add: array_get_def array_set_def list_update_append nth_append)
  also have "\<dots> = Some ((xs @ [y]) @ ys @ z # x # zs)" by (rule Cons.IH)
  finally show ?case by simp
qed

lemma bubble_overruns:
  "bubble (xs @ x # ys) (length xs + length ys + 1) (length xs) = None"
proof (induction ys arbitrary: xs)
  case Nil
  then show ?case by (subst bubble.simps) (simp add: array_get_def)
next
  case (Cons y ys)
  have "bubble (xs @ x # y # ys) (length xs + length (y # ys) + 1) (length xs) =
      bubble ((xs @ [y]) @ x # ys) (length (xs @ [y]) + length ys + 1) (length (xs @ [y]))"
    by (subst bubble.simps) (simp add: array_get_def array_set_def list_update_append nth_append)
  also have "\<dots> = None" by (rule Cons.IH)
  finally show ?case by simp
qed

lemma session_at_sess: "session_at m a = Some (s, name) \<Longrightarrow> sess m a = Some s"
  by (auto simp: session_at_def bind_eq_Some_conv)

lemma remove_session_step:
  assumes "wf_user u" "readable m u" "i < unat (u_sessions_count u)"
  shows "remove_session_from m u t f i =
    (if is_for m t f (u_sessions u ! i)
     then do {
       ss \<leftarrow> bubble ((u_sessions u)[i := NULL]) (unat (u_sessions_count u)) i;
       Some (0, u\<lparr>u_sessions := ss, u_sessions_count := u_sessions_count u - 1\<rparr>)
     }
     else remove_session_from m u t f (i + 1))"
proof -
  note d = drop_session_list [OF assms(1,3)]
  obtain s name where s: "session_at m (u_sessions u ! i) = Some (s, name)"
    using assms(2) d(3) by (auto simp: readable_def)
  have "i < length (u_sessions u)" using assms(3) wf_user_count [OF assms(1)] by simp
  then show ?thesis
    using assms(3) d(2) s session_at_sess [OF s]
    by (subst remove_session_from.simps) (simp add: is_for_def array_set_def)
qed

lemma remove_session_first:
  assumes "wf_user u" "readable m u" "k < unat (u_sessions_count u)" "is_for m t f (u_sessions u ! k)"
  shows "i \<le> k \<Longrightarrow> \<forall>j. i \<le> j \<and> j < k \<longrightarrow> \<not> is_for m t f (u_sessions u ! j) \<Longrightarrow>
    remove_session_from m u t f i = do {
       ss \<leftarrow> bubble ((u_sessions u)[k := NULL]) (unat (u_sessions_count u)) k;
       Some (0, u\<lparr>u_sessions := ss, u_sessions_count := u_sessions_count u - 1\<rparr>)
    }"
proof (induction "k - i" arbitrary: i)
  case 0
  then have "i = k" by simp
  with remove_session_step [OF assms(1-3)] assms(4) show ?case by simp
next
  case (Suc x)
  then have "i < k" by simp
  with Suc remove_session_step [OF assms(1,2), of i] assms(3) show ?case by simp
qed

lemma remove_session_none:
  assumes "wf_user u" "readable m u" "\<forall>j < unat (u_sessions_count u). \<not> is_for m t f (u_sessions u ! j)"
  shows "remove_session_from m u t f i = Some (-1, u)"
proof (induction "unat (u_sessions_count u) - i" arbitrary: i)
  case 0
  then show ?case by (subst remove_session_from.simps) simp
next
  case (Suc x)
  then show ?case using remove_session_step [OF assms(1,2)] assms(3) by simp
qed

lemma split_session_list:
  assumes wf: "wf_user u" and split: "session_list u = xs @ a # ys"
  shows "u_sessions u = xs @ a # ys @ drop (unat (u_sessions_count u)) (u_sessions u)"
    "unat (u_sessions_count u) = length xs + length ys + 1"
    "\<forall>j < length xs. u_sessions u ! j = xs ! j" "u_sessions u ! length xs = a"
proof -
  show *: "u_sessions u = xs @ a # ys @ drop (unat (u_sessions_count u)) (u_sessions u)"
  proof -
    have "u_sessions u = session_list u @ drop (unat (u_sessions_count u)) (u_sessions u)"
      by (simp add: session_list_def)
    then show ?thesis unfolding split by simp
  qed
  show "unat (u_sessions_count u) = length xs + length ys + 1"
    using length_session_list [OF wf] split by simp
  show "\<forall>j < length xs. u_sessions u ! j = xs ! j" by (subst *) (simp add: nth_append)
  show "u_sessions u ! length xs = a" by (subst *) simp
qed

lemma user_remove_session_found:
  assumes wf: "wf_user u" and rd: "readable m u" and split: "session_list u = xs @ a # ys"
    and first: "\<forall>x \<in> set xs. \<not> is_for m t f x" "is_for m t f a"
  shows "if u_sessions_count u < u_sessions_capacity u
    then \<exists>u'. user_remove_session m u t f = Some (0, u') \<and> session_list u' = xs @ ys \<and> wf_user u' \<and>
      u_token u' = u_token u \<and> u_used_space u' = u_used_space u \<and> u_sessions_capacity u' = u_sessions_capacity u \<and>
      u_total_space u' = u_total_space u
    else user_remove_session m u t f = None"
proof -
  let ?n = "unat (u_sessions_count u)" and ?rest = "drop (unat (u_sessions_count u)) (u_sessions u)"
  note S = split_session_list [OF wf split]
  have k: "length xs < ?n" using S(2) by simp
  have run: "user_remove_session m u t f = do {
      ss \<leftarrow> bubble (xs @ NULL # ys @ ?rest) ?n (length xs);
      Some (0, u\<lparr>u_sessions := ss, u_sessions_count := u_sessions_count u - 1\<rparr>) }"
  proof -
    have "(u_sessions u)[length xs := NULL] = xs @ NULL # ys @ ?rest"
      by (subst S(1)) (simp add: list_update_append)
    then show ?thesis
      using remove_session_first [OF wf rd k, of t f 0] first S(3,4)
      by (simp add: user_remove_session_def)
  qed
  show ?thesis
  proof (cases "u_sessions_count u < u_sessions_capacity u")
    case True
    then have "?n < length (u_sessions u)" using wf by (simp add: wf_user_def word_less_nat_alt)
    then obtain z zs where z: "?rest = z # zs" by (metis Cons_nth_drop_Suc)
    define u' where "u' = u\<lparr>u_sessions := xs @ ys @ z # NULL # zs, u_sessions_count := u_sessions_count u - 1\<rparr>"
    have res: "user_remove_session m u t f = Some (0, u')"
      using run [unfolded z] bubble_moves [of xs NULL ys z zs] S(2) by (simp add: u'_def)
    have cnt: "unat (u_sessions_count u - 1) = length xs + length ys"
      using S(2) by (simp add: unat_sub word_le_nat_alt)
    have len: "length (u_sessions u) = length xs + length ys + 2 + length zs"
      by (subst S(1)) (simp add: z)
    have "wf_user u'" using wf cnt len True
      by (auto simp: wf_user_def u'_def word_le_nat_alt word_less_nat_alt)
    moreover have "session_list u' = xs @ ys" using cnt by (simp add: session_list_def u'_def)
    ultimately show ?thesis using True res by (simp add: u'_def)
  next
    case False
    then have "?n = length (u_sessions u)" using wf by (simp add: wf_user_def)
    with run bubble_overruns [of xs NULL ys] S(2) False show ?thesis by simp
  qed
qed

lemma user_remove_session_absent:
  assumes wf: "wf_user u" and rd: "readable m u" and none: "\<forall>x \<in> set (session_list u). \<not> is_for m t f x"
  shows "user_remove_session m u t f = Some (-1, u)"
proof -
  have "\<forall>j < unat (u_sessions_count u). \<not> is_for m t f (u_sessions u ! j)"
    using none drop_session_list(3) [OF wf] by blast
  then show ?thesis using remove_session_none [OF wf rd] by (simp add: user_remove_session_def)
qed

lemma user_add_session_list:
  assumes wf: "wf_user u" and room: "u_sessions_count u < u_sessions_capacity u"
  shows "\<exists>u'. user_add_session u a = Some (0, u') \<and> session_list u' = session_list u @ [a] \<and> wf_user u' \<and>
    u_token u' = u_token u \<and> u_used_space u' = u_used_space u \<and> u_sessions_capacity u' = u_sessions_capacity u"
proof -
  let ?n = "unat (u_sessions_count u)"
  have n: "?n < length (u_sessions u)" using wf room by (simp add: wf_user_def word_less_nat_alt)
  have "?n + 1 < 2 ^ 64"
    using room unsigned_less [where 'a = nat, of "u_sessions_capacity u"] by (simp add: word_less_nat_alt)
  then have suc: "unat (u_sessions_count u + 1) = Suc ?n" by (simp add: unat_word_ariths)
  define u' where "u' = u\<lparr>u_sessions := (u_sessions u)[?n := a], u_sessions_count := u_sessions_count u + 1\<rparr>"
  have "user_add_session u a = Some (0, u')"
    using room n by (simp add: user_add_session_def array_set_def u'_def not_le)
  moreover have "session_list u' = session_list u @ [a]"
    using n suc by (simp add: session_list_def u'_def take_Suc_conv_app_nth)
  moreover have "wf_user u'"
    using wf room suc by (simp add: wf_user_def u'_def word_le_nat_alt word_less_nat_alt)
  ultimately show ?thesis by (simp add: u'_def)
qed

lemma user_add_session_full: "\<not> u_sessions_count u < u_sessions_capacity u \<Longrightarrow> user_add_session u a = Some (-1, u)"
  by (simp add: user_add_session_def not_less)

lemma remove1_by_none:
  assumes "\<forall>x \<in> set xs. \<not> P x"
  shows "remove1_by P xs = xs"
proof -
  have "takeWhile (\<lambda>x. \<not> P x) xs = xs" "dropWhile (\<lambda>x. \<not> P x) xs = []"
    using assms by (simp_all only: takeWhile_eq_all_conv dropWhile_eq_Nil_conv)
  then show ?thesis by (simp only: remove1_by_def append_Nil2 list.sel)
qed

section \<open>Properties\<close>

text \<open>
  C19. The sessions of a user behave as a bounded list, up to one fault. A new user has none and
  room for ten. user_add_session appends while there is room and refuses with -1, changing nothing,
  when the list is as long as the capacity, so the bound is never passed; user_get_session returns
  the first session of the type and file name, or NULL; user_remove_session returns -1 when there
  is no such session, and otherwise takes exactly the first one out, unless the array is full: then
  it reads behind the end of the array.
\<close>

theorem user_sessions_refine:
  assumes "wf_user u" "readable m u"
  shows "wf_user (user_init g arr t) \<and> session_list (user_init g arr t) = [] \<and> u_sessions_capacity (user_init g arr t) = 10 \<and>
    length (session_list u) \<le> unat (u_sessions_capacity u) \<and>
    (\<exists>ret u'. user_add_session u a = Some (ret, u') \<and> wf_user u' \<and> u_sessions_capacity u' = u_sessions_capacity u \<and>
      (if length (session_list u) < unat (u_sessions_capacity u) then ret = 0 \<and> session_list u' = session_list u @ [a]
       else ret = -1 \<and> u' = u)) \<and>
    user_get_session m u t' f =
      Some (case filter (is_for m t' f) (session_list u) of [] \<Rightarrow> NULL | b # _ \<Rightarrow> b) \<and>
    (if (\<exists>b \<in> set (session_list u). is_for m t' f b) \<and> length (session_list u) = unat (u_sessions_capacity u)
     then user_remove_session m u t' f = None
     else \<exists>ret u'. user_remove_session m u t' f = Some (ret, u') \<and> wf_user u' \<and>
      ret = (if \<exists>b \<in> set (session_list u). is_for m t' f b then 0 else -1) \<and>
      session_list u' = remove1_by (is_for m t' f) (session_list u))"
proof -
  have room: "length (session_list u) < unat (u_sessions_capacity u) \<longleftrightarrow> u_sessions_count u < u_sessions_capacity u"
    and le: "length (session_list u) \<le> unat (u_sessions_capacity u)"
    using assms(1) length_session_list [OF assms(1)] by (simp_all add: wf_user_def word_less_nat_alt word_le_nat_alt)
  have new: "wf_user (user_init g arr t)" "session_list (user_init g arr t) = []" "u_sessions_capacity (user_init g arr t) = 10"
    by (simp_all add: wf_user_def session_list_def user_init_def)
  have add: "\<exists>ret u'. user_add_session u a = Some (ret, u') \<and> wf_user u' \<and> u_sessions_capacity u' = u_sessions_capacity u \<and>
      (if length (session_list u) < unat (u_sessions_capacity u) then ret = 0 \<and> session_list u' = session_list u @ [a]
       else ret = -1 \<and> u' = u)"
    using user_add_session_list [OF assms(1), of a] user_add_session_full [of u a] assms(1) by (auto simp: room)
  have get: "user_get_session m u t' f =
      Some (case filter (is_for m t' f) (session_list u) of [] \<Rightarrow> NULL | b # _ \<Rightarrow> b)"
    using get_session_from_list [OF assms, of t' f 0] by (simp add: user_get_session_def)
  have remove: "if (\<exists>b \<in> set (session_list u). is_for m t' f b) \<and> length (session_list u) = unat (u_sessions_capacity u)
     then user_remove_session m u t' f = None
     else \<exists>ret u'. user_remove_session m u t' f = Some (ret, u') \<and> wf_user u' \<and>
      ret = (if \<exists>b \<in> set (session_list u). is_for m t' f b then 0 else -1) \<and>
      session_list u' = remove1_by (is_for m t' f) (session_list u)"
  proof (cases "\<exists>b \<in> set (session_list u). is_for m t' f b")
    case True
    then obtain xs b ys where b: "session_list u = xs @ b # ys" "is_for m t' f b"
      "\<forall>x \<in> set xs. \<not> is_for m t' f x" using split_list_first_propE by metis
    then have "remove1_by (is_for m t' f) (session_list u) = xs @ ys"
      by (simp add: remove1_by_def takeWhile_append2 dropWhile_append2)
    with user_remove_session_found [OF assms b(1,3,2)] room le True show ?thesis by (auto split: if_splits)
  next
    case False
    with user_remove_session_absent [OF assms, of t' f] remove1_by_none [of "session_list u" "is_for m t' f"] assms(1)
    show ?thesis by auto
  qed
  show ?thesis using new le add get remove by blast
qed

text \<open>Memory with two sessions, for the witnesses: an upload of x and a download of x.\<close>

definition sample_info :: "string \<Rightarrow> FileInfo" where
  "sample_info name = \<lparr>fi_size = 0, fi_chunk_count = 0, fi_checksum = [], fi_filename = cbytes name\<rparr>"

definition sample_objects :: objects where
  "sample_objects =
     \<lparr>sess = [5 \<mapsto> session_init 7 SESS_UPLOAD zero_time, 6 \<mapsto> session_init 7 SESS_DOWNLOAD zero_time],
      infos = [7 \<mapsto> sample_info ''x'']\<rparr>"

definition sample_user :: "addr list \<Rightarrow> User" where
  "sample_user as = (user_init [] (\<lambda>_. 0) None)
     \<lparr>u_sessions := as @ replicate (10 - length as) 0, u_sessions_count := of_nat (length as)\<rparr>"

lemma info_name_sample [simp]: "NUL \<notin> set s \<Longrightarrow> info_name (sample_info s) = Some s"
  using cstr_cbytes [of s "[]"] by (simp add: info_name_def sample_info_def)

lemma sample_session_at [simp]:
  "session_at sample_objects 5 = Some (session_init 7 SESS_UPLOAD zero_time, ''x'')"
  "session_at sample_objects 6 = Some (session_init 7 SESS_DOWNLOAD zero_time, ''x'')"
  by (simp_all add: session_at_def sample_objects_def session_init_def NUL_def)

theorem user_sessions_refine_witness:
  "(\<exists>u'. user_add_session (sample_user [6, 5]) 9 = Some (0, u') \<and> session_list u' = [6, 5, 9]) \<and>
   user_get_session sample_objects (sample_user [6, 5]) SESS_UPLOAD ''x'' = Some 5 \<and>
   (\<exists>u'. user_remove_session sample_objects (sample_user [6, 5]) SESS_DOWNLOAD ''x'' = Some (0, u') \<and>
     session_list u' = [5])"
proof -
  let ?u = "sample_user [6, 5]"
  have h: "wf_user ?u" "readable sample_objects ?u" "unat (u_sessions_capacity ?u) = 10"
    by (simp_all add: sample_user_def wf_user_def user_init_def readable_def session_list_def)
  have l: "session_list ?u = [6, 5]" by (simp add: session_list_def sample_user_def)
  note T = user_sessions_refine [OF h(1,2), of "[]" "\<lambda>_. 0" None 9, unfolded l h(3)]
  show ?thesis
    using T [of SESS_UPLOAD "''x''"] T [of SESS_DOWNLOAD "''x''"]
    by (auto simp: is_for_def session_init_def remove1_by_def)
qed

text \<open>
  Once a user has ten sessions the array is full: user_add_session refuses an eleventh, and
  removing any session of the user reads and writes the element behind the end of the array.
\<close>

theorem user_remove_full_faults:
  assumes "wf_user u" "readable m u" "u_sessions_count u = u_sessions_capacity u"
    and "b \<in> set (session_list u)" "is_for m t f b"
  shows "user_add_session u a = Some (-1, u) \<and> user_remove_session m u t f = None"
proof -
  from assms(4,5) obtain xs c ys where c: "session_list u = xs @ c # ys" "is_for m t f c"
    "\<forall>x \<in> set xs. \<not> is_for m t f x" using split_list_first_propE by metis
  from user_remove_session_found [OF assms(1,2) c(1,3,2)] assms(3) show ?thesis
    by (simp add: user_add_session_def)
qed

theorem user_remove_full_faults_witness:
  "user_add_session (sample_user (replicate 10 5)) 6 = Some (-1, sample_user (replicate 10 5)) \<and>
   user_remove_session sample_objects (sample_user (replicate 10 5)) SESS_UPLOAD ''x'' = None"
  by (rule user_remove_full_faults [where b = 5])
    (simp_all add: sample_user_def wf_user_def user_init_def readable_def session_list_def is_for_def
      session_init_def)

end
