(* ===== verification/UserManager.thy ===== *)
theory UserManager
  imports UserMap Users
begin

text \<open>
  The user manager: src/user_manager.c and src/user_manager.h. It keeps the global user_map, whose
  values are pointers to users, and loads it from the names in the storage directory. uuid_parse
  and uuid_generate are libuuid's, parameters: the token a text stands for, if any, and a new
  token. opendir and readdir give the list of names, or nothing when the directory cannot be
  opened. stack is what the uninitialised token of each loop iteration holds.
\<close>

record uman =
  user_map :: UserMap
  um_heap :: "addr heap"
  users :: "addr \<Rightarrow> User option"
  users_brk :: addr
  fresh_array :: "addr \<Rightarrow> nat \<Rightarrow> addr"

definition uman_get_user :: "(uuid \<Rightarrow> uuid \<Rightarrow> int) \<Rightarrow> uuid \<Rightarrow> uman \<Rightarrow> addr option" where
  "uman_get_user cmp token st = do {
     (_, user) \<leftarrow> umap_get cmp (user_map st) token None (um_heap st);
     Some (case user of None \<Rightarrow> NULL | Some a \<Rightarrow> a)
   }"

text \<open>The result of umap_put is ignored.\<close>

definition uman_register_user :: "(uuid \<Rightarrow> uuid \<Rightarrow> int) \<Rightarrow> uuid \<Rightarrow> uuid \<Rightarrow> uman \<Rightarrow> uman option" where
  "uman_register_user cmp generated token st = do {
     let user = users_brk st;
     let st = st\<lparr>users := (users st)(user \<mapsto> user_init generated (fresh_array st user) (Some token)),
                users_brk := user + 1\<rparr>;
     (_, m, h) \<leftarrow> umap_put cmp (user_map st) token user (um_heap st);
     Some (st\<lparr>user_map := m, um_heap := h\<rparr>)
   }"

fun uman_load ::
  "(uuid \<Rightarrow> uuid \<Rightarrow> int) \<Rightarrow> uuid \<Rightarrow> (string \<Rightarrow> uuid option) \<Rightarrow> (nat \<Rightarrow> uuid) \<Rightarrow> string list \<Rightarrow>
   uman \<Rightarrow> uman option" where
  "uman_load cmp generated uuid_parse stack [] st = Some st"
| "uman_load cmp generated uuid_parse stack (d_name # names) st =
     (if d_name = ''.'' \<or> d_name = ''..'' then uman_load cmp generated uuid_parse stack names st
      else do {
        let token = (case uuid_parse d_name of Some t \<Rightarrow> t | None \<Rightarrow> stack 0);
        st \<leftarrow> uman_register_user cmp generated token st;
        uman_load cmp generated uuid_parse (\<lambda>i. stack (Suc i)) names st
      })"

definition uman_init ::
  "(uuid \<Rightarrow> uuid \<Rightarrow> int) \<Rightarrow> uuid \<Rightarrow> (string \<Rightarrow> uuid option) \<Rightarrow> (nat \<Rightarrow> uuid) \<Rightarrow> string list option \<Rightarrow>
   uman \<Rightarrow> uman option" where
  "uman_init cmp generated uuid_parse stack listing st = do {
     let st = st\<lparr>user_map := umap_init 256\<rparr>;
     case listing of None \<Rightarrow> Some st
     | Some names \<Rightarrow> uman_load cmp generated uuid_parse stack names st
   }"

definition uman_deinit :: "uman \<Rightarrow> uman option" where
  "uman_deinit st = do { h \<leftarrow> umap_free_entries (user_map st) (um_heap st); Some (st\<lparr>um_heap := h\<rparr>) }"

section \<open>A sequence of registrations\<close>

fun register_all ::
  "(uuid \<Rightarrow> uuid \<Rightarrow> int) \<Rightarrow> uuid \<Rightarrow> uuid list \<Rightarrow> uman \<Rightarrow> uman option" where
  "register_all cmp generated [] st = Some st"
| "register_all cmp generated (t # ts) st = do {
     st \<leftarrow> uman_register_user cmp generated t st;
     register_all cmp generated ts st
   }"

text \<open>The tokens uman_init registers: one for every name but the dot entries.\<close>

fun loaded_tokens :: "(string \<Rightarrow> uuid option) \<Rightarrow> (nat \<Rightarrow> uuid) \<Rightarrow> string list \<Rightarrow> uuid list" where
  "loaded_tokens uuid_parse stack [] = []"
| "loaded_tokens uuid_parse stack (n # ns) =
     (if n = ''.'' \<or> n = ''..'' then loaded_tokens uuid_parse stack ns
      else (case uuid_parse n of Some t \<Rightarrow> t | None \<Rightarrow> stack 0) #
        loaded_tokens uuid_parse (\<lambda>i. stack (Suc i)) ns)"

lemma uman_load_registers:
  "uman_load cmp g p stack names = register_all cmp g (loaded_tokens p stack names)"
  by (induction names arbitrary: stack) (auto simp: fun_eq_iff [symmetric] Let_def intro!: ext)

lemma register_all_puts:
  "run_puts dir_put (zip ts [users_brk st..<users_brk st + length ts]) (cmp, user_map st, um_heap st) =
     Some (cmp', m', h') \<Longrightarrow>
   \<exists>st'. register_all cmp g ts st = Some st' \<and> user_map st' = m' \<and> um_heap st' = h' \<and> cmp' = cmp \<and>
     (\<forall>a < users_brk st. users st' a = users st a) \<and>
     (\<forall>i < length ts. \<exists>u. users st' (users_brk st + i) = Some u \<and> u_token u = ts ! i)"
proof (induction ts arbitrary: st)
  case Nil
  then show ?case by simp
next
  case (Cons t ts)
  let ?n = "users_brk st"
  have z: "zip (t # ts) [?n..<?n + length (t # ts)] = (t, ?n) # zip ts [Suc ?n..<Suc ?n + length ts]"
    by (simp add: upt_conv_Cons del: upt_Suc)
  from Cons.prems [unfolded z] obtain r m1 h1 where
    p: "umap_put cmp (user_map st) t ?n (um_heap st) = Some (r, m1, h1)" and
    rest: "run_puts dir_put (zip ts [Suc ?n..<Suc ?n + length ts]) (cmp, m1, h1) = Some (cmp', m', h')"
    by (auto simp: dir_put_def [of t] bind_eq_Some_conv simp del: upt_Suc)
  define st1 where "st1 = st\<lparr>users := (users st)(?n \<mapsto> user_init g (fresh_array st ?n) (Some t)),
    users_brk := ?n + 1, user_map := m1, um_heap := h1\<rparr>"
  have reg: "uman_register_user cmp g t st = Some st1"
    using p by (simp add: uman_register_user_def st1_def Let_def)
  have st1: "users_brk st1 = Suc ?n" "user_map st1 = m1" "um_heap st1 = h1"
    "users st1 = (users st)(?n \<mapsto> user_init g (fresh_array st ?n) (Some t))"
    by (simp_all add: st1_def)
  from Cons.IH [of st1] rest st1(1-3) obtain st' where
    all: "register_all cmp g ts st1 = Some st'" "user_map st' = m'" "um_heap st' = h'" "cmp' = cmp" and
    old: "\<forall>a < Suc ?n. users st' a = users st1 a" and
    new: "\<forall>i < length ts. \<exists>u. users st' (Suc ?n + i) = Some u \<and> u_token u = ts ! i"
    by auto
  have "\<exists>u. users st' (?n + i) = Some u \<and> u_token u = (t # ts) ! i" if "i < length (t # ts)" for i
    using that old new st1(4) by (cases i) (auto simp: user_init_def)
  with reg all old st1(4) show ?case by auto
qed

lemma map_fst_filter_zip:
  "length xs = length ns \<Longrightarrow> map fst (filter (\<lambda>p. P (fst p)) (zip xs ns)) = filter P xs"
  by (induction xs ns rule: list_induct2) auto

text \<open>The manager before any registration, with clear memory behind malloc.\<close>

definition uman_start :: "(addr \<Rightarrow> nat \<Rightarrow> addr) \<Rightarrow> uman" where
  "uman_start arrays =
     \<lparr>user_map = umap_init 256, um_heap = fresh_heap, users = \<lambda>_. None, users_brk = 1, fresh_array = arrays\<rparr>"

section \<open>Properties\<close>

text \<open>
  Who a token is: after any sequence of registrations, uman_get_user returns NULL for a token
  that was never registered; for a registered one it returns the user that was registered first
  among all tokens of the same bucket, which is the token's own user only when no other token of
  its bucket came before it.
\<close>

theorem uman_get_user_history:
  assumes "uuid_order cmp" "\<forall>t \<in> set ts. length t = uuid_size" "length tok = uuid_size"
  shows "\<exists>st a. register_all cmp g ts (uman_start arrays) = Some st \<and> uman_get_user cmp tok st = Some a \<and>
    (a = NULL \<longleftrightarrow> tok \<notin> set ts) \<and>
    (a \<noteq> NULL \<longrightarrow> (\<exists>u. users st a = Some u \<and>
       u_token u = hd (filter (\<lambda>t. bucket_of 256 t = bucket_of 256 tok) ts)))"
proof -
  let ?regs = "zip ts [1..<1 + length ts]"
  let ?P = "\<lambda>t. bucket_of 256 t = bucket_of 256 tok"
  have keys: "\<forall>p \<in> set ?regs. length (fst p) = uuid_size"
    using assms(2) by (auto dest: set_zip_leftD)
  have "map fst ?regs = ts" by (simp del: upt_Suc)
  then have fsts: "fst ` set ?regs = set ts" by (simp only: set_map [symmetric])
  from dir_history [OF assms(1) _ keys assms(3), of 256] get_put_all_spec [of 256 tok ?regs]
  obtain c m h where run: "run_puts dir_put ?regs (cmp, umap_init 256, fresh_heap) = Some (c, m, h)" and
    get: "dir_get tok (c, m, h) = Some (if tok \<in> set ts
      then Some (snd (hd (in_bucket 256 (bucket_of 256 tok) ?regs))) else None)"
    unfolding fsts by (auto simp del: upt_Suc)
  from register_all_puts [of ts "uman_start arrays" cmp c m h g] run obtain st where
    st: "register_all cmp g ts (uman_start arrays) = Some st" "user_map st = m" "um_heap st = h" "c = cmp"
    and tok: "\<forall>i < length ts. \<exists>u. users st (1 + i) = Some u \<and> u_token u = ts ! i"
    by (auto simp: uman_start_def simp del: upt_Suc)
  have get': "uman_get_user cmp tok st = Some (if tok \<in> set ts
      then snd (hd (in_bucket 256 (bucket_of 256 tok) ?regs)) else NULL)"
    using get st(2-4) by (auto simp: uman_get_user_def dir_get_def bind_eq_Some_conv simp del: upt_Suc split: if_splits)
  show ?thesis
  proof (cases "tok \<in> set ts")
    case False
    with st(1) get' show ?thesis by auto
  next
    case True
    let ?b = "in_bucket 256 (bucket_of 256 tok) ?regs"
    have firsts: "map fst ?b = filter ?P ts"
      using map_fst_filter_zip [of ts "[1..<1 + length ts]" ?P] by (simp add: in_bucket_def del: upt_Suc)
    have "filter ?P ts \<noteq> []" using True by (auto simp: filter_empty_conv)
    with firsts have ne: "?b \<noteq> []" by (metis list.map_disc_iff)
    then have "hd ?b \<in> set ?b" by (rule hd_in_set)
    then have "hd ?b \<in> set ?regs" by (simp only: in_bucket_def set_filter mem_Collect_eq)
    then obtain i where i: "i < length ts" "hd ?b = (ts ! i, Suc i)"
      by (auto simp: in_set_conv_nth simp del: upt_Suc)
    have "fst (hd ?b) = hd (map fst ?b)" by (rule hd_map [OF ne, symmetric])
    then have "ts ! i = hd (filter ?P ts)" by (simp only: firsts i(2) fst_conv)
    with tok i obtain u where "users st (Suc i) = Some u" "u_token u = hd (filter ?P ts)" by auto
    with st(1) get' True i(2) show ?thesis by auto
  qed
qed

theorem uman_get_user_history_witness:
  "\<exists>st a u. register_all sample_compare [] [sample_token 0 33, sample_token 1 0] (uman_start (\<lambda>_ _. 0)) = Some st \<and>
    uman_get_user sample_compare (sample_token 1 0) st = Some a \<and> users st a = Some u \<and>
    u_token u = sample_token 0 33"
  using uman_get_user_history [OF sample_compare_order, of "[sample_token 0 33, sample_token 1 0]"
      "sample_token 1 0" "[]" "\<lambda>_ _. 0"]
  by (auto simp: sample_token_buckets simp del: register_all.simps)

text \<open>
  Loading the users at start-up: uman_init registers one user for each name in the storage
  directory, the dot entries aside, in the order of the names; a name that is no UUID is announced
  as skipped but still registers a user, under whatever the uninitialised token held.
\<close>

theorem uman_init_loads:
  "uman_init cmp g uuid_parse stack (Some names) st =
     register_all cmp g (loaded_tokens uuid_parse stack names) (st\<lparr>user_map := umap_init 256\<rparr>) \<and>
   length (loaded_tokens uuid_parse stack names) = length (filter (\<lambda>n. n \<noteq> ''.'' \<and> n \<noteq> ''..'') names) \<and>
   (uuid_parse n = None \<and> n \<noteq> ''.'' \<and> n \<noteq> ''..'' \<longrightarrow> loaded_tokens uuid_parse stack (n # names) =
     stack 0 # loaded_tokens uuid_parse (\<lambda>i. stack (Suc i)) names)"
proof -
  have "length (loaded_tokens uuid_parse stack names) = length (filter (\<lambda>n. n \<noteq> ''.'' \<and> n \<noteq> ''..'') names)"
    by (induction names arbitrary: stack) auto
  then show ?thesis by (simp add: uman_init_def uman_load_registers)
qed

theorem uman_init_loads_witness:
  "loaded_tokens (\<lambda>_. None) (\<lambda>_. sample_token 1 2) [''lost+found''] = [sample_token 1 2]"
  using uman_init_loads [of _ _ "\<lambda>_. None" "\<lambda>_. sample_token 1 2" "[]" _ "''lost+found''"] by simp

end
