(* ===== verification/Server.thy ===== *)
theory Server
  imports UserManager FileXfer
begin

text \<open>
  The request handlers of src/server.c and their helpers in src/util.c (send_error,
  send_upload_res, send_download_res, handle_recv_error). A handler works on the state of the
  server: the connection it answers on, the file system, the users and the sessions. None is a
  crash: a failed assert or a bad memory access. Printing is left out.
\<close>

section \<open>The libraries and the state\<close>

text \<open>
  libuuid, OpenSSL and strerror are parameters. uuid_generate is the token user_init would draw
  without a given one, which the server never needs.
\<close>

record lib =
  uuid_unparse :: "uuid \<Rightarrow> string"
  uuid_parse :: "string \<Rightarrow> uuid option"
  uuid_compare :: "uuid \<Rightarrow> uuid \<Rightarrow> int"
  uuid_is_null :: "uuid \<Rightarrow> bool"
  uuid_generate :: uuid
  sha256 :: "byte list \<Rightarrow> byte list"
  strerror :: "int \<Rightarrow> string"

text \<open>
  A socket's side of the kernel, kept while another socket is worked on. open_fds are the client
  sockets, epoll those in the interest list of epfd, nonblock those with O_NONBLOCK. Sessions and
  the FileInfos they point to (objs) are allocated one after the other from brk and never freed.
\<close>

record socket =
  so_rx :: "rx_event list"
  so_tx_plan :: "tx_event list"
  so_tx :: "byte list"

record server = io +
  man :: uman
  objs :: objects
  brk :: addr
  open_fds :: "nat \<Rightarrow> socket option"
  epoll :: "nat set"
  nonblock :: "nat set"

section \<open>Answers (util.c)\<close>

definition send_msg :: "MessageType \<Rightarrow> byte list \<Rightarrow> usize \<Rightarrow> 'a conn_scheme \<Rightarrow> (int \<times> 'a conn_scheme) option" where
  "send_msg ty bytes len c = do {
     (ret, _, c) \<leftarrow> msg_send (msg_init zero_msg ty (Some bytes) len) None 0 c;
     Some (ret, c)
   }"

definition send_error :: "string \<Rightarrow> 'a conn_scheme \<Rightarrow> (int \<times> 'a conn_scheme) option" where
  "send_error text = send_msg MSGTYPE_ERROR (cbytes text) (of_nat (length text + 1))"

definition send_upload_res :: "byte list \<Rightarrow> usize \<Rightarrow> 'a conn_scheme \<Rightarrow> (int \<times> 'a conn_scheme) option" where
  "send_upload_res = send_msg MSGTYPE_UPLOAD_RES"

definition send_download_res :: "byte list \<Rightarrow> usize \<Rightarrow> 'a conn_scheme \<Rightarrow> (int \<times> 'a conn_scheme) option" where
  "send_download_res = send_msg MSGTYPE_DOWNLOAD_RES"

definition handle_recv_error :: "int \<Rightarrow> bool" where
  "handle_recv_error ret \<longleftrightarrow> 0 \<le> ret"

text \<open>An answer whose result the caller ignores, at the end of a handler.\<close>

definition answer_error :: "string \<Rightarrow> 'a conn_scheme \<Rightarrow> 'a conn_scheme option" where
  "answer_error text c = do { (_, c) \<leftarrow> send_error text c; Some c }"

section \<open>Memory of the server\<close>

text \<open>
  The payload as a FileInfo: with no payload the pointer is not set, and a payload shorter than
  the struct is read past its end; both are faults. fileinfo_print reads the name.
\<close>

definition payload_info :: "Message \<Rightarrow> FileInfo option" where
  "payload_info msg = do {
     mem \<leftarrow> payload msg;
     assert_that (FileInfo_size \<le> length mem);
     Some (dec_info mem)
   }"

definition payload_string :: "Message \<Rightarrow> string option" where
  "payload_string msg = do { mem \<leftarrow> payload msg; cstr mem }"

definition new_info :: "FileInfo \<Rightarrow> server \<Rightarrow> addr \<times> server" where
  "new_info i s = (brk s, s\<lparr>objs := (objs s)\<lparr>infos := (infos (objs s))(brk s \<mapsto> i)\<rparr>, brk := brk s + 1\<rparr>)"

definition set_info :: "addr \<Rightarrow> FileInfo \<Rightarrow> server \<Rightarrow> server" where
  "set_info a i s = s\<lparr>objs := (objs s)\<lparr>infos := (infos (objs s))(a \<mapsto> i)\<rparr>\<rparr>"

definition set_session :: "addr \<Rightarrow> Session \<Rightarrow> server \<Rightarrow> server" where
  "set_session a x s = s\<lparr>objs := (objs s)\<lparr>sess := (sess (objs s))(a \<mapsto> x)\<rparr>\<rparr>"

definition set_user :: "addr \<Rightarrow> User \<Rightarrow> server \<Rightarrow> server" where
  "set_user a u s = s\<lparr>man := (man s)\<lparr>users := (users (man s))(a \<mapsto> u)\<rparr>\<rparr>"

text \<open>
  The session of a transfer: the one found, with the number of chunks an interrupted transfer
  had, or a new one, for which there may be no room. The result of user_add_session is ignored.
\<close>

definition open_session ::
  "SessionType \<Rightarrow> addr \<Rightarrow> addr \<Rightarrow> string \<Rightarrow> server \<Rightarrow> (usize \<times> addr \<times> server) option" where
  "open_session type user info filename s = do {
     u \<leftarrow> users (man s) user;
     session \<leftarrow> user_get_session (objs s) u type filename;
     if session \<noteq> NULL
     then do {
       x \<leftarrow> sess (objs s) session;
       Some (if s_state x = SSTATE_INTERRUPTED then s_last_transfered_chunk x else 0, session, s)
     }
     else do {
       let session = brk s;
       let (now, s) = clock_gettime (s\<lparr>brk := session + 1\<rparr>);
       let s = set_session session (session_init info type now) s;
       (_, u) \<leftarrow> user_add_session u session;
       Some (0, session, set_user user u s)
     }
   }"

text \<open>session->state = SSTATE_INTERRUPTED, with the chunk the transfer had come to.\<close>

definition interrupt_session :: "addr \<Rightarrow> usize \<Rightarrow> server \<Rightarrow> server option" where
  "interrupt_session session chunk s = do {
     x \<leftarrow> sess (objs s) session;
     Some (set_session session (x\<lparr>s_state := SSTATE_INTERRUPTED, s_last_transfered_chunk := chunk\<rparr>) s)
   }"

definition close_session :: "SessionType \<Rightarrow> addr \<Rightarrow> string \<Rightarrow> server \<Rightarrow> server option" where
  "close_session type user filename s = do {
     u \<leftarrow> users (man s) user;
     (_, u) \<leftarrow> user_remove_session (objs s) u type filename;
     Some (set_user user u s)
   }"

section \<open>handle_auth\<close>

text \<open>res is not initialised: its token and padding hold what was on the stack.\<close>

definition handle_auth :: "lib \<Rightarrow> Message \<Rightarrow> server \<Rightarrow> server option" where
  "handle_auth L msg s = do {
     let token = uuid_unparse L (hdr_token (hdr msg));
     let user_dir = snprintf_str PATH_MAX (STORAGE_DIR @ ''/'' @ token);
     let (ret, s) = fs_mkdir user_dir s;
     let (res, s) = uninit_msg s;
     (_, _, s) \<leftarrow> (if ret < 0
       then do {
         let error = strerror L (errno s);
         assert_that (length error < 100);
         let error = (if errno s = EEXIST then ''Already registered'' else error);
         msg_send (msg_init res MSGTYPE_AUTH_FAIL (Some (cbytes error)) (of_nat (length error + 1))) None 0 s
       }
       else msg_send (msg_init res MSGTYPE_AUTH_OK (Some (cbytes ''Registered'' @ [0])) 12) None 0 s);
     m \<leftarrow> uman_register_user (uuid_compare L) (uuid_generate L) (hdr_token (hdr msg)) (man s);
     Some (s\<lparr>man := m\<rparr>)
   }"

section \<open>handle_upload\<close>

text \<open>strncpy into the filename array: padded with zeros, and cut without a terminator.\<close>

definition strncpy_filename :: "string \<Rightarrow> FileInfo \<Rightarrow> FileInfo" where
  "strncpy_filename name i =
     i\<lparr>fi_filename := take (length (fi_filename i)) (map byte_of_char name @ replicate (length (fi_filename i)) 0)\<rparr>"

text \<open>From the end of file_recv on.\<close>

definition upload_end :: "addr \<Rightarrow> addr \<Rightarrow> string \<Rightarrow> FileRecvStats \<Rightarrow> server \<Rightarrow> server option" where
  "upload_end user session filename stats s = do {
     s \<leftarrow> (if recv_error_code stats < 0 then interrupt_session session (last_chunk_recvd stats) s else Some s);
     if recv_error_code stats = -1 then answer_error ''could not recv file'' s
     else if recv_error_code stats = -2 then Some s
     else do {
       let upload_succ = ''file successfully uploaded'';
       (_, s) \<leftarrow> send_msg MSGTYPE_UPLOAD_FIN (cbytes upload_succ) (of_nat (length upload_succ + 1)) s;
       close_session SESS_UPLOAD user filename s
     }
   }"

text \<open>From the check of the space on; name is the name the client sent.\<close>

definition upload_file :: "lib \<Rightarrow> addr \<Rightarrow> uuid \<Rightarrow> FileInfo \<Rightarrow> string \<Rightarrow> server \<Rightarrow> server option" where
  "upload_file L user token info name s = do {
     u \<leftarrow> users (man s) user;
     if u_total_space u < u_used_space u + fi_size info
     then answer_error ''user storage space is not sufficient'' s
     else do {
       let root_dir = snprintf_str PATH_MAX (STORAGE_DIR @ ''/'' @ uuid_unparse L token);
       base \<leftarrow> strrchr name CHR ''/'';
       let filename = snprintf_str (PATH_MAX * 2) (root_dir @ base);
       let info = strncpy_filename filename info;
       filename \<leftarrow> info_name info;
       let (a, s) = new_info info s;
       (seq, session, s) \<leftarrow> open_session SESS_UPLOAD user a filename s;
       let (ret, s) = fs_mkdir root_dir s;
       if ret = -1 \<and> errno s \<noteq> EEXIST then answer_error ''failed to create user directory'' s
       else do {
         (_, s) \<leftarrow> send_upload_res (le_of_u64 seq) 8 s;
         x \<leftarrow> sess (objs s) session;
         let s = set_session session (x\<lparr>s_state := SSTATE_RUNNING\<rparr>) s;
         (stats, s) \<leftarrow> file_recv (sha256 L) info s;
         upload_end user session filename stats s
       }
     }
   }"

definition handle_upload :: "lib \<Rightarrow> addr \<Rightarrow> Message \<Rightarrow> server \<Rightarrow> server option" where
  "handle_upload L user msg s =
     (if user = NULL then answer_error ''user not found'' s
      else do {
        (ret, msg, s) \<leftarrow> msg_recv_payload (of_nat FileInfo_size) msg s;
        if \<not> handle_recv_error ret then Some s
        else do {
          info \<leftarrow> payload_info msg;
          name \<leftarrow> info_name info;
          upload_file L user (hdr_token (hdr msg)) info name s
        }
      })"

section \<open>handle_download\<close>

text \<open>size_t to int and back: the low 32 bits, extended with their sign.\<close>

definition size_to_int :: "usize \<Rightarrow> usize" where
  "size_to_int w = scast (ucast w :: 32 word)"

text \<open>
  From the answer on: session is the transfer's, filename the path of the file, and a the place of
  the info that came from the client. The chunk to start with is the client's; the one the session
  remembers is overwritten before it is used.
\<close>

definition download_send :: "lib \<Rightarrow> addr \<Rightarrow> addr \<Rightarrow> addr \<Rightarrow> FileInfo \<Rightarrow> string \<Rightarrow> server \<Rightarrow> server option" where
  "download_send L user session a info filename s = do {
     let start_chunk = (if 0 < fi_size info then size_to_int (fi_chunk_count info) else 0);
     (_, info, s) \<leftarrow> fileinfo_from_filename (sha256 L) filename info s;
     let s = set_info a info s;
     name \<leftarrow> info_name info;
     (_, s) \<leftarrow> send_download_res (enc_info info) (of_nat FileInfo_size) s;
     (stats, s) \<leftarrow> file_send (sha256 L) name start_chunk s;
     if send_error_code stats < 0
     then do {
       s \<leftarrow> interrupt_session session (last_chunk_sent stats) s;
       answer_error (''transfer interrupted, try again to resume download'' @ [CHR 0x0A]) s
     }
     else close_session SESS_DOWNLOAD user filename s
   }"

definition handle_download :: "lib \<Rightarrow> addr \<Rightarrow> Message \<Rightarrow> server \<Rightarrow> server option" where
  "handle_download L user msg s =
     (if user = NULL then answer_error ''user not found'' s
      else do {
        (ret, msg, s) \<leftarrow> msg_recv_payload (of_nat FileInfo_size) msg s;
        if \<not> handle_recv_error ret then Some s
        else do {
          info \<leftarrow> payload_info msg;
          name \<leftarrow> info_name info;
          filename \<leftarrow> get_user_path (uuid_unparse L) True name (hdr_token (hdr msg));
          case filename of
            None \<Rightarrow> answer_error ''failed to get user path'' s
          | Some filename \<Rightarrow>
              let (found, s) = file_exists filename s
              in if found = -1 then answer_error ''error while checking if file exists'' s
                 else if found = 0 then answer_error ''file doesn't exist'' s
                 else do {
                   let (a, s) = new_info info s;
                   (_, session, s) \<leftarrow> open_session SESS_DOWNLOAD user a filename s;
                   download_send L user session a info filename s
                 }
        }
      })"

section \<open>handle_list\<close>

definition zero_info :: FileInfo where
  "zero_info = \<lparr>fi_size = 0, fi_chunk_count = 0, fi_checksum = replicate 32 0, fi_filename = replicate PATH_MAX 0\<rparr>"

text \<open>The loop over the entries. malloc does not fail; the results of the calls are ignored.\<close>

fun list_entries :: "lib \<Rightarrow> string \<Rightarrow> (string \<times> node) list \<Rightarrow> Message \<Rightarrow> 'a io_scheme \<Rightarrow> (Message \<times> 'a io_scheme) option" where
  "list_entries L path [] msg s = Some (msg, s)"
| "list_entries L path ((d_name, n) # es) msg s =
     (if d_name = ''.'' \<or> d_name = ''..'' then list_entries L path es msg s
      else do {
        let filepath = snprintf_str PATH_MAX (path @ ''/'' @ d_name);
        let msg = msg_init msg MSGTYPE_FILEINFO None (of_nat FileInfo_size);
        (info, s) \<leftarrow> (case n of
             NFile _ \<Rightarrow> do { (_, info, s) \<leftarrow> fileinfo_from_filename (sha256 L) filepath zero_info s; Some (info, s) }
           | _ \<Rightarrow> Some (zero_info, s));
        info \<leftarrow> set_filename d_name info;
        (_, msg, s) \<leftarrow> msg_send (msg\<lparr>payload := Some (enc_info info)\<rparr>) None 0 s;
        list_entries L path es msg s
      })"

definition handle_list :: "lib \<Rightarrow> addr \<Rightarrow> Message \<Rightarrow> server \<Rightarrow> server option" where
  "handle_list L user msg s =
     (if user = NULL then answer_error ''user not found'' s
      else do {
        (ret, msg, s) \<leftarrow> msg_recv_payload (of_nat PATH_MAX) msg s;
        if ret = -1 \<or> ret = -2 \<or> ret = -3 then Some s
        else do {
          name \<leftarrow> payload_string msg;
          path \<leftarrow> get_user_path (uuid_unparse L) True name (hdr_token (hdr msg));
          case path of
            None \<Rightarrow> Some s
          | Some path \<Rightarrow> (case opendir path s of
              (None, s) \<Rightarrow> answer_error (strerror L (errno s)) s
            | (Some es, s) \<Rightarrow> do {
                (msg, s) \<leftarrow> list_entries L path es msg s;
                (_, _, s) \<leftarrow> msg_send (msg_init msg MSGTYPE_NONE None 0) None 0 s;
                Some s
              })
        }
      })"

section \<open>handle_remove and handle_mkdir\<close>

text \<open>
  The fuel of rm_r: every level of the recursion makes the path longer, up to PATH_MAX, so more
  levels than this are an endless recursion, which overflows the stack.
\<close>

definition rm_fuel :: nat where
  "rm_fuel = PATH_MAX"

text \<open>The removal itself and its answer; filepath has passed the checks.\<close>

definition remove_path :: "lib \<Rightarrow> Message \<Rightarrow> string \<Rightarrow> FileInfo \<Rightarrow> 'a io_scheme \<Rightarrow> 'a io_scheme option" where
  "remove_path L msg filepath info s = do {
     (ret, s) \<leftarrow> rm_r rm_fuel (Some filepath) s;
     if ret = -1 then answer_error (strerror L (errno s)) s
     else do {
       (_, _, s) \<leftarrow> msg_send (msg_init msg MSGTYPE_REMOVE_RES (Some (enc_info info)) (of_nat FileInfo_size)) None 0 s;
       Some s
     }
   }"

definition handle_remove :: "lib \<Rightarrow> addr \<Rightarrow> Message \<Rightarrow> server \<Rightarrow> server option" where
  "handle_remove L user msg s =
     (if user = NULL then answer_error ''user not found'' s
      else do {
        (ret, msg, s) \<leftarrow> msg_recv_payload 8192 msg s;
        if ret < 0 then Some s
        else do {
          name \<leftarrow> payload_string msg;
          filepath \<leftarrow> get_user_path (uuid_unparse L) True name (hdr_token (hdr msg));
          case filepath of
            None \<Rightarrow> answer_error ''invalid path'' s
          | Some filepath \<Rightarrow> do {
              (ret, info, s) \<leftarrow> fileinfo_from_filename (sha256 L) filepath zero_info s;
              if ret < 0 \<and> ret \<noteq> -2
              then answer_error (''failed to get fileinfo from filename'' @ [CHR 0x0A]) s
              else do {
                info \<leftarrow> (if ret = -2 then set_filename filepath info else Some info);
                remove_path L msg filepath info s
              }
            }
        }
      })"

text \<open>path_next_dir's static variables are set anew by create_directories_from_path.\<close>

definition handle_mkdir :: "lib \<Rightarrow> addr \<Rightarrow> Message \<Rightarrow> server \<Rightarrow> server option" where
  "handle_mkdir L user msg s =
     (if user = NULL then answer_error ''user not found'' s
      else do {
        (ret, msg, s) \<leftarrow> msg_recv_payload 8192 msg s;
        if \<not> handle_recv_error ret then Some s
        else do {
          let root_dir = get_user_root (uuid_unparse L) (hdr_token (hdr msg));
          name \<leftarrow> payload_string msg;
          (ret, s) \<leftarrow> create_directories_from_path next_dir_statics True root_dir name s;
          if ret = -1 \<or> ret = -2 then answer_error ''invalid path'' s
          else if ret = -3 then answer_error (strerror L (errno s)) s
          else if ret < 0 then Some s
          else do {
            (_, _, s) \<leftarrow> msg_send (msg_init msg MSGTYPE_MKDIR_RES None 0) None 0 s;
            Some s
          }
        }
      })"

section \<open>The dispatcher\<close>

definition on_oneshot_req :: "lib \<Rightarrow> MessageType \<Rightarrow> addr \<Rightarrow> Message \<Rightarrow> server \<Rightarrow> server option" where
  "on_oneshot_req L ty user msg s = (case ty of
     MSGTYPE_AUTH_REQ \<Rightarrow> handle_auth L msg s
   | MSGTYPE_REMOVE_REQ \<Rightarrow> handle_remove L user msg s
   | MSGTYPE_MKDIR_REQ \<Rightarrow> handle_mkdir L user msg s
   | _ \<Rightarrow> Some s)"

text \<open>close; the kernel takes a closed descriptor out of the interest list.\<close>

definition close_fd :: "nat \<Rightarrow> server \<Rightarrow> server" where
  "close_fd fd s = s\<lparr>open_fds := (open_fds s)(fd := None), epoll := epoll s - {fd}, nonblock := nonblock s - {fd}\<rparr>"

definition on_client_disconnected :: "nat \<Rightarrow> server \<Rightarrow> server" where
  "on_client_disconnected client_fd s = close_fd client_fd s"

definition on_stream_req :: "lib \<Rightarrow> MessageType \<Rightarrow> nat \<Rightarrow> addr \<Rightarrow> Message \<Rightarrow> server \<Rightarrow> server option" where
  "on_stream_req L ty sockfd user msg s = do {
     s \<leftarrow> (case ty of
         MSGTYPE_UPLOAD_REQ \<Rightarrow> handle_upload L user msg s
       | MSGTYPE_DOWNLOAD_REQ \<Rightarrow> handle_download L user msg s
       | MSGTYPE_LIST_REQ \<Rightarrow> handle_list L user msg s
       | _ \<Rightarrow> Some s);
     Some (on_client_disconnected sockfd s)
   }"

text \<open>epoll_ctl DEL, and set_blocking, whose failures end the process and are left out.\<close>

definition epoll_del :: "nat \<Rightarrow> server \<Rightarrow> server" where
  "epoll_del fd s = s\<lparr>epoll := epoll s - {fd}\<rparr>"

definition set_blocking :: "nat \<Rightarrow> bool \<Rightarrow> server \<Rightarrow> server" where
  "set_blocking fd is_blocking s =
     s\<lparr>nonblock := (if is_blocking then nonblock s - {fd} else insert fd (nonblock s))\<rparr>"

text \<open>
  The first prints name the type: msg_type_to_str ends the program when it is no enumerator. The
  switch does nothing for the types that are no requests, and would do nothing for a value that is
  no enumerator, but such a value does not come that far.
\<close>

definition on_client_message_received :: "lib \<Rightarrow> nat \<Rightarrow> Message \<Rightarrow> server \<Rightarrow> (int \<times> server) option" where
  "on_client_message_received L sockfd msg s = do {
     _ \<leftarrow> msg_type_to_str (hdr_type (hdr msg));
     if hdr_type (hdr msg) \<noteq> type_code MSGTYPE_AUTH_REQ \<and> uuid_is_null L (hdr_token (hdr msg))
     then do {
       _ \<leftarrow> msg_type_to_str (hdr_type (hdr msg));
       (_, _, s) \<leftarrow> msg_send (msg_init msg MSGTYPE_AUTH_FAIL None 0) None 0 s;
       Some (-1, s)
     }
     else do {
       user \<leftarrow> uman_get_user (uuid_compare L) (hdr_token (hdr msg)) (man s);
       case msgtype_of (hdr_type (hdr msg)) of
         None \<Rightarrow> Some (0, s)
       | Some ty \<Rightarrow>
           if ty \<in> {MSGTYPE_AUTH_REQ, MSGTYPE_REMOVE_REQ, MSGTYPE_MKDIR_REQ}
           then do { s \<leftarrow> on_oneshot_req L ty user msg s; Some (0, s) }
           else if ty \<in> {MSGTYPE_UPLOAD_REQ, MSGTYPE_DOWNLOAD_REQ, MSGTYPE_LIST_REQ}
           then do {
             s \<leftarrow> on_stream_req L ty sockfd user msg (set_blocking sockfd True (epoll_del sockfd s));
             Some (0, s)
           }
           else do { _ \<leftarrow> (if ty = MSGTYPE_NONE then Some [] else msg_type_to_str (hdr_type (hdr msg))); Some (0, s) }
     }
   }"

text \<open>The dispatcher by the enumerator: as the type has a name, it is the code of one.\<close>

lemma on_client_message_received_eq:
  "on_client_message_received L sockfd msg s = do {
     _ \<leftarrow> msg_type_to_str (hdr_type (hdr msg));
     ty \<leftarrow> msgtype_of (hdr_type (hdr msg));
     if ty \<noteq> MSGTYPE_AUTH_REQ \<and> uuid_is_null L (hdr_token (hdr msg))
     then do {
       (_, _, s) \<leftarrow> msg_send (msg_init msg MSGTYPE_AUTH_FAIL None 0) None 0 s;
       Some (-1, s)
     }
     else do {
       user \<leftarrow> uman_get_user (uuid_compare L) (hdr_token (hdr msg)) (man s);
       if ty \<in> {MSGTYPE_AUTH_REQ, MSGTYPE_REMOVE_REQ, MSGTYPE_MKDIR_REQ}
       then do { s \<leftarrow> on_oneshot_req L ty user msg s; Some (0, s) }
       else if ty \<in> {MSGTYPE_UPLOAD_REQ, MSGTYPE_DOWNLOAD_REQ, MSGTYPE_LIST_REQ}
       then do {
         s \<leftarrow> on_stream_req L ty sockfd user msg (set_blocking sockfd True (epoll_del sockfd s));
         Some (0, s)
       }
       else Some (0, s)
     }
   }"
proof (cases "msg_type_to_str (hdr_type (hdr msg))")
  case None
  then show ?thesis by (simp add: on_client_message_received_def)
next
  case (Some name)
  then obtain ty where ty: "msgtype_of (hdr_type (hdr msg)) = Some ty" by (auto simp: msg_type_to_str_def split: option.splits)
  then have "hdr_type (hdr msg) = type_code MSGTYPE_AUTH_REQ \<longleftrightarrow> ty = MSGTYPE_AUTH_REQ"
    using msg_type_codes [of ty "hdr_type (hdr msg)"] msg_type_codes [of MSGTYPE_AUTH_REQ] by auto
  with Some ty show ?thesis by (simp add: on_client_message_received_def cong: if_cong)
qed

end
