(* ===== verification/ServerSafety.thy ===== *)
theory ServerSafety
  imports FsOps Server
begin

text \<open>
  What a request can change, whatever the client sends and the system calls answer: the files of
  the user who asks and nothing else, nothing at all without a token or a known user.
\<close>

section \<open>Effects of the server's functions\<close>

text \<open>The tree by an effect R; the sockets and the interest list stay.\<close>

definition srv_rel :: "(node \<Rightarrow> node \<Rightarrow> bool) \<Rightarrow> server \<Rightarrow> server \<Rightarrow> bool" where
  "srv_rel R s s' \<longleftrightarrow> cwd s' = cwd s \<and> open_fds s' = open_fds s \<and> epoll s' = epoll s \<and>
     nonblock s' = nonblock s \<and> R (fs s) (fs s')"

abbreviation srv_same :: "server \<Rightarrow> server \<Rightarrow> bool" where
  "srv_same \<equiv> srv_rel (=)"

text \<open>What the functions of the io part keep of the server.\<close>

definition state_same :: "server \<Rightarrow> server \<Rightarrow> bool" where
  "state_same s s' \<longleftrightarrow> man s' = man s \<and> objs s' = objs s \<and> brk s' = brk s"

lemma more_same:
  assumes "io.more s' = io.more (s :: server)"
  shows "state_same s s'" "open_fds s' = open_fds s" "epoll s' = epoll s" "nonblock s' = nonblock s"
  using assms by (cases s; cases s'; simp add: state_same_def)+

lemma io_srv: "io_rel R s s' \<Longrightarrow> srv_rel R s s'"
  using more_same [of s' s] by (simp add: io_rel_def srv_rel_def)

lemma io_state: "io_rel R s s' \<Longrightarrow> state_same s s'"
  using more_same(1) [of s' s] by (simp add: io_rel_def)

lemma srv_same_refl [simp]: "srv_same s s"
  by (simp add: srv_rel_def)

context effect
begin

lemma srv_of_same: "srv_same s s' \<Longrightarrow> srv_rel R s s'"
  by (simp add: srv_rel_def R_refl)

lemma srv_trans: "srv_rel R a b \<Longrightarrow> srv_rel R b c \<Longrightarrow> srv_rel R a c"
  using R_trans by (auto simp: srv_rel_def)

lemma srv_then_same: "srv_rel R a b \<Longrightarrow> srv_same b c \<Longrightarrow> srv_rel R a c"
  by (simp add: srv_rel_def)

lemma srv_same_then: "srv_same a b \<Longrightarrow> srv_rel R b c \<Longrightarrow> srv_rel R a c"
  by (simp add: srv_rel_def)

end

lemmas srv_same_trans [trans] = none.srv_trans

lemma srv_memory [simp]:
  "srv_same s (set_info a i t) \<longleftrightarrow> srv_same s t"
  "srv_same s (set_session a x t) \<longleftrightarrow> srv_same s t"
  "srv_same s (set_user b u t) \<longleftrightarrow> srv_same s t"
  "srv_same s (snd (new_info i t)) \<longleftrightarrow> srv_same s t"
  by (simp_all add: srv_rel_def set_info_def set_session_def set_user_def new_info_def)

lemma new_info_same: "new_info i s = (a, s') \<Longrightarrow> srv_same s s'"
  by (auto simp: new_info_def srv_rel_def)

lemma open_session_same: "open_session ty user a name s = Some (seq, x, s') \<Longrightarrow> srv_same s s'"
  by (auto simp: open_session_def clock_gettime_def Let_def srv_rel_def set_session_def set_user_def
      bind_eq_Some_conv split: if_splits)

lemma interrupt_session_same: "interrupt_session x n s = Some s' \<Longrightarrow> srv_same s s'"
  by (auto simp: interrupt_session_def bind_eq_Some_conv)

lemma close_session_same: "close_session ty user name s = Some s' \<Longrightarrow> srv_same s s'"
  by (auto simp: close_session_def bind_eq_Some_conv)

lemma send_msg_same: "send_msg ty bs n c = Some (ret, c') \<Longrightarrow> io_same c c'"
  by (auto simp: send_msg_def bind_eq_Some_conv dest: msg_send_same)

lemma send_error_same: "send_error text c = Some (ret, c') \<Longrightarrow> io_same c c'"
  unfolding send_error_def by (rule send_msg_same)

lemma answer_error_same: "answer_error text c = Some c' \<Longrightarrow> io_same c c'"
  by (auto simp: answer_error_def bind_eq_Some_conv dest: send_error_same)

lemma send_res_same:
  "send_upload_res bs n c = Some (ret, c') \<Longrightarrow> io_same c c'"
  "send_download_res bs n c = Some (ret, c') \<Longrightarrow> io_same c c'"
  by (simp_all add: send_upload_res_def send_download_res_def send_msg_same)

section \<open>The handlers\<close>

lemma handle_auth_effect:
  assumes "handle_auth L msg s = Some s'"
  shows "srv_rel (keeps_files Q) s s'"
proof -
  let ?dir = "snprintf_str PATH_MAX (STORAGE_DIR @ ''/'' @ uuid_unparse L (hdr_token (hdr msg)))"
  obtain ret s1 where m: "fs_mkdir ?dir s = (ret, s1)" by fastforce
  obtain res s2 where u: "uninit_msg s1 = (res, s2)" by fastforce
  from assms m u obtain mm r m' s3 g where s: "msg_send mm None 0 s2 = Some (r, m', s3)" and
    s': "s' = s3\<lparr>man := g\<rparr>"
    by (auto simp: handle_auth_def Let_def bind_eq_Some_conv split: if_splits)
  have "srv_rel (keeps_files Q) s s1" using fs_mkdir_files [OF m] io_srv by blast
  moreover have "srv_same s1 s3" using uninit_msg_same [OF u] msg_send_same [OF s] io_srv io_same_trans by blast
  ultimately have "srv_rel (keeps_files Q) s s3" by (rule files.srv_then_same)
  then show ?thesis by (simp add: s' srv_rel_def)
qed

lemma list_entries_same: "list_entries L path es msg s = Some (msg', s') \<Longrightarrow> io_same s s'"
proof (induction L path es msg s rule: list_entries.induct)
  case (1 L path msg s)
  then show ?case by simp
next
  case (2 L path d n es msg s)
  show ?case
  proof (cases "d = ''.'' \<or> d = ''..''")
    case True
    with 2(1,3) show ?thesis by auto
  next
    case False
    let ?fp = "snprintf_str PATH_MAX (path @ CHR ''/'' # d)" and ?m = "msg_init msg MSGTYPE_FILEINFO None (of_nat FileInfo_size)"
    from 2(3) False obtain info s1 info' r m2 s2 where
      i: "(case n of NFile _ \<Rightarrow> do { (_, info, s) \<leftarrow> fileinfo_from_filename (sha256 L) ?fp zero_info s; Some (info, s) }
           | _ \<Rightarrow> Some (zero_info, s)) = Some (info, s1)" and
      f: "set_filename d info = Some info'" and
      m: "msg_send (?m\<lparr>payload := Some (enc_info info')\<rparr>) None 0 s1 = Some (r, m2, s2)" and
      rest: "list_entries L path es m2 s2 = Some (msg', s')"
      by (auto simp: bind_eq_Some_conv Let_def)
    have "io_same s s1" using i by (auto simp: bind_eq_Some_conv split: node.splits dest: fileinfo_same)
    moreover have "io_same s1 s2" by (rule msg_send_same [OF m])
    moreover have "io_same s2 s'" using 2(2) [OF False refl refl _ refl f m refl refl rest] i
      by (simp only: append_Cons append_Nil)
    ultimately show ?thesis using io_same_trans by blast
  qed
qed

lemma handle_list_effect: "handle_list L user msg s = Some s' \<Longrightarrow> srv_same s s' \<and> state_same s s'"
proof -
  assume run: "handle_list L user msg s = Some s'"
  have "io_same s s'"
  proof (cases "user = NULL")
    case True
    with run show ?thesis by (auto simp: handle_list_def dest: answer_error_same)
  next
    case False
    from run False obtain ret m1 s1 where p: "msg_recv_payload (of_nat PATH_MAX) msg s = Some (ret, m1, s1)"
      by (auto simp: handle_list_def bind_eq_Some_conv)
    note s1 = msg_recv_payload_same [OF p]
    show ?thesis
    proof (cases "ret = -1 \<or> ret = -2 \<or> ret = -3")
      case True
      with run False p s1 show ?thesis by (auto simp: handle_list_def)
    next
      case ret: False
      with run False p obtain name pth where
        n: "payload_string m1 = Some name" "get_user_path (uuid_unparse L) True name (hdr_token (hdr m1)) = Some pth"
        by (auto simp: handle_list_def bind_eq_Some_conv)
      show ?thesis
      proof (cases pth)
        case None
        with run False p ret n s1 show ?thesis by (auto simp: handle_list_def)
      next
        case (Some path)
        obtain od s2 where o: "opendir path s1 = (od, s2)" by fastforce
        note s2 = io_same_trans [OF s1 opendir_same [OF o]]
        have "answer_error (strerror L (errno s2)) s2 = Some s' \<or>
            (\<exists>es m2 s3 m3 r m4. list_entries L path es m1 s2 = Some (m2, s3) \<and> msg_send m3 None 0 s3 = Some (r, m4, s'))"
          using run False p ret n Some o
          by (auto simp: handle_list_def bind_eq_Some_conv split: option.splits)
        with s2 show ?thesis
          by (blast dest: answer_error_same list_entries_same msg_send_same intro: io_same_trans)
      qed
    qed
  qed
  then show ?thesis using io_srv io_state by blast
qed

lemma handle_mkdir_effect:
  "handle_mkdir L user msg s = Some s' \<Longrightarrow> srv_rel (keeps_files Q) s s' \<and> state_same s s'"
proof -
  assume run: "handle_mkdir L user msg s = Some s'"
  have "io_rel (keeps_files Q) s s'"
  proof (cases "user = NULL")
    case True
    with run show ?thesis by (auto simp: handle_mkdir_def dest: answer_error_same intro: files.of_same)
  next
    case False
    from run False obtain ret m1 s1 where p: "msg_recv_payload 8192 msg s = Some (ret, m1, s1)"
      by (auto simp: handle_mkdir_def bind_eq_Some_conv)
    note s1 = msg_recv_payload_same [OF p]
    show ?thesis
    proof (cases "handle_recv_error ret")
      case False
      with run \<open>user \<noteq> NULL\<close> p s1 show ?thesis by (auto simp: handle_mkdir_def intro: files.of_same)
    next
      case True
      with run False p obtain name r s2 where n: "payload_string m1 = Some name" and
        d: "create_directories_from_path next_dir_statics True
          (get_user_root (uuid_unparse L) (hdr_token (hdr m1))) name s1 = Some (r, s2)"
        by (auto simp: handle_mkdir_def Let_def bind_eq_Some_conv)
      have e: "(\<exists>text. answer_error text s2 = Some s') \<or> s' = s2 \<or>
          (\<exists>m2 r2 m3. msg_send m2 None 0 s2 = Some (r2, m3, s'))"
        using run False p n d True by (auto simp: handle_mkdir_def Let_def bind_eq_Some_conv split: if_splits)
      have "io_rel (keeps_files Q) s s2"
        using s1 create_directories_files [OF d] by (blast intro: files.same_then)
      moreover have "io_same s2 s'" using e by (auto dest: answer_error_same msg_send_same)
      ultimately show ?thesis by (rule files.then_same)
    qed
  qed
  then show ?thesis using io_srv io_state by blast
qed


lemma download_send_effect: "download_send L user session a info name s = Some s' \<Longrightarrow> srv_same s s'"
proof -
  assume run: "download_send L user session a info name s = Some s'"
  then obtain r i1 s1 nm where f: "fileinfo_from_filename (sha256 L) name info s = Some (r, i1, s1)"
    and n: "info_name i1 = Some nm"
    by (auto simp: download_send_def Let_def bind_eq_Some_conv)
  let ?t = "set_info a i1 s1"
  from run f n obtain r2 s2 where d: "send_download_res (enc_info i1) (of_nat FileInfo_size) ?t = Some (r2, s2)"
    by (auto simp: download_send_def Let_def bind_eq_Some_conv)
  let ?start = "if 0 < fi_size info then size_to_int (fi_chunk_count info) else 0"
  from run f n d obtain st s3 where g: "file_send (sha256 L) nm ?start s2 = Some (st, s3)"
    by (auto simp: download_send_def Let_def bind_eq_Some_conv)
  have e: "(\<exists>s4 n text. interrupt_session session n s3 = Some s4 \<and> answer_error text s4 = Some s') \<or>
      close_session SESS_DOWNLOAD user name s3 = Some s'"
    using run f n d g by (auto simp: download_send_def Let_def bind_eq_Some_conv split: if_splits)
  have "srv_same s s1" by (rule io_srv [OF fileinfo_same [OF f]])
  then have "srv_same s ?t" by simp
  also have "srv_same ?t s2" by (rule io_srv [OF send_res_same(2) [OF d]])
  also have "srv_same s2 s3" by (rule io_srv [OF file_send_same [OF g]])
  also have "srv_same s3 s'"
    using e by (blast dest: interrupt_session_same answer_error_same close_session_same io_srv intro: srv_same_trans)
  finally show ?thesis .
qed

lemma handle_download_effect: "handle_download L user msg s = Some s' \<Longrightarrow> srv_same s s'"
proof -
  assume run: "handle_download L user msg s = Some s'"
  show ?thesis
  proof (cases "user = NULL")
    case True
    with run show ?thesis by (auto simp: handle_download_def dest: answer_error_same io_srv)
  next
    case False
    from run False obtain ret m1 s1 where p: "msg_recv_payload (of_nat FileInfo_size) msg s = Some (ret, m1, s1)"
      by (auto simp: handle_download_def bind_eq_Some_conv)
    note s1 = io_srv [OF msg_recv_payload_same [OF p]]
    show ?thesis
    proof (cases "handle_recv_error ret")
      case False
      with run \<open>user \<noteq> NULL\<close> p s1 show ?thesis by (auto simp: handle_download_def)
    next
      case True
      with run False p obtain info name pth where
        n: "payload_info m1 = Some info" "info_name info = Some name"
          "get_user_path (uuid_unparse L) True name (hdr_token (hdr m1)) = Some pth"
        by (auto simp: handle_download_def bind_eq_Some_conv)
      show ?thesis
      proof (cases pth)
        case None
        with run False p True n s1 show ?thesis
          by (auto simp: handle_download_def dest!: answer_error_same io_srv intro: srv_same_trans)
      next
        case (Some path)
        obtain found s2 where o: "file_exists path s1 = (found, s2)" by fastforce
        have s2: "srv_same s s2" using s1 io_srv [OF file_exists_same [OF o]] by (rule srv_same_trans)
        obtain a s3 where i: "new_info info s2 = (a, s3)" by fastforce
        have s3: "srv_same s s3" using s2 new_info_same [OF i] by (rule srv_same_trans)
        have "(\<exists>text. answer_error text s2 = Some s') \<or>
            (\<exists>q x s4. open_session SESS_DOWNLOAD user a path s3 = Some (q, x, s4) \<and>
               download_send L user x a info path s4 = Some s')"
          using run False p True n Some o i
          by (auto simp: handle_download_def Let_def bind_eq_Some_conv split: if_splits)
        with s2 s3 show ?thesis
          by (blast dest: answer_error_same io_srv open_session_same download_send_effect intro: srv_same_trans)
      qed
    qed
  qed
qed

section \<open>What belongs to a user\<close>

text \<open>
  The places at and below the directories of the storage whose names start with the token's text;
  for another token's directory, whose name has the same length, that is never the case.
\<close>

definition owns :: "(uuid \<Rightarrow> string) \<Rightarrow> uuid \<Rightarrow> string list \<Rightarrow> bool" where
  "owns unparse token q \<longleftrightarrow> (\<exists>suf rest. q = storage_segs @ (unparse token @ suf) # rest)"

lemma owns_prefix: "owns unparse token p \<Longrightarrow> prefix p q \<Longrightarrow> owns unparse token q"
  by (auto simp: owns_def prefix_def)

lemma owns_other:
  assumes "uuid_text unparse" "unparse t \<noteq> unparse u"
  shows "\<not> owns unparse t (storage_segs @ unparse u # rest)"
  using assms uuid_text_seg(3) [OF assms(1)] by (auto simp: owns_def) (metis append_eq_append_conv append_Nil2)

text \<open>A tree whose names are plain and whose paths leave room in a path buffer.\<close>

definition tidy_tree :: "node \<Rightarrow> bool" where
  "tidy_tree r \<longleftrightarrow> (\<exists>es. r = NDir es) \<and>
     (\<forall>q. lookup r q \<noteq> None \<longrightarrow> (\<forall>s \<in> set q. plain_name s) \<and> length (render_tail q) + 1 < PATH_MAX)"

lemma tidy_fits:
  assumes "tidy_tree r" "length path \<le> length (render_tail (segments path)) + 1"
  shows "fits r path"
  unfolding fits_def
proof (intro allI impI)
  fix q assume "lookup r (segments path @ q) \<noteq> None"
  with assms(1) have "(\<forall>s \<in> set (segments path @ q). plain_name s) \<and>
      length (render_tail (segments path @ q)) + 1 < PATH_MAX"
    unfolding tidy_tree_def by blast
  then show "(\<forall>s \<in> set q. plain_name s) \<and> length path + length (render_tail q) < PATH_MAX"
    using assms(2) by (auto simp: render_tail_def)
qed

lemma get_user_path_owned:
  assumes "uuid_text unparse" "get_user_path unparse True name token = Some (Some path)"
  shows "owns unparse token (segments path)" "path \<noteq> []" "hd path = CHR ''/''"
    "\<forall>s \<in> set (segments path). plain_seg s" "length path \<le> length (render_tail (segments path)) + 1"
proof -
  let ?p = "get_user_root unparse token @ ''/'' @ kept_path name"
  have p: "?p \<noteq> []" "hd ?p = CHR ''/''" by (auto simp: get_user_root_eq [OF assms(1)] STORAGE_DIR_def)
  from assms(2) get_user_path_eq [OF assms(1), of name token] have
    n: "path = normalized ?p" "prefix (get_user_root unparse token) path"
    by (auto simp: Let_def split: if_splits)
  note out = normalized_abs_out [OF p, folded n(1)]
  have segs: "segments path = resolve_abs (segments ?p)" by (rule abs_out_segments [OF out])
  have "prefix (render_tail (storage_segs @ [unparse token])) path"
    using n(2) get_user_root_render [OF assms(1), of token] by simp
  moreover have "seg_ok (unparse token)" "\<forall>s \<in> set storage_segs. seg_ok s"
    using uuid_text_seg(1) [OF assms(1), of token] storage_segs_ok by (auto simp: plain_seg_def)
  ultimately show "owns unparse token (segments path)"
    using np.prefix_test [OF p, of storage_segs "unparse token"] n(1) by (auto simp: owns_def)
  show "\<forall>s \<in> set (segments path). plain_seg s" using out by (simp add: segs abs_out_def)
  have "segments path \<noteq> []" using \<open>owns unparse token (segments path)\<close> by (auto simp: owns_def)
  with abs_out_shape [OF out] segs show "length path \<le> length (render_tail (segments path)) + 1"
    by (auto simp: render_abs_def)
  have "path = get_user_root unparse token @ drop 49 path"
    using n(2) length_get_user_root [OF assms(1), of token] by (auto simp: prefix_def)
  then show "path \<noteq> []" "hd path = CHR ''/''"
    using p by (auto simp: get_user_root_eq [OF assms(1)] STORAGE_DIR_def)
      (metis append_Cons append_Nil hd_append list.sel(1) list.distinct(1))+
qed


section \<open>Removing\<close>

lemma fileinfo_found:
  assumes "fileinfo_from_filename sha path i c = Some (r, i', c')" "r \<noteq> -1"
  shows "\<exists>q. resolve c path = Inr q \<and> lookup (fs c) q \<noteq> None"
proof -
  obtain e c1 where n: "fs_next c = (e, c1)" by fastforce
  note s = fs_next_same [OF n]
  have "resolve c1 path = resolve c path" "fs c1 = fs c"
    using resolve_cong [OF s] io_sameD [OF s] by auto
  with assms n show ?thesis
    by (cases "resolve c path"; cases e)
      (auto simp: fileinfo_from_filename_def lstat_def at_path_def split: option.splits)
qed

lemma remove_path_effect:
  assumes run: "remove_path L msg path info s = Some s'" and plain: "plain_path path" "segments path \<noteq> []" "fits (fs s) path"
  shows "io_rel (removes_below path) s s'"
proof -
  from run obtain r s1 where m: "rm_r rm_fuel (Some path) s = Some (r, s1)"
    by (auto simp: remove_path_def bind_eq_Some_conv)
  have "io_same s1 s'"
    using run m
    by (auto simp: remove_path_def bind_eq_Some_conv split: if_splits dest: answer_error_same msg_send_same)
  with rm_effects(1) [OF m refl plain] show ?thesis by (blast intro: removal.then_same)
qed

lemma handle_remove_effect:
  assumes run: "handle_remove L user msg s = Some s'" and u: "uuid_text (uuid_unparse L)" and tidy: "tidy_tree (fs s)"
  shows "srv_rel (keeps_files (\<lambda>q. \<not> owns (uuid_unparse L) (hdr_token (hdr msg)) q)) s s' \<and> state_same s s'"
proof -
  let ?Q = "\<lambda>q. \<not> owns (uuid_unparse L) (hdr_token (hdr msg)) q"
  have "io_rel (keeps_files ?Q) s s'"
  proof (cases "user = NULL")
    case True
    with run show ?thesis by (auto simp: handle_remove_def dest: answer_error_same intro: files.of_same)
  next
    case False
    from run False obtain ret m1 s1 where p: "msg_recv_payload 8192 msg s = Some (ret, m1, s1)"
      by (auto simp: handle_remove_def bind_eq_Some_conv)
    note s1 = msg_recv_payload_same [OF p]
    have tok: "hdr m1 = hdr msg" using msg_recv_payload_data [of 8192 msg s] p by auto
    show ?thesis
    proof (cases "ret < 0")
      case True
      with run False p s1 show ?thesis by (auto simp: handle_remove_def intro: files.of_same)
    next
      case ret: False
      with run False p obtain name pth where
        n: "payload_string m1 = Some name" "get_user_path (uuid_unparse L) True name (hdr_token (hdr m1)) = Some pth"
        by (auto simp: handle_remove_def bind_eq_Some_conv)
      show ?thesis
      proof (cases pth)
        case None
        with run False p ret n s1 show ?thesis
          by (auto simp: handle_remove_def dest!: answer_error_same intro: files.of_same io_same_trans)
      next
        case (Some path)
        note o = get_user_path_owned [OF u n(2) [unfolded Some tok]]
        from run False p ret n Some obtain r i s2 where
          f: "fileinfo_from_filename (sha256 L) path zero_info s1 = Some (r, i, s2)"
          by (auto simp: handle_remove_def bind_eq_Some_conv)
        note s2 = io_same_trans [OF s1 fileinfo_same [OF f]]
        show ?thesis
        proof (cases "r < 0 \<and> r \<noteq> -2")
          case True
          with run False p ret n Some f have "\<exists>text. answer_error text s2 = Some s'"
            by (auto simp: handle_remove_def)
          with s2 show ?thesis by (auto dest!: answer_error_same intro: files.of_same io_same_trans)
        next
          case r: False
          with run False p ret n Some f obtain info where m: "remove_path L m1 path info s2 = Some s'"
            by (auto simp: handle_remove_def bind_eq_Some_conv)
          have "\<forall>s \<in> set (segments path). s \<noteq> ''.'' \<and> s \<noteq> ''..''" using o(4) by (auto simp: plain_seg_def)
          moreover from fileinfo_found [OF f] r obtain q where
            q: "resolve s1 path = Inr q" "lookup (fs s1) q \<noteq> None" by fastforce
          ultimately have "lookup (fs s) (segments path) \<noteq> None"
            using resolve_no_dots [OF o(2,3) _ q(1)] io_sameD [OF s1] by auto
          with tidy have plain: "plain_path path"
            using o(2,3) by (auto simp: tidy_tree_def plain_path_def)
          have "fits (fs s2) path" using tidy_fits [OF tidy o(5)] io_sameD [OF s2] by simp
          moreover have "segments path \<noteq> []" using o(1) by (auto simp: owns_def)
          ultimately have "io_rel (removes_below path) s2 s'"
            using remove_path_effect [OF m plain] by blast
          then have "io_rel (keeps_files (\<lambda>q. \<not> prefix (segments path) q)) s2 s'" by (simp add: io_rel_def)
          then have "io_rel (keeps_files ?Q) s2 s'"
          proof (rule io_rel_mono)
            assume "keeps_files (\<lambda>q. \<not> prefix (segments path) q) (fs s2) (fs s')"
            then show "keeps_files ?Q (fs s2) (fs s')"
              by (rule keeps_files_mono) (meson o(1) owns_prefix)
          qed
          then show ?thesis by (rule files.same_then [OF s2])
        qed
      qed
    qed
  qed
  then show ?thesis using io_srv io_state by blast
qed

section \<open>Uploading\<close>

lemma strncpy_name:
  assumes "info_name (strncpy_filename name i) = Some f" "NUL \<notin> set name"
  shows "f = name"
proof -
  let ?n = "length (fi_filename i)" and ?b = "map byte_of_char name"
  have nz: "0 \<notin> set ?b" using assms(2) by auto
  have f: "cstr (take ?n (?b @ replicate ?n 0)) = Some f"
    using assms(1) by (simp add: info_name_def strncpy_filename_def)
  show ?thesis
  proof (cases "length name < ?n")
    case True
    then obtain k where k: "?n = length name + Suc k" using less_iff_Suc_add by auto
    have "take ?n (?b @ replicate ?n 0) = ?b @ replicate (Suc k) 0"
      unfolding k by (simp add: take_replicate del: replicate_Suc)
    then have "take ?n (?b @ replicate ?n 0) = cbytes name @ replicate k 0" by (simp add: cbytes_def)
    with f cstr_cbytes [OF assms(2)] show ?thesis by simp
  next
    case False
    then have "0 \<notin> set (take ?n (?b @ replicate ?n 0))"
      using nz by (auto dest: in_set_takeD)
    with f show ?thesis by (simp add: cstr_def)
  qed
qed


lemma walk_split: "walk r cur (ss @ ts) = Inr q \<Longrightarrow> \<exists>q0. walk r cur ss = Inr q0 \<and> walk r q0 ts = Inr q"
  by (auto simp: walk_append split: sum.splits)

text \<open>Where an upload can go: the user's directory, or, by a double dot, the storage itself.\<close>

lemma upload_target:
  assumes u: "uuid_text unparse" and base: "strrchr name CHR ''/'' = Some base"
    and res: "resolve c (get_user_root unparse token @ base) = Inr q"
  shows "owns unparse token q \<or> (\<exists>es. lookup (fs c) q = Some (NDir es))"
proof -
  from strrchr_Some [OF base] obtain b where b: "base = CHR ''/'' # b" "CHR ''/'' \<notin> set b" by blast
  let ?xs = "storage_segs @ [unparse token]" and ?f = "get_user_root unparse token @ base"
  have "hd ?f = CHR ''/''" "?f \<noteq> []" by (simp_all add: get_user_root_eq [OF u] STORAGE_DIR_def)
  with res have w: "walk (fs c) [] (path_comps ?f) = Inr q" by (auto simp: resolve_def split: if_splits)
  have segs: "segments ?f = ?xs @ segments b"
    by (simp add: b segments_append_slash segments_get_user_root [OF u])
  obtain t where t: "path_comps ?f = ?xs @ t" "t = [''.''] \<or> t = [b] \<and> b \<noteq> []"
  proof (cases "b = []")
    case True
    then show ?thesis using that segs by (simp add: path_comps_def b)
  next
    case False
    then have "segments b = [b]" using b(2) by (intro segments_seg) (simp add: seg_ok_def)
    moreover have "last ?f \<noteq> CHR ''/''" using False b by (auto simp: last_in_set dest: last_in_set)
    ultimately show ?thesis using that segs False by (simp add: path_comps_def)
  qed
  have "walk (fs c) [] (?xs @ t) = Inr q" using w by (simp only: t(1))
  from walk_split [OF this] obtain q0 where q0: "walk (fs c) [] ?xs = Inr q0" "walk (fs c) q0 t = Inr q" by blast
  have "\<forall>s \<in> set ?xs. s \<noteq> ''.'' \<and> s \<noteq> ''..''"
    using uuid_text_seg(1) [OF u, of token] storage_segs_ok by (auto simp: plain_seg_def)
  from walk_plain [OF this q0(1)] have q0': "q0 = ?xs" "place (fs c) ?xs" by auto
  from t(2) q0(2) have "q = q0 \<or> q = butlast q0 \<or> (\<exists>b. q = q0 @ [b])"
    by (auto split: option.splits node.splits if_splits)
  moreover have "owns unparse token (?xs @ r)" for r
    by (auto simp: owns_def intro: exI [of _ "[]"])
  moreover have "\<exists>es. lookup (fs c) (butlast ?xs) = Some (NDir es)" using q0'(2) by (simp add: place_def)
  ultimately show ?thesis using q0'(1) by (metis append.right_neutral)
qed

lemma root_dir_eq:
  "snprintf_str PATH_MAX (STORAGE_DIR @ CHR ''/'' # unparse token) = get_user_root unparse token"
  by (simp add: get_user_root_def)

lemma strrchr_length: "strrchr s ch = Some r \<Longrightarrow> length r \<le> length s"
  using strrchr_Some [of s ch r] by (auto dest: suffix_length_le)

lemma upload_end_effect: "upload_end user session name st s = Some s' \<Longrightarrow> srv_same s s'"
proof -
  assume run: "upload_end user session name st s = Some s'"
  then obtain s1 where i: "(if recv_error_code st < 0 then interrupt_session session (last_chunk_recvd st) s else Some s) = Some s1"
    by (auto simp: upload_end_def bind_eq_Some_conv)
  have e: "(\<exists>text. answer_error text s1 = Some s') \<or> s' = s1 \<or>
      (\<exists>bs n r s2. send_msg MSGTYPE_UPLOAD_FIN bs n s1 = Some (r, s2) \<and> close_session SESS_UPLOAD user name s2 = Some s')"
    using run i by (auto simp: upload_end_def Let_def bind_eq_Some_conv split: if_splits)
  have "srv_same s s1" using i by (auto split: if_splits dest: interrupt_session_same)
  moreover have "srv_same s1 s'"
    using e by (auto dest!: answer_error_same send_msg_same close_session_same io_srv intro: srv_same_trans)
  ultimately show ?thesis by (rule srv_same_trans)
qed

lemma upload_file_effect:
  assumes run: "upload_file L user token info name s = Some s'" and u: "uuid_text (uuid_unparse L)"
    and root: "fs s = NDir es" and nul: "NUL \<notin> set name" and len: "length name \<le> PATH_MAX"
  shows "srv_rel (keeps_files (\<lambda>q. \<not> owns (uuid_unparse L) token q)) s s'"
proof -
  let ?Q = "\<lambda>q. \<not> owns (uuid_unparse L) token q" and ?root = "get_user_root (uuid_unparse L) token"
  from run obtain x where x: "users (man s) user = Some x" by (auto simp: upload_file_def bind_eq_Some_conv)
  show ?thesis
  proof (cases "u_total_space x < u_used_space x + fi_size info")
    case True
    with run x show ?thesis
      by (auto simp: upload_file_def dest: answer_error_same io_srv intro: files.srv_of_same)
  next
    case space: False
    from run x space obtain base where base: "strrchr name CHR ''/'' = Some base"
      by (auto simp: upload_file_def Let_def bind_eq_Some_conv)
    let ?f = "?root @ base" and ?i = "strncpy_filename (?root @ base) info"
    have fl: "snprintf_str (PATH_MAX * 2) ?f = ?f"
      using strrchr_length [OF base] len length_get_user_root [OF u, of token]
      by (intro snprintf_str_id) (simp add: PATH_MAX_def)
    note root_eq = root_dir_eq [of "uuid_unparse L" token]
    from run x space base obtain nm where nm: "info_name ?i = Some nm"
      by (auto simp: upload_file_def Let_def bind_eq_Some_conv root_eq fl simp del: append_assoc)
    have "NUL \<notin> set ?f"
      using nul strrchr_Some [OF base] uuid_text_seg(2) [OF u, of token]
      by (auto simp: get_user_root_eq [OF u] STORAGE_DIR_def NUL_def suffix_def)
    from strncpy_name [OF nm this] have nm': "nm = ?f" .
    obtain a s1 where a: "new_info ?i s = (a, s1)" by fastforce
    from run x space base nm a obtain seq ses s2 where o: "open_session SESS_UPLOAD user a ?f s1 = Some (seq, ses, s2)"
      by (auto simp: upload_file_def Let_def bind_eq_Some_conv root_eq fl nm' simp del: append_assoc)
    obtain ret s3 where m: "fs_mkdir ?root s2 = (ret, s3)" by fastforce
    have "srv_same s s2" using new_info_same [OF a] open_session_same [OF o] by (rule srv_same_trans)
    moreover have "srv_rel (keeps_files ?Q) s2 s3" using fs_mkdir_files [OF m] io_srv by blast
    ultimately have s3: "srv_rel (keeps_files ?Q) s s3" by (rule files.srv_same_then)
    have "fs s2 = NDir es" using \<open>srv_same s s2\<close> root by (simp add: srv_rel_def)
    from fs_mkdir_root [OF m this] obtain es3 where es3: "fs s3 = NDir es3" by blast
    show ?thesis
    proof (cases "ret = -1 \<and> errno s3 \<noteq> EEXIST")
      case True
      with run x space base nm a o m have "answer_error ''failed to create user directory'' s3 = Some s'"
        by (auto simp: upload_file_def Let_def root_eq fl nm' simp del: append_assoc)
      then show ?thesis using s3 by (blast dest: answer_error_same io_srv intro: files.srv_then_same)
    next
      case ok: False
      then have ok': "(ret = -1 \<and> errno s3 \<noteq> EEXIST) = False" by simp
      from run x space base nm a o m obtain r4 s4 y st s6 where
        r: "send_upload_res (le_of_u64 seq) 8 s3 = Some (r4, s4)" and
        y: "sess (objs s4) ses = Some y" and
        f: "file_recv (sha256 L) ?i (set_session ses (y\<lparr>s_state := SSTATE_RUNNING\<rparr>) s4) = Some (st, s6)" and
        e: "upload_end user ses ?f st s6 = Some s'"
        by (auto simp: upload_file_def Let_def bind_eq_Some_conv root_eq fl nm' ok' simp del: append_assoc)
      let ?s5 = "set_session ses (y\<lparr>s_state := SSTATE_RUNNING\<rparr>) s4"
      have s35: "srv_same s3 ?s5" using io_srv [OF send_res_same(1) [OF r]] by simp
      then have "fs ?s5 = NDir es3" using es3 by (simp add: srv_rel_def)
      from file_recv_files [OF f this nm, of ?Q] upload_target [OF u base, of ?s5 token]
      have "io_rel (keeps_files ?Q) ?s5 s6" unfolding nm' by blast
      then have "srv_rel (keeps_files ?Q) ?s5 s6" by (rule io_srv)
      with s3 s35 have "srv_rel (keeps_files ?Q) s s6"
        by (blast intro: files.srv_trans files.srv_then_same)
      then show ?thesis using upload_end_effect [OF e] by (rule files.srv_then_same)
    qed
  qed
qed


lemma payload_info_name:
  assumes p: "msg_recv_payload (of_nat FileInfo_size) msg s = Some (ret, m, s1)" and none: "payload msg = None"
    and ret: "handle_recv_error ret" and i: "payload_info m = Some info" "info_name info = Some name"
  shows "NUL \<notin> set name \<and> length name \<le> PATH_MAX \<and> hdr m = hdr msg"
proof -
  let ?n = "of_nat FileInfo_size :: usize"
  have n: "unat ?n = FileInfo_size" by (simp add: FileInfo_size_def PATH_MAX_def)
  from msg_recv_payload_data [of ?n msg s] p obtain bs where
    d: "hdr m = hdr msg" "ret \<in> {0, -1, -2, -3}" "ret = -3 \<longleftrightarrow> ?n < hdr_length (hdr msg)"
      "ret = 0 \<longrightarrow> length bs = unat (hdr_length (hdr msg)) \<and> payload m = (if bs = [] then payload msg else Some bs)"
    by auto
  with ret have r: "ret = 0" by (auto simp: handle_recv_error_def)
  with d i(1) none have m: "payload m = Some bs" "info = dec_info bs" "length bs = unat (hdr_length (hdr msg))"
    by (auto simp: payload_info_def bind_eq_Some_conv split: if_splits)
  have "\<not> ?n < hdr_length (hdr msg)" using d(3) r by auto
  then have "length bs \<le> FileInfo_size" using m(3) n by (simp add: word_less_nat_alt)
  moreover have "cstr (drop 48 bs) = Some name" using i(2) m(2) by (simp add: info_name_def dec_info_def)
  ultimately show ?thesis
    using cstr_no_NUL cstr_length [of "drop 48 bs" name] d(1) by (auto simp: FileInfo_size_def)
qed

lemma handle_upload_effect:
  assumes run: "handle_upload L user msg s = Some s'" and u: "uuid_text (uuid_unparse L)"
    and root: "fs s = NDir es" and none: "payload msg = None"
  shows "srv_rel (keeps_files (\<lambda>q. \<not> owns (uuid_unparse L) (hdr_token (hdr msg)) q)) s s'"
proof (cases "user = NULL")
  case True
  with run show ?thesis by (auto simp: handle_upload_def dest: answer_error_same io_srv intro: files.srv_of_same)
next
  case False
  from run False obtain ret m1 s1 where p: "msg_recv_payload (of_nat FileInfo_size) msg s = Some (ret, m1, s1)"
    by (auto simp: handle_upload_def bind_eq_Some_conv)
  note s1 = io_srv [OF msg_recv_payload_same [OF p]]
  show ?thesis
  proof (cases "handle_recv_error ret")
    case False
    with run \<open>user \<noteq> NULL\<close> p s1 show ?thesis by (auto simp: handle_upload_def intro: files.srv_of_same)
  next
    case True
    with run False p obtain info name where i: "payload_info m1 = Some info" "info_name info = Some name"
      and f: "upload_file L user (hdr_token (hdr m1)) info name s1 = Some s'"
      by (auto simp: handle_upload_def bind_eq_Some_conv)
    note n = payload_info_name [OF p none True i]
    have "fs s1 = NDir es" using s1 root by (simp add: srv_rel_def)
    from upload_file_effect [OF f u this] n have
      "srv_rel (keeps_files (\<lambda>q. \<not> owns (uuid_unparse L) (hdr_token (hdr msg)) q)) s1 s'" by simp
    then show ?thesis by (rule files.srv_same_then [OF s1])
  qed
qed

section \<open>The dispatcher\<close>

lemma oneshot_effect:
  assumes "on_oneshot_req L ty user msg s = Some s'" "uuid_text (uuid_unparse L)" "tidy_tree (fs s)"
  shows "srv_rel (keeps_files (\<lambda>q. \<not> owns (uuid_unparse L) (hdr_token (hdr msg)) q)) s s'"
  using assms handle_remove_effect [of L user msg s s'] handle_mkdir_effect [of L user msg s s']
    handle_auth_effect [of L msg s s']
  by (auto simp: on_oneshot_req_def files.srv_of_same split: MessageType.splits)

lemma dispatch_files:
  assumes run: "on_client_message_received L fd msg s = Some (ret, s')" and u: "uuid_text (uuid_unparse L)"
    and tidy: "tidy_tree (fs s)" and none: "payload msg = None"
  shows "keeps_files (\<lambda>q. \<not> owns (uuid_unparse L) (hdr_token (hdr msg)) q) (fs s) (fs s')"
proof -
  let ?R = "keeps_files (\<lambda>q. \<not> owns (uuid_unparse L) (hdr_token (hdr msg)) q)"
  have same: "?R (fs s) (fs t)" if "srv_same s t" for t using that files.R_refl by (simp add: srv_rel_def)
  from run obtain ty where ty: "msgtype_of (hdr_type (hdr msg)) = Some ty"
    by (auto simp: on_client_message_received_eq bind_eq_Some_conv)
  from tidy obtain es where es: "fs s = NDir es" by (auto simp: tidy_tree_def)
  show ?thesis
  proof (cases "ty \<noteq> MSGTYPE_AUTH_REQ \<and> uuid_is_null L (hdr_token (hdr msg))")
    case True
    with run ty obtain m r m' where "msg_send m None 0 s = Some (r, m', s')"
      by (auto simp: on_client_message_received_eq bind_eq_Some_conv)
    then show ?thesis by (intro same io_srv) (rule msg_send_same)
  next
    case False
    then have f: "(ty \<noteq> MSGTYPE_AUTH_REQ \<and> uuid_is_null L (hdr_token (hdr msg))) = False" by simp
    from run ty f obtain user where user: "uman_get_user (uuid_compare L) (hdr_token (hdr msg)) (man s) = Some user"
      by (auto simp: on_client_message_received_eq bind_eq_Some_conv)
    let ?t = "set_blocking fd True (epoll_del fd s)"
    have t: "fs ?t = fs s" by (simp add: set_blocking_def epoll_del_def)
    consider (one) "on_oneshot_req L ty user msg s = Some s'" | (stream) "on_stream_req L ty fd user msg ?t = Some s'"
      | (no) "s' = s"
      using run ty f user
      by (auto simp: on_client_message_received_eq bind_eq_Some_conv split: if_splits)
    then show ?thesis
    proof cases
      case one
      from oneshot_effect [OF one u tidy] show ?thesis by (simp add: srv_rel_def)
    next
      case no
      then show ?thesis by (simp add: files.R_refl)
    next
      case stream
      then obtain s1 where s1: "(case ty of
           MSGTYPE_UPLOAD_REQ \<Rightarrow> handle_upload L user msg ?t
         | MSGTYPE_DOWNLOAD_REQ \<Rightarrow> handle_download L user msg ?t
         | MSGTYPE_LIST_REQ \<Rightarrow> handle_list L user msg ?t
         | _ \<Rightarrow> Some ?t) = Some s1" and s': "s' = on_client_disconnected fd s1"
        by (auto simp: on_stream_req_def bind_eq_Some_conv)
      have "srv_rel ?R ?t s1"
        using s1 handle_upload_effect [OF _ u t [unfolded es] none] handle_download_effect [of L user msg ?t s1]
          handle_list_effect [of L user msg ?t s1]
        by (auto intro: files.srv_of_same split: MessageType.splits)
      then show ?thesis using t s' by (simp add: srv_rel_def on_client_disconnected_def close_fd_def)
    qed
  qed
qed


section \<open>What no request touches\<close>

text \<open>Without any assumption on the tree, the handlers leave the sockets alone.\<close>

lemma fs_unlink_any: "fs_unlink path c = (ret, c') \<Longrightarrow> io_any c c'"
  by (auto simp: fs_unlink_def fail_with_def io_rel_def split: prod.splits sum.splits option.splits node.splits
      dest!: at_path_same)

lemma fs_rmdir_any: "fs_rmdir path c = (ret, c') \<Longrightarrow> io_any c c'"
  by (auto simp: fs_rmdir_def fail_with_def io_rel_def split: prod.splits sum.splits option.splits node.splits if_splits
      dest!: at_path_same)

lemma rm_any:
  "rm_r n path c = Some y \<Longrightarrow> io_any c (snd y)"
  "rm_entries n s es c = Some c' \<Longrightarrow> io_any c c'"
proof (induction n path c and n s es c arbitrary: y and c' rule: rm_r_rm_entries.induct)
  case (2 n path c)
  show ?case
  proof (cases path)
    case None
    with 2(2) show ?thesis by (auto simp: any.refl)
  next
    case (Some s)
    obtain st c1 where l: "lstat s c = (st, c1)" by fastforce
    note s1 = lstat_same [OF l]
    consider (none) "st = None" | (dir) es where "st = Some (NDir es)" | (other) m where "st = Some m" "\<forall>es. m \<noteq> NDir es"
      by (cases st) auto
    then show ?thesis
    proof cases
      case none
      with 2(2) Some l s1 show ?thesis by (auto intro: any.of_same)
    next
      case other
      then have "y = fs_unlink s c1" using 2(2) Some l by (cases m) auto
      then show ?thesis using s1 fs_unlink_any [of s c1 "fst y" "snd y"] by (auto intro: any.same_then)
    next
      case (dir es)
      obtain od c2 where o: "opendir s c1 = (od, c2)" by fastforce
      note s2 = io_same_trans [OF s1 opendir_same [OF o]]
      show ?thesis
      proof (cases od)
        case None
        with 2(2) Some l dir o s2 show ?thesis by (auto intro: any.of_same)
      next
        case S: (Some ents)
        from 2(2) Some l dir o S obtain c3 where e: "rm_entries n s ents c2 = Some c3"
          by (auto simp: bind_eq_Some_conv)
        have e3: "io_any c2 c3" by (rule 2(1) [OF Some l [symmetric] dir refl o [symmetric] S e])
        have "snd y = snd (fs_rmdir s c3)"
          using 2(2) Some l dir o S e by (auto simp: Let_def split: prod.splits if_splits)
        then have "io_any c3 (snd y)" using fs_rmdir_any [of s c3 "fst (fs_rmdir s c3)" "snd (fs_rmdir s c3)"] by simp
        with s2 e3 show ?thesis by (blast intro: any.trans any.same_then)
      qed
    qed
  qed
next
  case (4 n path x m es c)
  show ?case
  proof (cases "x = ''.'' \<or> x = ''..''")
    case True
    with 4 show ?thesis by auto
  next
    case False
    from 4(4) False obtain r c1 where r: "rm_r n (Some (snprintf_str PATH_MAX (path @ ''/'' @ x))) c = Some (r, c1)"
      "rm_entries n path es c1 = Some c'"
      by (auto simp: bind_eq_Some_conv Let_def)
    from 4(2) [OF False refl r(1)] 4(3) [OF False refl r(1) _ r(2)] show ?thesis
      by (auto intro: any.trans)
  qed
qed (auto simp: any.refl)

lemma remove_path_any: "remove_path L msg path info s = Some s' \<Longrightarrow> io_any s s'"
proof -
  assume run: "remove_path L msg path info s = Some s'"
  then obtain r s1 where m: "rm_r rm_fuel (Some path) s = Some (r, s1)"
    by (auto simp: remove_path_def bind_eq_Some_conv)
  have "io_same s1 s'"
    using run m
    by (auto simp: remove_path_def bind_eq_Some_conv split: if_splits dest: answer_error_same msg_send_same)
  with rm_any(1) [OF m] show ?thesis by (auto intro: any.then_same)
qed

lemma handle_remove_any: "handle_remove L user msg s = Some s' \<Longrightarrow> io_any s s'"
proof (cases "user = NULL")
  case True
  assume "handle_remove L user msg s = Some s'"
  with True show ?thesis by (auto simp: handle_remove_def dest: answer_error_same intro: any.of_same)
next
  case False
  assume run: "handle_remove L user msg s = Some s'"
  with False obtain ret m1 s1 where p: "msg_recv_payload 8192 msg s = Some (ret, m1, s1)"
    by (auto simp: handle_remove_def bind_eq_Some_conv)
  have "s' = s1 \<or> (\<exists>text. answer_error text s1 = Some s') \<or>
      (\<exists>path r i s2. fileinfo_from_filename (sha256 L) path zero_info s1 = Some (r, i, s2) \<and>
        ((\<exists>text. answer_error text s2 = Some s') \<or> (\<exists>info. remove_path L m1 path info s2 = Some s')))"
    using run False p
    by (auto simp: handle_remove_def bind_eq_Some_conv split: if_splits option.splits; blast)
  with msg_recv_payload_same [OF p] show ?thesis
    by (auto dest!: answer_error_same fileinfo_same remove_path_any
        intro: any.of_same any.same_then io_same_trans)
qed


abbreviation srv_any :: "server \<Rightarrow> server \<Rightarrow> bool" where
  "srv_any \<equiv> srv_rel (\<lambda>_ _. True)"

lemma srv_weak: "srv_rel R s s' \<Longrightarrow> srv_any s s'"
  by (simp add: srv_rel_def)

lemma upload_file_any:
  assumes run: "upload_file L user token info name s = Some s'"
  shows "srv_any s s'"
proof -
  let ?root = "get_user_root (uuid_unparse L) token"
  note root_eq = root_dir_eq [of "uuid_unparse L" token]
  from run obtain x where x: "users (man s) user = Some x" by (auto simp: upload_file_def bind_eq_Some_conv)
  show ?thesis
  proof (cases "u_total_space x < u_used_space x + fi_size info")
    case True
    with run x show ?thesis
      by (auto simp: upload_file_def dest: answer_error_same io_srv intro: any.srv_of_same)
  next
    case space: False
    from run x space obtain base where base: "strrchr name CHR ''/'' = Some base"
      by (auto simp: upload_file_def Let_def bind_eq_Some_conv)
    let ?i = "strncpy_filename (snprintf_str (PATH_MAX * 2) (?root @ base)) info"
    from run x space base obtain nm where nm: "info_name ?i = Some nm"
      by (auto simp: upload_file_def Let_def bind_eq_Some_conv root_eq simp del: append_assoc)
    obtain a s1 where a: "new_info ?i s = (a, s1)" by fastforce
    from run x space base nm a obtain seq ses s2 where o: "open_session SESS_UPLOAD user a nm s1 = Some (seq, ses, s2)"
      by (auto simp: upload_file_def Let_def bind_eq_Some_conv root_eq simp del: append_assoc)
    obtain ret s3 where m: "fs_mkdir ?root s2 = (ret, s3)" by fastforce
    have "srv_same s s2" using new_info_same [OF a] open_session_same [OF o] by (rule srv_same_trans)
    moreover have "srv_any s2 s3" using fs_mkdir_files [OF m, of "\<lambda>_. True"] by (blast intro: io_srv srv_weak)
    ultimately have s3: "srv_any s s3" by (rule any.srv_same_then)
    show ?thesis
    proof (cases "ret = -1 \<and> errno s3 \<noteq> EEXIST")
      case True
      with run x space base nm a o m have "answer_error ''failed to create user directory'' s3 = Some s'"
        by (auto simp: upload_file_def Let_def root_eq simp del: append_assoc)
      then show ?thesis using s3 by (blast dest: answer_error_same io_srv intro: any.srv_then_same)
    next
      case ok: False
      then have ok': "(ret = -1 \<and> errno s3 \<noteq> EEXIST) = False" by simp
      from run x space base nm a o m obtain r4 s4 y st s6 where
        r: "send_upload_res (le_of_u64 seq) 8 s3 = Some (r4, s4)" and
        f: "file_recv (sha256 L) ?i (set_session ses (y\<lparr>s_state := SSTATE_RUNNING\<rparr>) s4) = Some (st, s6)" and
        e: "upload_end user ses nm st s6 = Some s'"
        by (auto simp: upload_file_def Let_def bind_eq_Some_conv root_eq ok' simp del: append_assoc)
      have "srv_same s3 (set_session ses (y\<lparr>s_state := SSTATE_RUNNING\<rparr>) s4)"
        using io_srv [OF send_res_same(1) [OF r]] by simp
      with s3 io_srv [OF file_recv_io [OF f]] upload_end_effect [OF e] show ?thesis by (simp add: srv_rel_def)
    qed
  qed
qed

lemma handle_upload_any: "handle_upload L user msg s = Some s' \<Longrightarrow> srv_any s s'"
proof (cases "user = NULL")
  case True
  assume "handle_upload L user msg s = Some s'"
  with True show ?thesis by (auto simp: handle_upload_def dest: answer_error_same io_srv intro: any.srv_of_same)
next
  case False
  assume run: "handle_upload L user msg s = Some s'"
  from run False obtain ret m1 s1 where p: "msg_recv_payload (of_nat FileInfo_size) msg s = Some (ret, m1, s1)"
    by (auto simp: handle_upload_def bind_eq_Some_conv)
  note s1 = io_srv [OF msg_recv_payload_same [OF p]]
  show ?thesis
  proof (cases "handle_recv_error ret")
    case False
    with run \<open>user \<noteq> NULL\<close> p s1 show ?thesis by (auto simp: handle_upload_def intro: any.srv_of_same)
  next
    case True
    with run False p obtain info name where "upload_file L user (hdr_token (hdr m1)) info name s1 = Some s'"
      by (auto simp: handle_upload_def bind_eq_Some_conv)
    from any.srv_same_then [OF s1 upload_file_any [OF this]] show ?thesis .
  qed
qed

lemma oneshot_any: "on_oneshot_req L ty user msg s = Some s' \<Longrightarrow> srv_any s s'"
proof -
  assume run: "on_oneshot_req L ty user msg s = Some s'"
  consider "handle_auth L msg s = Some s'" | "handle_remove L user msg s = Some s'"
    | "handle_mkdir L user msg s = Some s'" | "s' = s"
    using run by (cases ty) (auto simp: on_oneshot_req_def)
  then show ?thesis
  proof cases
    case 1
    from srv_weak [OF handle_auth_effect [OF 1]] show ?thesis .
  next
    case 2
    from io_srv [OF handle_remove_any [OF 2]] show ?thesis .
  next
    case 3
    from handle_mkdir_effect [OF 3] srv_weak show ?thesis by blast
  qed (simp add: any.srv_of_same)
qed

text \<open>The sockets after an event on one of them: all as before, or this one closed.\<close>

definition fd_step :: "nat \<Rightarrow> server \<Rightarrow> server \<Rightarrow> bool" where
  "fd_step fd s s' \<longleftrightarrow>
     (open_fds s' = open_fds s \<and> epoll s' = epoll s \<and> nonblock s' = nonblock s) \<or>
     (open_fds s' = (open_fds s)(fd := None) \<and> epoll s' = epoll s - {fd} \<and> nonblock s' = nonblock s - {fd})"

lemma srv_any_fd: "srv_any s s' \<Longrightarrow> fd_step fd s s'"
  by (simp add: srv_rel_def fd_step_def)

lemma close_fd_step: "open_fds t = open_fds s \<Longrightarrow> epoll t = epoll s \<or> epoll t = epoll s - {fd} \<Longrightarrow>
    nonblock t = nonblock s \<or> nonblock t = nonblock s - {fd} \<Longrightarrow> fd_step fd s (close_fd fd t)"
  by (auto simp: fd_step_def close_fd_def)

lemma dispatch_fds: "on_client_message_received L fd msg s = Some (ret, s') \<Longrightarrow> fd_step fd s s'"
proof -
  assume run: "on_client_message_received L fd msg s = Some (ret, s')"
  let ?t = "set_blocking fd True (epoll_del fd s)"
  from run obtain ty where ty: "msgtype_of (hdr_type (hdr msg)) = Some ty"
    by (auto simp: on_client_message_received_eq bind_eq_Some_conv)
  have "(\<exists>m r m'. msg_send m None 0 s = Some (r, m', s')) \<or> s' = s \<or>
      (\<exists>user. on_oneshot_req L ty user msg s = Some s') \<or> (\<exists>user. on_stream_req L ty fd user msg ?t = Some s')"
  proof (cases "ty \<noteq> MSGTYPE_AUTH_REQ \<and> uuid_is_null L (hdr_token (hdr msg))")
    case True
    with run ty obtain m r m' where "msg_send m None 0 s = Some (r, m', s')"
      by (auto simp: on_client_message_received_eq bind_eq_Some_conv)
    then show ?thesis by blast
  next
    case False
    then have f: "(ty \<noteq> MSGTYPE_AUTH_REQ \<and> uuid_is_null L (hdr_token (hdr msg))) = False" by simp
    from run ty f obtain user where user: "uman_get_user (uuid_compare L) (hdr_token (hdr msg)) (man s) = Some user"
      by (auto simp: on_client_message_received_eq bind_eq_Some_conv)
    have "on_oneshot_req L ty user msg s = Some s' \<or> on_stream_req L ty fd user msg ?t = Some s' \<or> s' = s"
      using run ty f user
      by (auto simp: on_client_message_received_eq bind_eq_Some_conv split: if_splits)
    then show ?thesis by blast
  qed
  then show ?thesis
  proof (elim disjE exE)
    fix m r m' assume "msg_send m None 0 s = Some (r, m', s')"
    then show ?thesis by (intro srv_any_fd any.srv_of_same io_srv) (rule msg_send_same)
  next
    assume "s' = s" then show ?thesis by (simp add: fd_step_def)
  next
    fix user assume "on_oneshot_req L ty user msg s = Some s'"
    then show ?thesis by (intro srv_any_fd) (rule oneshot_any)
  next
    fix user assume "on_stream_req L ty fd user msg ?t = Some s'"
    then obtain s1 where s': "s' = close_fd fd s1" and "s1 = ?t \<or> handle_upload L user msg ?t = Some s1 \<or>
        handle_download L user msg ?t = Some s1 \<or> handle_list L user msg ?t = Some s1"
      by (auto simp: on_stream_req_def on_client_disconnected_def bind_eq_Some_conv split: MessageType.splits)
    then have "srv_any ?t s1"
      by (auto simp: any.srv_of_same dest: handle_upload_any handle_download_effect handle_list_effect)
    then show ?thesis
      unfolding s' by (intro close_fd_step) (auto simp: srv_rel_def set_blocking_def epoll_del_def)
  qed
qed

end
