(* ===== verification/ServerRequests.thy ===== *)
theory ServerRequests
  imports ServerSafety
begin

text \<open>
  The requests of src/server.c one by one: what they answer and what they change when the calls go
  through, and the properties of the dispatcher that hold whatever happens.
\<close>

section \<open>Answers\<close>

text \<open>What the documentation of libuuid, OpenSSL and the C library promises of the libraries.\<close>

definition lib_ok :: "lib \<Rightarrow> bool" where
  "lib_ok L \<longleftrightarrow> uuid_text (uuid_unparse L) \<and> uuid_order (uuid_compare L) \<and>
     (\<forall>b. length (sha256 L b) = 32) \<and> (\<forall>e. length (strerror L e) < 100)"

text \<open>The bytes sent between two states are one message with this type and payload.\<close>

definition replied :: "MessageType \<Rightarrow> byte list \<Rightarrow> 'a conn_scheme \<Rightarrow> 'b conn_scheme \<Rightarrow> bool" where
  "replied ty bytes c c' \<longleftrightarrow> (\<exists>h. wf_hdr h \<and> hdr_type h = type_code ty \<and>
     hdr_length h = of_nat (length bytes) \<and> tx c' = tx c @ enc_hdr h @ bytes)"

lemma msg_send_reply:
  assumes "wf_hdr (hdr m)" "tx_quiet (tx_plan c)" "bytes = [] \<and> pl = None \<or> bytes \<noteq> [] \<and> pl = Some bytes"
    "length bytes < 2 ^ 64"
  shows "\<exists>m' c'. msg_send (msg_init m ty pl (of_nat (length bytes))) None 0 c = Some (0, m', c') \<and>
    replied ty bytes c c' \<and> tx_step c c' \<and> tx_quiet (tx_plan c') \<and> wf_hdr (hdr m')"
proof -
  let ?m = "msg_init m ty pl (of_nat (length bytes))"
  have n: "unat (of_nat (length bytes) :: usize) = length bytes" using assms(4) by (simp add: unat_of_nat)
  have "sendable (payload ?m) (payload_len ?m)" "sendable None 0"
    using assms(3) n by (auto simp: sendable_def msg_init_def)
  from msg_send_quiet [OF _ assms(2) this(2,1)] assms(1) obtain c' where
    c': "msg_send ?m None 0 c = Some (0, ?m\<lparr>hdr := sent_hdr ?m None 0 (clock c 0)\<rparr>, c')"
      "tx c' = tx c @ wire_image ?m None 0 (clock c 0)" "tx_step c c'" "tx_quiet (tx_plan c')" by auto
  let ?h = "sent_hdr ?m None 0 (clock c 0)"
  have "wire_image ?m None 0 (clock c 0) = enc_hdr ?h @ bytes"
    using assms(3) n by (auto simp: wire_image_def opt_bytes_def msg_init_def)
  moreover have "wf_hdr ?h" "hdr_type ?h = type_code ty" "hdr_length ?h = of_nat (length bytes)"
    using assms(1) by (simp_all add: sent_hdr_def msg_init_def wf_hdr_def)
  ultimately have "replied ty bytes c c'" using c'(2) unfolding replied_def by (intro exI [of _ ?h]) simp
  with c' \<open>wf_hdr ?h\<close> show ?thesis by auto
qed

lemma send_msg_quiet:
  assumes "tx_quiet (tx_plan c)" "bytes \<noteq> []" "length bytes < 2 ^ 64"
  shows "\<exists>c'. send_msg ty bytes (of_nat (length bytes)) c = Some (0, c') \<and> replied ty bytes c c' \<and>
    tx_step c c' \<and> tx_quiet (tx_plan c')"
  using msg_send_reply [OF wf_zero_msg assms(1), of bytes "Some bytes" ty] assms(2,3)
  by (auto simp: send_msg_def)

lemma answer_error_quiet:
  assumes "tx_quiet (tx_plan c)" "length text < 4096"
  shows "\<exists>c'. answer_error text c = Some c' \<and> replied MSGTYPE_ERROR (cbytes text) c c' \<and>
    tx_step c c' \<and> tx_quiet (tx_plan c')"
proof -
  have "cbytes text \<noteq> []" "length (cbytes text) < 2 ^ 64" using assms(2) by (auto simp: cbytes_def)
  from send_msg_quiet [OF assms(1) this, of MSGTYPE_ERROR] show ?thesis
    by (auto simp: answer_error_def send_error_def)
qed

section \<open>Authentication\<close>

lemma root_place:
  assumes "uuid_text unparse" "\<exists>es. lookup r storage_segs = Some (NDir es)"
  shows "place r (storage_segs @ [unparse u])" "plain_path (get_user_root unparse u)"
    "segments (get_user_root unparse u) = storage_segs @ [unparse u]"
    "length (get_user_root unparse u) < PATH_MAX" "last (get_user_root unparse u) \<noteq> CHR ''/''"
proof -
  show "place r (storage_segs @ [unparse u])" using assms(2) by (simp add: place_def)
  have "\<forall>s \<in> set (storage_segs @ [unparse u]). plain_name s" "storage_segs @ [unparse u] \<noteq> []"
    using uuid_text_seg [OF assms(1), of u] storage_segs_ok
    by (auto simp: plain_name_def storage_segs_def NUL_def)
  from render_plain_path [OF this] show "plain_path (get_user_root unparse u)"
    "segments (get_user_root unparse u) = storage_segs @ [unparse u]"
    "last (get_user_root unparse u) \<noteq> CHR ''/''"
    unfolding get_user_root_render [OF assms(1)] by blast+
  show "length (get_user_root unparse u) < PATH_MAX"
    using length_get_user_root [OF assms(1), of u] by (simp add: PATH_MAX_def)
qed

lemma user_mkdir:
  assumes u: "uuid_text unparse" and c: "fs_plan c = []" and st: "\<exists>es. lookup (fs c) storage_segs = Some (NDir es)"
  shows "fs_mkdir (get_user_root unparse t) c = (case lookup (fs c) (storage_segs @ [unparse t]) of
      None \<Rightarrow> (0, c\<lparr>fs := put_node (fs c) (storage_segs @ [unparse t]) (Some (NDir []))\<rparr>)
    | Some n \<Rightarrow> (-1, fail_with EEXIST c))"
proof -
  note p = root_place [OF u st, of t]
  have "storage_segs @ [unparse t] \<noteq> []" by simp
  from fs_mkdir_calm [OF _ p(2,3) this p(4,5) _ p(1), of "[]"] c show ?thesis
    by (simp add: calm_def)
qed

lemma handle_auth_quiet:
  assumes L: "lib_ok L" and q: "quiet s" and st: "\<exists>es. lookup (fs s) storage_segs = Some (NDir es)"
    and reg: "uman_register_user (uuid_compare L) (uuid_generate L) (hdr_token (hdr msg)) (man s) = Some m"
  defines "p \<equiv> storage_segs @ [uuid_unparse L (hdr_token (hdr msg))]"
  shows "\<exists>s'. handle_auth L msg s = Some s' \<and> man s' = m \<and> rx s' = rx s \<and>
    (if lookup (fs s) p = None
     then fs s' = put_node (fs s) p (Some (NDir [])) \<and> replied MSGTYPE_AUTH_OK (cbytes ''Registered'' @ [0]) s s'
     else fs s' = fs s \<and> replied MSGTYPE_AUTH_FAIL (cbytes ''Already registered'') s s')"
proof -
  let ?t = "hdr_token (hdr msg)"
  have u: "uuid_text (uuid_unparse L)" and se: "length (strerror L EEXIST) < 100" using L by (auto simp: lib_ok_def)
  have plan: "fs_plan s = []" "tx_quiet (tx_plan s)" using q by (auto simp: quiet_def)
  note m = user_mkdir [OF u plan(1) st, of ?t, folded p_def]
  note root = root_dir_eq [of "uuid_unparse L" ?t]
  show ?thesis
  proof (cases "lookup (fs s) p")
    case None
    let ?s1 = "s\<lparr>fs := put_node (fs s) p (Some (NDir []))\<rparr>"
    obtain res s2 where un: "uninit_msg ?s1 = (res, s2)" by fastforce
    have s2: "io_same ?s1 s2" "tx s2 = tx s" "tx_plan s2 = tx_plan s" "rx s2 = rx s" "wf_hdr (hdr res)"
      using uninit_msg_same [OF un] uninit_msg_frame [of ?s1] wf_uninit_msg [of ?s1] un by auto
    let ?b = "cbytes ''Registered'' @ [0]"
    have "?b = [] \<and> Some ?b = None \<or> ?b \<noteq> [] \<and> Some ?b = Some ?b" "length ?b < 2 ^ 64" by (simp_all add: cbytes_def)
    from msg_send_reply [OF s2(5) _ this, of s2 MSGTYPE_AUTH_OK] plan(2) s2(3) obtain m' s3 where
      s3: "msg_send (msg_init res MSGTYPE_AUTH_OK (Some ?b) (of_nat (length ?b))) None 0 s2 = Some (0, m', s3)"
        "replied MSGTYPE_AUTH_OK ?b s2 s3" "tx_step s2 s3" by auto
    have b: "(of_nat (length ?b) :: usize) = 12" by (simp add: cbytes_def)
    have "man s2 = man s" "fs s2 = put_node (fs s) p (Some (NDir []))"
      using io_sameD [OF s2(1)] io_state [OF s2(1)] by (auto simp: state_same_def)
    moreover have "man s3 = man s2" "fs s3 = fs s2" "rx s3 = rx s2"
      using tx_step_same [OF s3(3)] io_sameD io_state s3(3) by (auto simp: state_same_def tx_step_def)
    moreover have "replied MSGTYPE_AUTH_OK ?b s s3" using s3(2) s2(2) by (simp add: replied_def)
    ultimately show ?thesis
      using None m un s3(1) reg s2(4) unfolding b
      by (auto simp: handle_auth_def Let_def root replied_def)
  next
    case (Some n)
    let ?s1 = "fail_with EEXIST s"
    obtain res s2 where un: "uninit_msg ?s1 = (res, s2)" by fastforce
    have s2: "io_same ?s1 s2" "tx s2 = tx s" "tx_plan s2 = tx_plan s" "rx s2 = rx s" "wf_hdr (hdr res)" "errno s2 = EEXIST"
      using uninit_msg_same [OF un] uninit_msg_frame [of ?s1] wf_uninit_msg [of ?s1] un
        uninit_frame(4) [of MessageHdr_size ?s1]
      by (auto simp: fail_with_def uninit_msg_def split: prod.splits)
    let ?b = "cbytes ''Already registered''"
    have "?b = [] \<and> Some ?b = None \<or> ?b \<noteq> [] \<and> Some ?b = Some ?b" "length ?b < 2 ^ 64" by (simp_all add: cbytes_def)
    from msg_send_reply [OF s2(5) _ this, of s2 MSGTYPE_AUTH_FAIL] plan(2) s2(3) obtain m' s3 where
      s3: "msg_send (msg_init res MSGTYPE_AUTH_FAIL (Some ?b) (of_nat (length ?b))) None 0 s2 = Some (0, m', s3)"
        "replied MSGTYPE_AUTH_FAIL ?b s2 s3" "tx_step s2 s3" by auto
    have "man s2 = man s" "fs s2 = fs s"
      using io_sameD [OF s2(1)] io_state [OF s2(1)] by (auto simp: state_same_def fail_with_def)
    moreover have "man s3 = man s2" "fs s3 = fs s2" "rx s3 = rx s2"
      using tx_step_same [OF s3(3)] io_sameD io_state s3(3) by (auto simp: state_same_def tx_step_def)
    moreover have "replied MSGTYPE_AUTH_FAIL ?b s s3" using s3(2) s2(2) by (simp add: replied_def)
    ultimately show ?thesis
      using Some m un s3(1) reg se s2(4,6)
      by (auto simp: handle_auth_def Let_def root replied_def)
  qed
qed


section \<open>Sample states\<close>

definition sample_lib :: lib where
  "sample_lib = \<lparr>uuid_unparse = (\<lambda>u. sample_uuid (u = sample_token 0 1)), uuid_parse = (\<lambda>_. None),
     uuid_compare = sample_compare, uuid_is_null = (\<lambda>u. u = replicate 16 0), uuid_generate = replicate 16 0,
     sha256 = sample_sha, strerror = (\<lambda>_. ''File exists'')\<rparr>"

definition sample_server :: "(string \<times> node) list \<Rightarrow> byte list \<Rightarrow> uman \<Rightarrow> objects \<Rightarrow> server" where
  "sample_server files inc m obs = \<lparr>rx = [RxData inc], tx_plan = [], tx = [], clock = (\<lambda>_. zero_time),
     junk = (\<lambda>_. 0), errno = 0, fs = NDir files, cwd = [], fs_plan = [], man = m, objs = obs, brk = 100,
     open_fds = (\<lambda>_. None), epoll = {}, nonblock = {}\<rparr>"

definition sample_request :: "MessageType \<Rightarrow> uuid \<Rightarrow> usize \<Rightarrow> Message" where
  "sample_request ty tok len = zero_msg\<lparr>hdr := zero_hdr\<lparr>hdr_type := type_code ty, hdr_token := tok, hdr_length := len\<rparr>\<rparr>"

definition no_objects :: objects where
  "no_objects = \<lparr>sess = (\<lambda>_. None), infos = (\<lambda>_. None)\<rparr>"

lemma sample_lib_simps [simp]:
  "uuid_unparse sample_lib u = sample_uuid (u = sample_token 0 1)" "uuid_compare sample_lib = sample_compare"
  "uuid_is_null sample_lib u \<longleftrightarrow> u = replicate 16 0" "uuid_generate sample_lib = replicate 16 0"
  "sha256 sample_lib = sample_sha" "strerror sample_lib e = ''File exists''"
  by (simp_all add: sample_lib_def)

lemma sample_unparse_text: "uuid_text (uuid_unparse sample_lib)"
  using sample_uuid_text by (simp add: uuid_text_def)

lemma sample_lib_ok: "lib_ok sample_lib"
  using sample_unparse_text sample_compare_order length_sample_sha by (simp add: lib_ok_def)

lemma sample_server_simps [simp]:
  "quiet (sample_server files inc m obs)" "fs (sample_server files inc m obs) = NDir files"
  "man (sample_server files inc m obs) = m" "objs (sample_server files inc m obs) = obs"
  "tx (sample_server files inc m obs) = []" "rx (sample_server files inc m obs) = [RxData inc]"
  by (simp_all add: sample_server_def quiet_def)

lemma sample_request_simps [simp]:
  "hdr_type (hdr (sample_request ty tok len)) = type_code ty" "hdr_token (hdr (sample_request ty tok len)) = tok"
  "hdr_length (hdr (sample_request ty tok len)) = len" "payload (sample_request ty tok len) = None"
  by (simp_all add: sample_request_def zero_msg_def)

lemma msgtype_of_code [simp]: "msgtype_of (type_code ty) = Some ty"
  by (cases ty) (simp_all add: msgtype_of_def type_code_def MSGTYPES_def)

lemma type_names [simp]: "\<exists>str. msg_type_to_str (type_code ty) = Some str"
  by (cases ty) (simp_all add: msg_type_to_str_def MSGTYPES_def)

text \<open>A manager without users knows no token and registers the first one.\<close>

lemma start_slot: "\<exists>i. umap_key_to_index (umap_init 256) tok = Some i \<and> slot (umap_init 256) i = Some NULL"
proof -
  have "unat (hash tok uuid_size mod 256) < 256" by (simp add: unat_mod)
  then show ?thesis by (simp add: umap_key_to_index_def slot_def umap_init_def)
qed

lemma start_get_user: "uman_get_user cmp tok (uman_start arrays) = Some NULL"
  using start_slot [of tok] by (auto simp: uman_get_user_def uman_start_def umap_get_def)

lemma start_register: "\<exists>m. uman_register_user cmp g tok (uman_start arrays) = Some m"
  using start_slot [of tok] by (auto simp: uman_register_user_def uman_start_def umap_put_def malloc_entry_def)

lemma sample_storage_dir: "\<exists>ds. lookup (NDir (sample_storage es)) storage_segs = Some (NDir ds)"
  by (simp add: sample_storage_def storage_segs_def)

section \<open>Properties\<close>

text \<open>
  Authentication. The first time a token comes, its directory is made and the answer is
  AUTH_OK; when the directory exists, and so every later time, the answer is AUTH_FAIL with
  "Already registered" and the tree stays as it is. The user is registered in both cases.
\<close>

theorem auth_registers:
  assumes "lib_ok L" "quiet s" "\<exists>es. lookup (fs s) storage_segs = Some (NDir es)"
    "uman_register_user (uuid_compare L) (uuid_generate L) (hdr_token (hdr msg)) (man s) = Some m"
    "p = storage_segs @ [uuid_unparse L (hdr_token (hdr msg))]"
  shows "\<exists>s'. handle_auth L msg s = Some s' \<and> man s' = m \<and> rx s' = rx s \<and>
    (if lookup (fs s) p = None
     then fs s' = put_node (fs s) p (Some (NDir [])) \<and> replied MSGTYPE_AUTH_OK (cbytes ''Registered'' @ [0]) s s'
     else fs s' = fs s \<and> replied MSGTYPE_AUTH_FAIL (cbytes ''Already registered'') s s')"
  using handle_auth_quiet [OF assms(1-4)] unfolding assms(5) .

theorem auth_registers_witness:
  "\<exists>s'. handle_auth sample_lib (sample_request MSGTYPE_AUTH_REQ (sample_token 0 1) 0)
      (sample_server (sample_storage []) [] (uman_start (\<lambda>_ _. 0)) no_objects) = Some s' \<and>
    replied MSGTYPE_AUTH_FAIL (cbytes ''Already registered'')
      (sample_server (sample_storage []) [] (uman_start (\<lambda>_ _. 0)) no_objects) s'"
proof -
  let ?s = "sample_server (sample_storage []) [] (uman_start (\<lambda>_ _. 0)) no_objects"
  let ?m = "sample_request MSGTYPE_AUTH_REQ (sample_token 0 1) 0"
  obtain m where "uman_register_user sample_compare (replicate 16 0) (sample_token 0 1) (uman_start (\<lambda>_ _. 0)) = Some m"
    using start_register by blast
  then have reg: "uman_register_user (uuid_compare sample_lib) (uuid_generate sample_lib) (hdr_token (hdr ?m)) (man ?s) = Some m"
    by simp
  have st: "\<exists>es. lookup (fs ?s) storage_segs = Some (NDir es)" using sample_storage_dir by simp
  have l: "lookup (fs ?s) (storage_segs @ [uuid_unparse sample_lib (hdr_token (hdr ?m))]) \<noteq> None"
    by (simp add: sample_storage_def storage_segs_def)
  from auth_registers [OF sample_lib_ok _ st reg refl] l show ?thesis by (auto simp del: sample_lib_simps)
qed

text \<open>
  C6. Users are isolated. Whatever a client sends with a token, and whatever the system calls
  answer: on a tree with plain names that fit into the path buffers, a message that does not crash
  the server changes, creates or removes no file outside the directories of the storage whose name
  starts with the text of the token; the directory of another user never is one of them.
\<close>

theorem requests_isolated:
  assumes "on_client_message_received L fd msg s = Some (ret, s')" "uuid_text (uuid_unparse L)"
    "tidy_tree (fs s)" "payload msg = None"
  shows "keeps_files (\<lambda>q. \<not> owns (uuid_unparse L) (hdr_token (hdr msg)) q) (fs s) (fs s') \<and>
    (uuid_unparse L u \<noteq> uuid_unparse L (hdr_token (hdr msg)) \<longrightarrow>
       (lookup (fs s) (storage_segs @ uuid_unparse L u # rest) = Some (NFile bs) \<longleftrightarrow>
        lookup (fs s') (storage_segs @ uuid_unparse L u # rest) = Some (NFile bs)))"
  using dispatch_files [OF assms] owns_other [OF assms(2), of "hdr_token (hdr msg)" u rest]
  by (auto simp: keeps_files_def)

lemma sample_tidy: "tidy_tree (NDir (sample_storage [(''f'', NFile [1])]))"
  unfolding tidy_tree_def
proof (rule conjI; (intro allI impI)?)
  fix q assume "lookup (NDir (sample_storage [(''f'', NFile [1])])) q \<noteq> None"
  then have "q \<in> {[], [''var''], [''var'', ''minibox''], [''var'', ''minibox'', sample_uuid True],
      [''var'', ''minibox'', sample_uuid True, ''f'']}"
    by (cases q; cases "tl q"; cases "tl (tl q)"; cases "tl (tl (tl q))"; cases "tl (tl (tl (tl q)))")
      (auto simp: sample_storage_def split: if_splits)
  moreover have "plain_name (sample_uuid True)"
    using uuid_text_seg [OF sample_uuid_text, of True] by (simp add: plain_name_def)
  ultimately show "(\<forall>s \<in> set q. plain_name s) \<and> length (render_tail q) + 1 < PATH_MAX"
    by (auto simp: plain_name_def [of "_ # _"] plain_seg_def seg_ok_def NUL_def render_tail_def PATH_MAX_def) (simp_all add: sample_uuid_def)
qed simp

theorem requests_isolated_witness:
  "\<exists>s'. on_client_message_received sample_lib 5 (sample_request MSGTYPE_AUTH_REQ (sample_token 7 7) 0)
      (sample_server (sample_storage [(''f'', NFile [1])]) [] (uman_start (\<lambda>_ _. 0)) no_objects) = Some (0, s') \<and>
    lookup (fs s') (storage_segs @ [sample_uuid True, ''f'']) = Some (NFile [1])"
proof -
  let ?s = "sample_server (sample_storage [(''f'', NFile [1])]) [] (uman_start (\<lambda>_ _. 0)) no_objects"
  let ?m = "sample_request MSGTYPE_AUTH_REQ (sample_token 7 7) 0"
  obtain m where "uman_register_user sample_compare (replicate 16 0) (sample_token 7 7) (uman_start (\<lambda>_ _. 0)) = Some m"
    using start_register by blast
  then have reg: "uman_register_user (uuid_compare sample_lib) (uuid_generate sample_lib) (hdr_token (hdr ?m)) (man ?s) = Some m"
    by simp
  have st: "\<exists>es. lookup (fs ?s) storage_segs = Some (NDir es)" using sample_storage_dir by simp
  from handle_auth_quiet [OF sample_lib_ok _ st reg] obtain s' where "handle_auth sample_lib ?m ?s = Some s'" by auto
  moreover obtain str where "msg_type_to_str (type_code MSGTYPE_AUTH_REQ) = Some str" using type_names by blast
  ultimately have run: "on_client_message_received sample_lib 5 ?m ?s = Some (0, s')"
    by (simp add: on_client_message_received_eq start_get_user on_oneshot_req_def)
  have "lookup (fs ?s) (storage_segs @ uuid_unparse sample_lib (sample_token 0 1) # [''f'']) = Some (NFile [1])"
    by (simp add: sample_storage_def storage_segs_def)
  moreover have "uuid_unparse sample_lib (sample_token 0 1) \<noteq> uuid_unparse sample_lib (hdr_token (hdr ?m))"
    by (simp add: sample_uuid_def sample_token_def)
  ultimately have "lookup (fs s') (storage_segs @ uuid_unparse sample_lib (sample_token 0 1) # [''f'']) = Some (NFile [1])"
    using requests_isolated [OF run sample_unparse_text, of "sample_token 0 1" "[''f'']" "[1]"] sample_tidy by simp
  with run show ?thesis by (auto simp: simp del: sample_server_simps)
qed


text \<open>
  C12. Without a token nothing happens: a message of any type but AUTH_REQ with the null token is
  answered with AUTH_FAIL as far as the socket takes it, the dispatcher returns -1, and files,
  users, sessions and the bytes still to be received are as before.
\<close>

theorem unauthenticated_refused:
  assumes "hdr_type (hdr msg) = type_code ty" "ty \<noteq> MSGTYPE_AUTH_REQ" "uuid_is_null L (hdr_token (hdr msg))"
    "wf_hdr (hdr msg)" "on_client_message_received L fd msg s = Some (ret, s')"
  shows "ret = -1 \<and> fs s' = fs s \<and> state_same s s' \<and> srv_same s s' \<and> rx s' = rx s \<and>
    (\<exists>sent h. tx s' = tx s @ sent \<and> prefix sent (enc_hdr h) \<and> hdr_type h = type_code MSGTYPE_AUTH_FAIL \<and> hdr_length h = 0)"
proof -
  obtain str where "msg_type_to_str (type_code ty) = Some str" using type_names by blast
  with assms obtain r m' where m: "msg_send (msg_init msg MSGTYPE_AUTH_FAIL None 0) None 0 s = Some (r, m', s')"
    and ret: "ret = -1"
    by (auto simp: on_client_message_received_eq bind_eq_Some_conv)
  have wf: "wf_hdr (hdr (msg_init msg MSGTYPE_AUTH_FAIL None 0))" using assms(4) by simp
  note s = msg_send_same [OF m]
  from msg_send_data [OF wf m] obtain sent where
    sent: "tx s' = tx s @ sent" "prefix sent (wire_image (msg_init msg MSGTYPE_AUTH_FAIL None 0) None 0 (clock s 0))" "tx_step s s'"
    by blast
  let ?h = "sent_hdr (msg_init msg MSGTYPE_AUTH_FAIL None 0) None 0 (clock s 0)"
  have "wire_image (msg_init msg MSGTYPE_AUTH_FAIL None 0) None 0 (clock s 0) = enc_hdr ?h"
    "hdr_type ?h = type_code MSGTYPE_AUTH_FAIL" "hdr_length ?h = 0"
    by (simp_all add: wire_image_def opt_bytes_def msg_init_def sent_hdr_def)
  with sent(1,2) have "\<exists>sent h. tx s' = tx s @ sent \<and> prefix sent (enc_hdr h) \<and> hdr_type h = type_code MSGTYPE_AUTH_FAIL \<and> hdr_length h = 0"
    by metis
  with ret io_sameD [OF s] io_srv [OF s] io_state [OF s] sent(3) show ?thesis by (simp add: tx_step_def)
qed

theorem unauthenticated_refused_witness:
  "\<exists>s'. on_client_message_received sample_lib 5 (sample_request MSGTYPE_REMOVE_REQ (replicate 16 0) 3)
      (sample_server (sample_storage [(''f'', NFile [1])]) [1, 2, 3] (uman_start (\<lambda>_ _. 0)) no_objects) = Some (-1, s') \<and>
    fs s' = NDir (sample_storage [(''f'', NFile [1])]) \<and> rx s' = [RxData [1, 2, 3]]"
proof -
  let ?s = "sample_server (sample_storage [(''f'', NFile [1])]) [1, 2, 3] (uman_start (\<lambda>_ _. 0)) no_objects"
  let ?m = "sample_request MSGTYPE_REMOVE_REQ (replicate 16 0) 3"
  have wf: "wf_hdr (hdr ?m)" by (simp add: sample_request_def wf_hdr_def zero_hdr_def)
  have tq: "tx_quiet (tx_plan ?s)" by (simp add: sample_server_def)
  from msg_send_reply [OF wf tq, of "[]" None MSGTYPE_AUTH_FAIL] obtain m' s' where
    s': "msg_send (msg_init ?m MSGTYPE_AUTH_FAIL None 0) None 0 ?s = Some (0, m', s')" by auto
  obtain str where "msg_type_to_str (type_code MSGTYPE_REMOVE_REQ) = Some str" using type_names by blast
  with s' have run: "on_client_message_received sample_lib 5 ?m ?s = Some (-1, s')"
    by (simp add: on_client_message_received_eq)
  from unauthenticated_refused [OF _ _ _ wf run, of MSGTYPE_REMOVE_REQ] run show ?thesis by auto
qed

text \<open>
  C34. A token no user has: each of the five requests is answered with the error "user not found"
  and does nothing else. The payload of the request is not received, so on a connection that stays
  open (MKDIR_REQ, REMOVE_REQ) its bytes are read as the next header; a stream request closes it.
\<close>

theorem unknown_user_refused:
  assumes "hdr_type (hdr msg) = type_code ty" "\<not> uuid_is_null L (hdr_token (hdr msg))"
    "uman_get_user (uuid_compare L) (hdr_token (hdr msg)) (man s) = Some NULL" "quiet s"
    "ty \<in> {MSGTYPE_UPLOAD_REQ, MSGTYPE_DOWNLOAD_REQ, MSGTYPE_LIST_REQ, MSGTYPE_REMOVE_REQ, MSGTYPE_MKDIR_REQ}"
  shows "\<exists>s'. on_client_message_received L fd msg s = Some (0, s') \<and> replied MSGTYPE_ERROR (cbytes ''user not found'') s s' \<and>
    fs s' = fs s \<and> state_same s s' \<and> rx s' = rx s \<and>
    open_fds s' = (if ty \<in> {MSGTYPE_REMOVE_REQ, MSGTYPE_MKDIR_REQ} then open_fds s else (open_fds s)(fd := None))"
proof -
  obtain str where str: "msg_type_to_str (type_code ty) = Some str" using type_names by blast
  let ?stream = "ty \<in> {MSGTYPE_UPLOAD_REQ, MSGTYPE_DOWNLOAD_REQ, MSGTYPE_LIST_REQ}"
  define t where "t = (if ?stream then set_blocking fd True (epoll_del fd s) else s)"
  have t: "tx_quiet (tx_plan t)" "tx t = tx s" "fs t = fs s" "rx t = rx s" "state_same s t" "open_fds t = open_fds s"
    using assms(4) by (auto simp: t_def quiet_def set_blocking_def epoll_del_def state_same_def)
  from answer_error_quiet [OF t(1), of "''user not found''"] obtain s1 where
    s1: "answer_error ''user not found'' t = Some s1" "replied MSGTYPE_ERROR (cbytes ''user not found'') t s1" "tx_step t s1"
    by auto
  have f: "fs s1 = fs s" "rx s1 = rx s" "state_same s s1" "open_fds s1 = open_fds s"
    using io_sameD [OF tx_step_same [OF s1(3)]] io_state [OF tx_step_same [OF s1(3)]] more_same(2) [of s1 t] t s1(3)
    by (auto simp: state_same_def tx_step_def)
  have r: "replied MSGTYPE_ERROR (cbytes ''user not found'') s s1" using s1(2) t(2) by (simp add: replied_def)
  show ?thesis
  proof (cases ?stream)
    case True
    have "on_client_message_received L fd msg s = Some (0, on_client_disconnected fd s1)"
      using True assms(1,2,3) str s1(1)
      by (auto simp: on_client_message_received_eq on_stream_req_def t_def handle_upload_def handle_download_def handle_list_def)
    with True f r show ?thesis
      by (auto simp: on_client_disconnected_def close_fd_def replied_def state_same_def)
  next
    case False
    with assms(5) have two: "ty = MSGTYPE_REMOVE_REQ \<or> ty = MSGTYPE_MKDIR_REQ" by auto
    then have "on_client_message_received L fd msg s = Some (0, s1)"
      using assms(1,2,3) str s1(1)
      by (auto simp: on_client_message_received_eq on_oneshot_req_def t_def handle_remove_def handle_mkdir_def)
    with two f r show ?thesis by auto
  qed
qed

theorem unknown_user_refused_witness:
  "\<exists>s'. on_client_message_received sample_lib 5 (sample_request MSGTYPE_MKDIR_REQ (sample_token 7 7) 2)
      (sample_server (sample_storage []) [97, 0] (uman_start (\<lambda>_ _. 0)) no_objects) = Some (0, s') \<and>
    rx s' = [RxData [97, 0]]"
proof -
  have "last (sample_token 7 7) = 7" "last (replicate 16 (0 :: byte)) = 0" by (simp_all add: sample_token_def)
  then have "sample_token 7 7 \<noteq> replicate 16 0" by force
  then have "\<not> uuid_is_null sample_lib (sample_token 7 7)" by simp
  then show ?thesis
    using unknown_user_refused [of "sample_request MSGTYPE_MKDIR_REQ (sample_token 7 7) 2" MSGTYPE_MKDIR_REQ sample_lib
        "sample_server (sample_storage []) [97, 0] (uman_start (\<lambda>_ _. 0)) no_objects" 5]
    by (auto simp: start_get_user)
qed

text \<open>A message whose type has no name ends the server, before the dispatcher looks at anything else.\<close>

lemma unnamed_type_faults:
  "msg_type_to_str (hdr_type (hdr msg)) = None \<Longrightarrow> on_client_message_received L fd msg s = None"
  by (simp add: on_client_message_received_eq)

end
