(* ===== verification/Client.thy ===== *)
theory Client
  imports Server
begin

text \<open>
  The client, src/client.c, with xdg_get_dir and connect_to_server of src/util.c: the command
  table, the token file, and one function per command. A command works on the state of its
  connection and of the client's file system; what it tells the user is a list of lines. None is
  undefined behaviour, as in the server. The progress bar, msg_print, fileinfo_print and the
  diagnostics of failed system calls are left out; msg_print ends the program when the type is unknown.
\<close>

section \<open>State and environment\<close>

record client = io +
  out :: "string list"

definition say :: "string \<Rightarrow> 'a client_scheme \<Rightarrow> 'a client_scheme" where
  "say line c = c\<lparr>out := out c @ [line]\<rparr>"

text \<open>
  The environment: getenv, the size lstat reports for what is not a regular file, and the network:
  whether there is a socket, what inet_pton accepts, and where connect succeeds.
\<close>

record env =
  env_vars :: "string \<Rightarrow> string option"
  special_size :: "node \<Rightarrow> usize"
  socket_ok :: bool
  inet_ok :: "string \<Rightarrow> bool"
  connect_ok :: "string \<Rightarrow> u16 \<Rightarrow> bool"

definition set_token :: "uuid \<Rightarrow> Message \<Rightarrow> Message" where
  "set_token token msg = msg\<lparr>hdr := (hdr msg)\<lparr>hdr_token := token\<rparr>\<rparr>"

text \<open>
  The payload that msg_recv_payload has stored. With a length of 0 it stores none, and the
  pointer is still what it was before: using or freeing that is a fault.
\<close>

definition received :: "Message \<Rightarrow> byte list option" where
  "received msg = (if hdr_length (hdr msg) = 0 then None else payload msg)"

definition received_string :: "Message \<Rightarrow> string option" where
  "received_string msg = do { mem \<leftarrow> received msg; cstr mem }"

definition received_info :: "Message \<Rightarrow> FileInfo option" where
  "received_info msg = payload_info (msg\<lparr>payload := received msg\<rparr>)"

text \<open>The decimal digits of a number, for the size of a file.\<close>

fun dec :: "nat \<Rightarrow> string" where
  "dec n = (if n < 10 then [] else dec (n div 10)) @ [char_of (48 + n mod 10)]"

declare dec.simps [simp del]

definition dec_int :: "int \<Rightarrow> string" where
  "dec_int i = (if i < 0 then CHR ''-'' # dec (nat (- i)) else dec (nat i))"

section \<open>The commands\<close>

datatype CommandID = CMD_HELP | CMD_AUTH | CMD_ULOD | CMD_DLOD | CMD_LIST | CMD_RMFI | CMD_MDIR

record Command =
  cmd_id :: CommandID
  cmd_name :: string
  cmd_usage :: string

definition commands :: "Command list" where
  "commands = [
     \<lparr>cmd_id = CMD_HELP, cmd_name = ''help'', cmd_usage = ''[command]''\<rparr>,
     \<lparr>cmd_id = CMD_AUTH, cmd_name = ''auth'', cmd_usage = ''''\<rparr>,
     \<lparr>cmd_id = CMD_ULOD, cmd_name = ''upload'', cmd_usage = ''<local_file> [remote_file]''\<rparr>,
     \<lparr>cmd_id = CMD_DLOD, cmd_name = ''download'', cmd_usage = ''<remote_file> [local_file]''\<rparr>,
     \<lparr>cmd_id = CMD_LIST, cmd_name = ''ls'', cmd_usage = ''[path]''\<rparr>,
     \<lparr>cmd_id = CMD_RMFI, cmd_name = ''rm'', cmd_usage = ''<remote_file>''\<rparr>,
     \<lparr>cmd_id = CMD_MDIR, cmd_name = ''mkdir'', cmd_usage = ''<remote_path>''\<rparr>]"

definition cmd_get :: "string \<Rightarrow> Command option" where
  "cmd_get name = List.find (\<lambda>cmd. cmd_name cmd = name) commands"

text \<open>commands is indexed with the enumerators, in the order of their declaration.\<close>

definition print_cmd_usage :: "string \<Rightarrow> CommandID \<Rightarrow> 'a client_scheme \<Rightarrow> 'a client_scheme" where
  "print_cmd_usage progname i c = (case List.find (\<lambda>cmd. cmd_id cmd = i) commands of
     None \<Rightarrow> c
   | Some cmd \<Rightarrow> say (''usage: '' @ progname @ '' '' @ cmd_name cmd @ '' '' @ cmd_usage cmd) c)"

definition print_help :: "string \<Rightarrow> 'a client_scheme \<Rightarrow> 'a client_scheme" where
  "print_help progname c =
     (let c = say (''usage: '' @ progname @ '' [-s SERVER_IP] COMMAND'') c;
          max_len = foldl (\<lambda>m cmd. if length (cmd_name cmd) > m then length (cmd_name cmd) else m)
                      (length (cmd_name (commands ! 0))) commands;
          col_width = max_len + 2;
          c = say ''Commands:'' c
      in foldl (\<lambda>c cmd. say (''    '' @ cmd_name cmd @
           replicate (col_width - length (cmd_name cmd)) (CHR '' '') @ cmd_usage cmd) c) c commands)"

definition cmd_help :: "string \<Rightarrow> string list \<Rightarrow> 'a client_scheme \<Rightarrow> int \<times> 'a client_scheme" where
  "cmd_help progname argv c = (case argv of
     [] \<Rightarrow> (1, print_help progname c)
   | arg # _ \<Rightarrow> (case cmd_get arg of
        None \<Rightarrow> (1, print_help progname (say (''Error: invalid command '' @ [CHR 0x27] @ arg @ [CHR 0x27]) c))
      | Some cmd \<Rightarrow> (0, print_cmd_usage progname (cmd_id cmd) c)))"

section \<open>The token file\<close>

datatype XDGDir = XDG_CONFIG_HOME | XDG_STATE_HOME

fun xdg_dir_to_str :: "XDGDir \<Rightarrow> string" where
  "xdg_dir_to_str XDG_CONFIG_HOME = ''XDG_CONFIG_HOME''"
| "xdg_dir_to_str XDG_STATE_HOME = ''XDG_STATE_HOME''"

text \<open>The length snprintf would need, and the string in the buffer; -1 when nothing is stored.\<close>

definition xdg_get_dir :: "(string \<Rightarrow> string option) \<Rightarrow> XDGDir \<Rightarrow> nat \<Rightarrow> int \<times> string option" where
  "xdg_get_dir getenv dir max_len = (case getenv (xdg_dir_to_str dir) of
     Some (x # xs) \<Rightarrow> (int (length (x # xs)), Some (snprintf_str max_len (x # xs)))
   | _ \<Rightarrow> (case getenv ''HOME'' of
        Some (x # xs) \<Rightarrow> (int (length ((x # xs) @ ''/.config'')), Some (snprintf_str max_len ((x # xs) @ ''/.config'')))
      | _ \<Rightarrow> (-1, None)))"

text \<open>strncat of at most n characters onto s in an array of room bytes.\<close>

definition strncat :: "nat \<Rightarrow> string \<Rightarrow> string \<Rightarrow> usize \<Rightarrow> string option" where
  "strncat room s t n = do {
     let r = s @ take (unat n) t;
     assert_that (length r < room);
     Some r
   }"

text \<open>open with O_CREAT, O_WRONLY and O_EXCL.\<close>

definition open_excl :: "string \<Rightarrow> 'a io_scheme \<Rightarrow> string list option \<times> 'a io_scheme" where
  "open_excl path c = (case at_path path c of
     (Inl e, c) \<Rightarrow> (None, fail_with e c)
   | (Inr p, c) \<Rightarrow>
       if lookup (fs c) p \<noteq> None then (None, fail_with EEXIST c)
       else (Some p, c\<lparr>fs := put_node (fs c) p (Some (NFile []))\<rparr>))"

text \<open>
  The token is read from the file or made and written to it. The results of read, uuid_parse and
  write are ignored; errno is looked at even when open has succeeded. token is what the header of
  the message held before.
\<close>

definition load_token ::
  "lib \<Rightarrow> env \<Rightarrow> uuid \<Rightarrow> 'a io_scheme \<Rightarrow> (int \<times> uuid \<times> 'a io_scheme) option" where
  "load_token L E token c = (case xdg_get_dir (env_vars E) XDG_STATE_HOME PATH_MAX of
     (len, None) \<Rightarrow> Some (1, token, c)
   | (len, Some tokfile_path) \<Rightarrow> do {
       let chars_left = of_nat PATH_MAX - of_int len;
       tokfile_path \<leftarrow> strncat PATH_MAX tokfile_path ''/minidropbox.token'' chars_left;
       let (fd, c) = open_excl tokfile_path c;
       if fd = None \<and> errno c \<noteq> EEXIST then Some (-1, token, c)
       else do {
         let (token_str, c) = uninit 37 c;
         if errno c = EEXIST
         then (case open_rd tokfile_path c of
             (None, c) \<Rightarrow> Some (-1, token, c)
           | (Some fd, c) \<Rightarrow> do {
               let (got, c) = fs_read fd 0 37 c;
               str \<leftarrow> cstr (case got of None \<Rightarrow> token_str | Some bs \<Rightarrow> bs @ drop (length bs) token_str);
               Some (0, (case uuid_parse L str of None \<Rightarrow> token | Some u \<Rightarrow> u), c)
             })
         else do {
           fd \<leftarrow> fd;
           let token = uuid_generate L;
           let str = cbytes (uuid_unparse L token);
           let (written, c) = fs_write fd 0 (take 37 (str @ drop (length str) token_str)) c;
           Some (0, token, c)
         }
       }
     })"

section \<open>auth\<close>

text \<open>Each of the commands takes its status 1 for any failure; the result is the exit status.\<close>

definition cmd_auth :: "lib \<Rightarrow> env \<Rightarrow> 'a client_scheme \<Rightarrow> (int \<times> 'a client_scheme) option" where
  "cmd_auth L E c = do {
     let msg = msg_init zero_msg MSGTYPE_AUTH_REQ None 0;
     (res, token, c) \<leftarrow> load_token L E (hdr_token (hdr msg)) c;
     if res = -1 then Some (1, c)
     else do {
       (res, msg, c) \<leftarrow> msg_send (set_token token msg) None 0 c;
       if res = -1 then Some (1, c)
       else do {
         (ret, msg, c) \<leftarrow> msg_recv 1024 (msg_clear msg) c;
         if \<not> handle_recv_error ret then Some (1, c)
         else do {
           type \<leftarrow> msg_type_to_str (hdr_type (hdr msg));
           text' \<leftarrow> received_string msg;
           Some (0, say (type @ '': '' @ text') c)
         }
       }
     }
   }"

section \<open>upload\<close>

text \<open>
  The answer to a transfer request when it is not the one expected: AUTH_FAIL, an error with its
  text, or something else. None within says that it is the one expected.
\<close>

definition refused ::
  "string \<Rightarrow> MessageType \<Rightarrow> string \<Rightarrow> string \<Rightarrow> Message \<Rightarrow> 'a client_scheme \<Rightarrow> 'a client_scheme option option" where
  "refused progname type err expected msg c =
     (if hdr_type (hdr msg) = type_code MSGTYPE_AUTH_FAIL
      then Some (Some (print_cmd_usage progname CMD_AUTH (say ''please authenticate first'' c)))
      else if hdr_type (hdr msg) = type_code MSGTYPE_ERROR
      then do {
        (_, msg, c) \<leftarrow> msg_recv_payload 8192 msg c;
        str \<leftarrow> payload_string msg;
        Some (Some (say (err @ str) c))
      }
      else if hdr_type (hdr msg) \<noteq> type_code type
      then do {
        str \<leftarrow> msg_type_to_str (hdr_type (hdr msg));
        Some (Some (say (expected @ str) c))
      }
      else Some None)"

text \<open>The first byte of the payload is the chunk to start with. file_send's result is ignored.\<close>

definition upload_chunks :: "lib \<Rightarrow> FileInfo \<Rightarrow> Message \<Rightarrow> 'a client_scheme \<Rightarrow> (int \<times> 'a client_scheme) option" where
  "upload_chunks L info msg c = do {
     (ret, msg, c) \<leftarrow> msg_recv_payload 8 msg c;
     if \<not> handle_recv_error ret then Some (1, c)
     else do {
       mem \<leftarrow> payload msg;
       assert_that (mem \<noteq> []);
       let seq = ucast (mem ! 0);
       let c = say (''seq: '' @ dec (unat seq)) c;
       name \<leftarrow> info_name info;
       (stats, c) \<leftarrow> file_send (sha256 L) name seq c;
       let c = say (''upload done: res='' @ dec_int (send_error_code stats)) c;
       (ret, msg, c) \<leftarrow> msg_recv_header (msg_clear msg) c;
       if hdr_type (hdr msg) = type_code MSGTYPE_UPLOAD_FIN then Some (0, say ''upload done!'' c)
       else do {
         str \<leftarrow> msg_type_to_str (hdr_type (hdr msg));
         Some (0, say (''expected MSGTYPE_UPLOAD_FIN got '' @ str @ ''!'') c)
       }
     }
   }"

definition cmd_upload ::
  "lib \<Rightarrow> env \<Rightarrow> string \<Rightarrow> string list \<Rightarrow> 'a client_scheme \<Rightarrow> (int \<times> 'a client_scheme) option" where
  "cmd_upload L E progname argv c = (case argv of
     [] \<Rightarrow> Some (1, print_cmd_usage progname CMD_ULOD c)
   | local # _ \<Rightarrow> do {
       let (info, c) = uninit_info c;
       (ret, info, c) \<leftarrow> fileinfo_from_filename (sha256 L) local info c;
       if ret < 0 then Some (1, say (local @ '': '' @ strerror L (errno c)) c)
       else do {
         (ret, token, c) \<leftarrow> load_token L E (hdr_token (hdr zero_msg)) c;
         if ret = -1 then Some (1, c)
         else do {
           let msg = msg_init (set_token token zero_msg) MSGTYPE_UPLOAD_REQ (Some (enc_info info)) (of_nat FileInfo_size);
           (ret, msg, c) \<leftarrow> msg_send msg None 0 c;
           if ret < 0 then Some (1, c)
           else do {
             (ret, msg, c) \<leftarrow> msg_recv_header (msg_clear msg) c;
             if \<not> handle_recv_error ret then Some (1, c)
             else do {
               _ \<leftarrow> msg_type_to_str (hdr_type (hdr msg));
               r \<leftarrow> refused progname MSGTYPE_UPLOAD_RES ''server error: '' ''expected MSGTYPE_UPLOAD_RES, got '' msg c;
               case r of Some c \<Rightarrow> Some (1, c) | None \<Rightarrow> upload_chunks L info msg c
             }
           }
         }
       }
     })"

section \<open>download\<close>

text \<open>
  The description sent with the request: the remote name, and the size and the number of whole
  chunks of the local file when there is one, as floor((float)size / CHUNK_SIZE).
\<close>

definition download_request :: "env \<Rightarrow> string \<Rightarrow> string \<Rightarrow> 'a io_scheme \<Rightarrow> (FileInfo \<times> 'a io_scheme) option" where
  "download_request E remote local c = do {
     info \<leftarrow> set_filename remote zero_info;
     let (s, c) = lstat local c;
     case s of None \<Rightarrow> Some (info, c)
     | Some n \<Rightarrow> do {
         let st_size = (case n of NFile bs \<Rightarrow> of_nat (length bs) | _ \<Rightarrow> special_size E n);
         Some (info\<lparr>fi_size := st_size, fi_chunk_count := of_nat (float_of_size (unat st_size) div CHUNK_SIZE)\<rparr>, c)
       }
   }"

definition download_chunks :: "lib \<Rightarrow> string \<Rightarrow> Message \<Rightarrow> 'a client_scheme \<Rightarrow> (int \<times> 'a client_scheme) option" where
  "download_chunks L local msg c = do {
     (ret, msg, c) \<leftarrow> msg_recv_payload 8192 msg c;
     if \<not> handle_recv_error ret then Some (1, c)
     else do {
       info \<leftarrow> payload_info msg;
       _ \<leftarrow> info_name info;
       info \<leftarrow> set_filename local info;
       (stats, c) \<leftarrow> file_recv (sha256 L) info c;
       let c = say (''download done: res='' @ dec_int (recv_error_code stats)) c;
       (ret, msg, c) \<leftarrow> msg_send (msg_init msg MSGTYPE_DOWNLOAD_FIN None 0) None 0 c;
       Some (0, c)
     }
   }"

definition cmd_download ::
  "lib \<Rightarrow> env \<Rightarrow> string \<Rightarrow> string list \<Rightarrow> 'a client_scheme \<Rightarrow> (int \<times> 'a client_scheme) option" where
  "cmd_download L E progname argv c = (case argv of
     [] \<Rightarrow> Some (1, print_cmd_usage progname CMD_DLOD c)
   | remote # args \<Rightarrow> do {
       let local = (case args of [] \<Rightarrow> remote | arg # _ \<Rightarrow> arg);
       let (msg, c) = uninit_msg c;
       (ret, token, c) \<leftarrow> load_token L E (hdr_token (hdr msg)) c;
       if ret = -1 then Some (1, c)
       else do {
         (info, c) \<leftarrow> download_request E remote local c;
         let msg = msg_init (set_token token msg) MSGTYPE_DOWNLOAD_REQ (Some (enc_info info)) (of_nat FileInfo_size);
         (ret, msg, c) \<leftarrow> msg_send msg None 0 c;
         if ret < 0 then Some (1, c)
         else do {
           (ret, msg, c) \<leftarrow> msg_recv_header (msg_clear msg) c;
           if \<not> handle_recv_error ret then Some (1, c)
           else do {
             _ \<leftarrow> msg_type_to_str (hdr_type (hdr msg));
             r \<leftarrow> refused progname MSGTYPE_DOWNLOAD_RES ''download error: '' ''expected DOWNLOAD_RES, got '' msg c;
             case r of Some c \<Rightarrow> Some (1, c) | None \<Rightarrow> download_chunks L local msg c
           }
         }
       }
     })"

section \<open>ls\<close>

text \<open>
  The loop over the answers: one line for each FILEINFO, up to the first message of another type.
  False is an error of the connection. The loop ends, since a message takes bytes off the stream.
\<close>

function list_loop :: "Message \<Rightarrow> 'a client_scheme \<Rightarrow> (bool \<times> Message \<times> 'a client_scheme) option" where
  "list_loop msg c = (case msg_recv (of_nat FileInfo_size) msg c of
     None \<Rightarrow> None
   | Some (ret, msg, c) \<Rightarrow>
       if \<not> handle_recv_error ret then Some (False, msg, c)
       else if hdr_type (hdr msg) \<noteq> type_code MSGTYPE_FILEINFO then Some (True, msg, c)
       else case received_info msg of
         None \<Rightarrow> None
       | Some info \<Rightarrow> (case info_name info of
           None \<Rightarrow> None
         | Some name \<Rightarrow> list_loop msg (say (dec (unat (fi_size info)) @ [CHR 0x09] @ name) c)))"
  by pat_completeness auto
termination
proof (relation "measure (\<lambda>(msg, c). length (incoming c))", goal_cases)
  case (2 msg c x ret y msg1 c1 info name)
  then show ?case
    using msg_recv_consumes [of "of_nat FileInfo_size" msg c ret msg1 c1]
    by (simp add: handle_recv_error_def say_def)
qed simp

declare list_loop.simps [simp del]

definition cmd_list ::
  "lib \<Rightarrow> env \<Rightarrow> string \<Rightarrow> string list \<Rightarrow> 'a client_scheme \<Rightarrow> (int \<times> 'a client_scheme) option" where
  "cmd_list L E progname argv c =
     (if 1 < length argv then Some (1, print_cmd_usage progname CMD_LIST c)
      else do {
        let path = (case argv of [arg] \<Rightarrow> arg | _ \<Rightarrow> '''');
        let (msg, c) = uninit_msg c;
        (ret, token, c) \<leftarrow> load_token L E (hdr_token (hdr msg)) c;
        if ret = -1 then Some (1, c)
        else do {
          let msg = msg_init (set_token token msg) MSGTYPE_LIST_REQ (Some (cbytes path)) (of_nat (length path + 1));
          (ret, msg, c) \<leftarrow> msg_send msg None 0 c;
          (ok, msg, c) \<leftarrow> list_loop msg c;
          if \<not> ok then Some (1, c)
          else if hdr_type (hdr msg) = type_code MSGTYPE_ERROR
          then do {
            str \<leftarrow> received_string msg;
            Some (1, say (''error while receiving file list: '' @ str) c)
          }
          else Some (0, say ''listing done'' c)
        }
      })"

section \<open>rm and mkdir\<close>

definition cmd_rm ::
  "lib \<Rightarrow> env \<Rightarrow> string \<Rightarrow> string list \<Rightarrow> 'a client_scheme \<Rightarrow> (int \<times> 'a client_scheme) option" where
  "cmd_rm L E progname argv c = (case argv of
     [] \<Rightarrow> Some (1, print_cmd_usage progname CMD_RMFI c)
   | filename # _ \<Rightarrow> do {
       let (msg, c) = uninit_msg c;
       (ret, token, c) \<leftarrow> load_token L E (hdr_token (hdr msg)) c;
       if ret = -1 then Some (1, c)
       else do {
         let msg = msg_init (set_token token msg) MSGTYPE_REMOVE_REQ (Some (cbytes filename)) (of_nat (length filename + 1));
         (ret, msg, c) \<leftarrow> msg_send msg None 0 c;
         if ret < 0 then Some (1, c)
         else do {
           (ret, msg, c) \<leftarrow> msg_recv_header msg c;
           if \<not> handle_recv_error ret then Some (1, c)
           else if hdr_type (hdr msg) \<notin> {type_code MSGTYPE_ERROR, type_code MSGTYPE_REMOVE_RES}
           then do {
             str \<leftarrow> msg_type_to_str (hdr_type (hdr msg));
             Some (1, say (''expected MSGTYPE_REMOVE_RES or ERROR, got '' @ str) c)
           }
           else do {
             (ret, msg, c) \<leftarrow> msg_recv_payload 8192 msg c;
             if \<not> handle_recv_error ret then Some (1, c)
             else if hdr_type (hdr msg) = type_code MSGTYPE_ERROR
             then do {
               str \<leftarrow> received_string msg;
               Some (1, say (''error deleting file: '' @ str) c)
             }
             else do {
               info \<leftarrow> received_info msg;
               name \<leftarrow> info_name info;
               Some (0, say (''deleted file: '' @ name) c)
             }
           }
         }
       }
     })"

definition cmd_mkdir ::
  "lib \<Rightarrow> env \<Rightarrow> string \<Rightarrow> string list \<Rightarrow> 'a client_scheme \<Rightarrow> (int \<times> 'a client_scheme) option" where
  "cmd_mkdir L E progname argv c = (case argv of
     [filename] \<Rightarrow> do {
       (ret, token, c) \<leftarrow> load_token L E (hdr_token (hdr zero_msg)) c;
       if ret = -1 then Some (1, c)
       else do {
         let msg = msg_init (set_token token zero_msg) MSGTYPE_MKDIR_REQ (Some (cbytes filename)) (of_nat (length filename + 1));
         (ret, msg, c) \<leftarrow> msg_send msg None 0 c;
         (ret, msg, c) \<leftarrow> msg_recv_header msg c;
         if \<not> handle_recv_error ret then Some (1, c)
         else if hdr_type (hdr msg) \<notin> {type_code MSGTYPE_ERROR, type_code MSGTYPE_MKDIR_RES}
         then do {
           str \<leftarrow> msg_type_to_str (hdr_type (hdr msg));
           Some (1, say (''expected MSGTYPE_MKDIR_RES or ERROR, got '' @ str) c)
         }
         else do {
           (ret, msg, c) \<leftarrow> msg_recv_payload 8192 msg c;
           if \<not> handle_recv_error ret then Some (1, c)
           else if hdr_type (hdr msg) = type_code MSGTYPE_ERROR
           then do {
             str \<leftarrow> payload_string msg;
             Some (1, say (''failed to create directory: '' @ str) c)
           }
           else Some (0, say ''directory created successfully'' c)
         }
       }
     }
   | _ \<Rightarrow> Some (1, print_cmd_usage progname CMD_MDIR c))"

section \<open>The program\<close>

text \<open>connect_to_server: -1, or a descriptor, of which the model needs no more than that.\<close>

definition connect_to_server :: "env \<Rightarrow> string \<Rightarrow> u16 \<Rightarrow> int" where
  "connect_to_server E server_ip port =
     (if \<not> socket_ok E then -1
      else if \<not> inet_ok E server_ip then -1
      else if \<not> connect_ok E server_ip port then -1 else 3)"

text \<open>
  getopt with the options "s:". It takes options out of the arguments wherever they stand, up to
  an argument --, and leaves the others in their order. strcpy puts the address into an array of
  INET_ADDRSTRLEN bytes. None within is an option that is not known or has no argument.
\<close>

definition INET_ADDRSTRLEN :: nat where "INET_ADDRSTRLEN = 16"
definition DEFAULT_SERVER_IP :: string where "DEFAULT_SERVER_IP = ''127.0.0.1''"
definition DEFAULT_SERVER_PORT :: u16 where "DEFAULT_SERVER_PORT = 1234"

fun get_options :: "string \<Rightarrow> string list \<Rightarrow> string list \<Rightarrow> (string \<times> string list) option option" where
  "get_options ip [] rest = Some (Some (ip, rest))"
| "get_options ip (arg # args) rest =
     (if arg = ''--'' then Some (Some (ip, rest @ args))
      else case arg of
        [] \<Rightarrow> get_options ip args (rest @ [arg])
      | [ch] \<Rightarrow> get_options ip args (rest @ [arg])
      | ch # opt # optarg \<Rightarrow>
          if ch \<noteq> CHR ''-'' then get_options ip args (rest @ [arg])
          else if opt \<noteq> CHR ''s'' then Some None
          else if optarg \<noteq> [] then
            (if length optarg < INET_ADDRSTRLEN then get_options optarg args rest else None)
          else (case args of
            [] \<Rightarrow> Some None
          | v # args \<Rightarrow> if length v < INET_ADDRSTRLEN then get_options v args rest else None))"

text \<open>The call through the table of commands.\<close>

definition call_command ::
  "lib \<Rightarrow> env \<Rightarrow> string \<Rightarrow> CommandID \<Rightarrow> string list \<Rightarrow> 'a client_scheme \<Rightarrow> (int \<times> 'a client_scheme) option" where
  "call_command L E progname i argv c = (case i of
     CMD_HELP \<Rightarrow> Some (cmd_help progname argv c)
   | CMD_AUTH \<Rightarrow> cmd_auth L E c
   | CMD_ULOD \<Rightarrow> cmd_upload L E progname argv c
   | CMD_DLOD \<Rightarrow> cmd_download L E progname argv c
   | CMD_LIST \<Rightarrow> cmd_list L E progname argv c
   | CMD_RMFI \<Rightarrow> cmd_rm L E progname argv c
   | CMD_MDIR \<Rightarrow> cmd_mkdir L E progname argv c)"

definition client_main ::
  "lib \<Rightarrow> env \<Rightarrow> string \<Rightarrow> string list \<Rightarrow> 'a client_scheme \<Rightarrow> (int \<times> 'a client_scheme) option" where
  "client_main L E progname argv c = do {
     opts \<leftarrow> get_options DEFAULT_SERVER_IP argv [];
     case opts of
       None \<Rightarrow> Some (1, print_help progname c)
     | Some (server_ip, []) \<Rightarrow> Some (1, print_help progname c)
     | Some (server_ip, name # args) \<Rightarrow> (case cmd_get name of
         None \<Rightarrow> Some (1, print_help progname c)
       | Some cmd \<Rightarrow>
           if cmd_id cmd \<noteq> CMD_HELP \<and> connect_to_server E server_ip DEFAULT_SERVER_PORT = -1 then Some (1, c)
           else call_command L E progname (cmd_id cmd) args c)
   }"

end
