(* ===== verification/ClientToken.thy ===== *)
theory ClientToken
  imports ServerRequests Client
begin

text \<open>
  The token file of the client: which path it has, what is read from it, and that the token that
  one run has made is the token of every later run.
\<close>

section \<open>The path\<close>

definition token_file :: string where
  "token_file = ''/minidropbox.token''"

text \<open>The directory xdg_get_dir means.\<close>

definition state_dir :: "env \<Rightarrow> string option" where
  "state_dir E = (case env_vars E ''XDG_STATE_HOME'' of
     Some (x # xs) \<Rightarrow> Some (x # xs)
   | _ \<Rightarrow> (case env_vars E ''HOME'' of Some (x # xs) \<Rightarrow> Some ((x # xs) @ ''/.config'') | _ \<Rightarrow> None))"

lemma xdg_get_dir_state:
  "xdg_get_dir (env_vars E) XDG_STATE_HOME n =
     (case state_dir E of None \<Rightarrow> (-1, None) | Some d \<Rightarrow> (int (length d), Some (snprintf_str n d)))"
  by (simp add: xdg_get_dir_def state_dir_def split: option.splits list.splits)

lemma length_token_file: "length token_file = 18"
  by (simp add: token_file_def)

text \<open>
  The room the program computes for strncat leaves out the terminating zero, and wraps around when
  the directory does not fit.
\<close>

lemma room_left:
  assumes "length d < 2 ^ 63"
  shows "unat (of_nat PATH_MAX - of_int (int (length d)) :: usize) =
    (if length d \<le> PATH_MAX then PATH_MAX - length d else 2 ^ 64 + PATH_MAX - length d)"
proof -
  have d: "unat (of_nat (length d) :: usize) = length d" using assms by (simp add: unat_of_nat)
  have p: "unat (of_nat PATH_MAX :: usize) = PATH_MAX" by (simp add: PATH_MAX_def)
  show ?thesis
  proof (cases "length d \<le> PATH_MAX")
    case True
    have "(of_nat (length d) :: usize) \<le> of_nat PATH_MAX" using True d p by (simp add: word_le_nat_alt)
    with True d p show ?thesis by (simp add: unat_sub)
  next
    case False
    then have gt: "\<not> (of_nat (length d) :: usize) \<le> of_nat PATH_MAX" using d p by (simp add: word_le_nat_alt)
    show ?thesis using unat_sub_if_size [of "of_nat PATH_MAX :: usize" "of_nat (length d)"] gt d p False
      by (simp add: word_size)
  qed
qed

lemma token_path:
  assumes "length d < 2 ^ 63"
  shows "strncat PATH_MAX (snprintf_str PATH_MAX d) token_file (of_nat PATH_MAX - of_int (int (length d))) =
    (if length d < 4078 then Some (d @ token_file)
     else if length d = 4096 then Some (take 4095 d) else None)"
proof -
  let ?room = "if length d \<le> PATH_MAX then PATH_MAX - length d else 2 ^ 64 + PATH_MAX - length d"
  consider "length d < 4078" | "4078 \<le> length d" "length d < 4096" | "length d = 4096" | "4096 < length d" by linarith
  then have "(do { let r = snprintf_str PATH_MAX d @ take ?room token_file;
                   assert_that (length r < PATH_MAX); Some r }) =
    (if length d < 4078 then Some (d @ token_file)
     else if length d = 4096 then Some (take 4095 d) else None)"
  proof cases
    case 1
    then have "take (PATH_MAX - length d) token_file = token_file" by (simp add: length_token_file PATH_MAX_def)
    with 1 show ?thesis by (simp add: length_token_file PATH_MAX_def snprintf_str_def)
  next
    case 2
    then have "length (take (PATH_MAX - length d) token_file) = 4096 - length d"
      by (simp add: length_token_file PATH_MAX_def)
    with 2 show ?thesis by (simp add: PATH_MAX_def snprintf_str_def assert_that_def)
  next
    case 3
    then show ?thesis by (simp add: PATH_MAX_def snprintf_str_def)
  next
    case 4
    then have "18 \<le> 2 ^ 64 + PATH_MAX - length d" using assms by (simp add: PATH_MAX_def)
    then have "take (2 ^ 64 + PATH_MAX - length d) token_file = token_file" by (simp add: length_token_file)
    with 4 show ?thesis by (simp add: length_token_file PATH_MAX_def snprintf_str_def assert_that_def)
  qed
  then show ?thesis unfolding strncat_def room_left [OF assms] .
qed

section \<open>Loading\<close>

text \<open>Only errno and the leftovers on the stack change, besides the file system.\<close>

definition io_becomes :: "'a io_scheme \<Rightarrow> node \<Rightarrow> 'a io_scheme \<Rightarrow> bool" where
  "io_becomes c r c' \<longleftrightarrow> (\<exists>e j. c' = c\<lparr>errno := e, junk := j, fs := r\<rparr>)"

lemma io_becomesD:
  "io_becomes c r c' \<Longrightarrow> fs c' = r \<and> cwd c' = cwd c \<and> fs_plan c' = fs_plan c \<and> rx c' = rx c \<and> tx c' = tx c \<and>
     tx_plan c' = tx_plan c \<and> clock c' = clock c \<and> io.more c' = io.more c"
  by (auto simp: io_becomes_def)

definition token_text :: "lib \<Rightarrow> uuid \<Rightarrow> byte list" where
  "token_text L u = cbytes (uuid_unparse L u)"

lemma load_token_start:
  assumes "state_dir E = Some d" "length d < 4078"
  shows "load_token L E token c = do {
       let (fd, c) = open_excl (d @ token_file) c;
       if fd = None \<and> errno c \<noteq> EEXIST then Some (-1, token, c)
       else do {
         let (token_str, c) = uninit 37 c;
         if errno c = EEXIST
         then (case open_rd (d @ token_file) c of
             (None, c) \<Rightarrow> Some (-1, token, c)
           | (Some fd, c) \<Rightarrow> do {
               let (got, c) = fs_read fd 0 37 c;
               str \<leftarrow> cstr (case got of None \<Rightarrow> token_str | Some bs \<Rightarrow> bs @ drop (length bs) token_str);
               Some (0, (case uuid_parse L str of None \<Rightarrow> token | Some u \<Rightarrow> u), c)
             })
         else do {
           fd \<leftarrow> fd;
           let token = uuid_generate L;
           let str = cbytes (uuid_unparse L token);
           let (written, c) = fs_write fd 0 (take 37 (str @ drop (length str) token_str)) c;
           Some (0, token, c)
         }
       }
     }"
proof -
  have "length d < 2 ^ 63" using assms(2) by simp
  from token_path [OF this] assms(2) show ?thesis
    unfolding load_token_def xdg_get_dir_state assms(1) token_file_def [symmetric] by simp
qed

lemma load_token_old:
  assumes "state_dir E = Some d" "length d < 4078" "calm c" "path_to (d @ token_file) p c"
    "lookup (fs c) p = Some (NFile (token_text L u))" "uuid_text (uuid_unparse L)" "uuid_parse L (uuid_unparse L u) = Some u"
  shows "\<exists>c'. load_token L E token c = Some (0, u, c') \<and> io_becomes c (fs c) c'"
proof -
  have "place (fs c) p" using assms(4,5) by (auto simp: path_to_def intro: lookup_place)
  then have r: "resolve c (d @ token_file) = Inr p" by (rule path_to_resolve [OF assms(4)])
  let ?c1 = "fail_with EEXIST c"
  have o1: "open_excl (d @ token_file) c = (None, ?c1)"
    using calm_at_path [OF assms(3)] r assms(5) by (simp add: open_excl_def)
  obtain mem c2 where u: "uninit 37 ?c1 = (mem, c2)" by fastforce
  then have c2: "c2 = c\<lparr>errno := EEXIST, junk := junk c2\<rparr>" by (auto simp: uninit_def fail_with_def)
  have calm2: "calm c2" "fs c2 = fs c" using assms(3) by (subst c2; simp add: calm_def)+
  have r2: "resolve c2 (d @ token_file) = Inr p"
    using path_to_resolve [of "d @ token_file" p c2] assms(4) \<open>place (fs c) p\<close> calm2(2) by (simp add: path_to_def)
  have o2: "open_rd (d @ token_file) c2 = (Some p, c2)"
    using calm_at_path [OF calm2(1)] calm2 r2 assms(5) by (simp add: open_rd_def)
  have len: "length (token_text L u) = 37" using uuid_text_seg(3) [OF assms(6), of u] by (simp add: token_text_def)
  have rd: "fs_read p 0 37 c2 = (Some (token_text L u), c2)"
    using fs_read_quiet [of c2 p "token_text L u" 0 37] calm2 assms(5) len by (simp add: calm_def)
  have s: "cstr (token_text L u @ drop 37 mem) = Some (uuid_unparse L u)"
    unfolding token_text_def by (rule cstr_cbytes) (rule uuid_text_seg(2) [OF assms(6)])
  have e2: "errno c2 = EEXIST" by (subst c2) simp
  have "load_token L E token c = Some (0, u, c2)"
    unfolding load_token_start [OF assms(1,2)]
    using o1 u o2 rd s e2 len assms(7) by (simp add: fail_with_def)
  moreover have "io_becomes c (fs c) c2"
    unfolding io_becomes_def by (subst c2) (intro exI [of _ EEXIST] exI [of _ "junk c2"]; simp)
  ultimately show ?thesis by blast
qed

lemma load_token_new:
  assumes "state_dir E = Some d" "length d < 4078" "calm c" "path_to (d @ token_file) p c" "place (fs c) p"
    "lookup (fs c) p = None" "errno c \<noteq> EEXIST" "uuid_text (uuid_unparse L)"
  shows "\<exists>c'. load_token L E token c = Some (0, uuid_generate L, c') \<and>
    io_becomes c (put_node (fs c) p (Some (NFile (token_text L (uuid_generate L))))) c'"
proof -
  let ?t = "token_text L (uuid_generate L)"
  let ?c1 = "c\<lparr>fs := put_node (fs c) p (Some (NFile []))\<rparr>"
  have r: "resolve c (d @ token_file) = Inr p" by (rule path_to_resolve [OF assms(4,5)])
  have o1: "open_excl (d @ token_file) c = (Some p, ?c1)"
    using calm_at_path [OF assms(3)] r assms(6) by (simp add: open_excl_def)
  obtain mem c2 where u: "uninit 37 ?c1 = (mem, c2)" by fastforce
  then have c2: "c2 = ?c1\<lparr>junk := junk c2\<rparr>" by (auto simp: uninit_def)
  have f2: "fs_plan c2 = []" "fs c2 = put_node (fs c) p (Some (NFile []))" "errno c2 = errno c"
    using assms(3) by (subst c2; simp add: calm_def)+
  have len: "length ?t = 37" using uuid_text_seg(3) [OF assms(8)] by (simp add: token_text_def)
  let ?c3 = "c2\<lparr>fs := put_node (fs c) p (Some (NFile ?t))\<rparr>"
  have wr: "fs_write p 0 ?t c2 = (Some 37, ?c3)"
    using len f2 lookup_put_same [OF assms(5)] put_put [OF assms(5)]
    by (auto simp: fs_write_def fs_next_quiet file_bytes_def overwrite_0 Let_def)
  have "load_token L E token c = Some (0, uuid_generate L, ?c3)"
    unfolding load_token_start [OF assms(1,2)]
    using o1 u wr f2(3) len assms(7) by (simp add: token_text_def Let_def)
  moreover have "io_becomes c (put_node (fs c) p (Some (NFile ?t))) ?c3"
    unfolding io_becomes_def by (subst c2) (intro exI [of _ "errno c"] exI [of _ "junk c2"]; simp)
  ultimately show ?thesis by blast
qed

section \<open>Properties\<close>

text \<open>
  C37. The token is kept: the first run makes a token and writes it to the token file, and every
  later run, on the file system the first one left and whatever token its own uuid_generate would
  make, loads the same token and leaves the file as it is.
\<close>

theorem load_token_stable:
  fixes c :: "'a io_scheme"
  assumes "state_dir E = Some d" "length d < 4078" "calm c" "path_to (d @ token_file) p c" "place (fs c) p"
    "lookup (fs c) p = None" "errno c \<noteq> EEXIST" "uuid_text (uuid_unparse L)"
    "uuid_parse L (uuid_unparse L (uuid_generate L)) = Some (uuid_generate L)"
  shows "\<exists>c'. load_token L E t c = Some (0, uuid_generate L, c') \<and>
    fs c' = put_node (fs c) p (Some (NFile (token_text L (uuid_generate L)))) \<and>
    (\<forall>g t' (b :: 'b io_scheme). calm b \<and> fs b = fs c' \<and> cwd b = cwd c \<longrightarrow>
       (\<exists>b'. load_token (L\<lparr>uuid_generate := g\<rparr>) E t' b = Some (0, uuid_generate L, b') \<and> fs b' = fs c'))"
proof -
  from load_token_new [OF assms(1-8)] obtain c' where
    c': "load_token L E t c = Some (0, uuid_generate L, c')"
    "fs c' = put_node (fs c) p (Some (NFile (token_text L (uuid_generate L))))"
    by (blast dest: io_becomesD)
  have "\<exists>b'. load_token (L\<lparr>uuid_generate := g\<rparr>) E t' b = Some (0, uuid_generate L, b') \<and> fs b' = fs c'"
    if b: "calm b" "fs b = fs c'" for g t' and b :: "'b io_scheme"
  proof -
    let ?L = "L\<lparr>uuid_generate := g\<rparr>"
    have f: "lookup (fs b) p = Some (NFile (token_text ?L (uuid_generate L)))"
      using b(2) c'(2) lookup_put_same [OF assms(5)] by (simp add: token_text_def)
    have p: "path_to (d @ token_file) p b" using assms(4) by (auto simp: path_to_def token_file_def)
    have "uuid_text (uuid_unparse ?L)" "uuid_parse ?L (uuid_unparse ?L (uuid_generate L)) = Some (uuid_generate L)"
      using assms(8,9) by simp_all
    from load_token_old [OF assms(1,2) b(1) p f this, of t'] b(2) show ?thesis by (auto dest: io_becomesD)
  qed
  with c' show ?thesis by blast
qed

text \<open>
  C38. The buffer of the path: load_token is defined, that is, strncat stays inside the buffer,
  exactly for directories of at most 4077 characters or of exactly 4096, which are cut and used as
  the file itself; from 4078 to 4095 characters the terminating zero is written behind the buffer,
  and above 4096 the remaining room wraps around.
\<close>

theorem load_token_bounds:
  assumes "state_dir E = Some d" "length d < 2 ^ 63"
  shows "(4078 \<le> length d \<and> length d \<noteq> 4096 \<longrightarrow> load_token L E t c = None) \<and>
    (length d < 4078 \<or> length d = 4096 \<longrightarrow>
      (\<forall>c1. open_excl (if length d < 4078 then d @ token_file else take 4095 d) c = (None, c1) \<and> errno c1 \<noteq> EEXIST \<longrightarrow>
        load_token L E t c = Some (-1, t, c1)))"
  using token_path [OF assms(2)]
  unfolding load_token_def xdg_get_dir_state assms(1) token_file_def [symmetric]
  by (simp split: if_splits)

section \<open>Samples\<close>

definition sample_env :: "string \<Rightarrow> env" where
  "sample_env d = \<lparr>env_vars = (\<lambda>v. if v = ''XDG_STATE_HOME'' then Some d else None), special_size = (\<lambda>_. 4096),
     socket_ok = True, inet_ok = (\<lambda>_. True), connect_ok = (\<lambda>_ _. True)\<rparr>"

definition client_lib :: lib where
  "client_lib = sample_lib\<lparr>uuid_generate := sample_token 0 1,
     uuid_parse := (\<lambda>s. if s = sample_uuid True then Some (sample_token 0 1) else None)\<rparr>"

definition sample_client :: "(string \<times> node) list \<Rightarrow> byte list \<Rightarrow> client" where
  "sample_client files inc = \<lparr>rx = [RxData inc], tx_plan = [], tx = [], clock = (\<lambda>_. zero_time),
     junk = (\<lambda>_. 0), errno = 0, fs = NDir files, cwd = [], fs_plan = [], out = []\<rparr>"

lemma sample_state_dir: "state_dir (sample_env (x # xs)) = Some (x # xs)"
  by (simp add: state_dir_def sample_env_def)

lemma client_lib_simps [simp]:
  "uuid_unparse client_lib u = sample_uuid (u = sample_token 0 1)" "uuid_generate client_lib = sample_token 0 1"
  "uuid_parse client_lib s = (if s = sample_uuid True then Some (sample_token 0 1) else None)"
  "uuid_compare client_lib = sample_compare" "sha256 client_lib = sample_sha"
  by (simp_all add: client_lib_def)

lemma client_lib_ok: "lib_ok client_lib"
  using sample_lib_ok by (simp add: lib_ok_def client_lib_def)

lemma sample_client_simps [simp]:
  "quiet (sample_client files inc)" "calm (sample_client files inc)" "fs (sample_client files inc) = NDir files"
  "errno (sample_client files inc) = 0" "rx (sample_client files inc) = [RxData inc]" "tx (sample_client files inc) = []"
  "out (sample_client files inc) = []" "cwd (sample_client files inc) = []"
  by (simp_all add: sample_client_def quiet_def calm_def)

lemma sample_token_path: "path_to (''/s'' @ token_file) [''s'', ''minidropbox.token''] c"
proof -
  have "segments (''/s'' @ token_file) = [''s'', ''minidropbox.token'']" by (simp add: token_file_def)
  moreover have "plain_name ''s''" "plain_name ''minidropbox.token''"
    by (simp_all add: plain_name_def plain_seg_def seg_ok_def NUL_def)
  ultimately show ?thesis by (simp add: path_to_def plain_path_def token_file_def PATH_MAX_def)
qed

theorem load_token_stable_witness:
  "\<exists>c' b'. load_token client_lib (sample_env ''/s'') (replicate 16 0) (sample_client [(''s'', NDir [])] []) =
      Some (0, sample_token 0 1, c') \<and>
    load_token (client_lib\<lparr>uuid_generate := sample_token 7 7\<rparr>) (sample_env ''/s'') (replicate 16 0) (c'\<lparr>errno := 0\<rparr>) =
      Some (0, sample_token 0 1, b')"
proof -
  let ?c = "sample_client [(''s'', NDir [])] []"
  have pl: "place (fs ?c) [''s'', ''minidropbox.token'']" "lookup (fs ?c) [''s'', ''minidropbox.token''] = None"
    by (simp_all add: place_def)
  have e: "errno ?c \<noteq> EEXIST" "length ''/s'' < 4078" by (simp_all add: EEXIST_def)
  have u: "uuid_text (uuid_unparse client_lib)" using client_lib_ok by (simp add: lib_ok_def)
  have g: "uuid_parse client_lib (uuid_unparse client_lib (uuid_generate client_lib)) = Some (uuid_generate client_lib)" by simp
  have d: "state_dir (sample_env ''/s'') = Some ''/s''" by (rule sample_state_dir)
  have "calm ?c" by simp
  from load_token_stable [where ?'b = "\<lparr>out :: string list\<rparr>", OF d e(2) this sample_token_path pl e(1) u g, of "replicate 16 0"]
  obtain c' where c': "load_token client_lib (sample_env ''/s'') (replicate 16 0) ?c = Some (0, sample_token 0 1, c')" and
    again: "\<forall>g t' (b :: client). calm b \<and> fs b = fs c' \<and> cwd b = cwd ?c \<longrightarrow>
      (\<exists>b'. load_token (client_lib\<lparr>uuid_generate := g\<rparr>) (sample_env ''/s'') t' b = Some (0, sample_token 0 1, b') \<and> fs b' = fs c')"
    unfolding client_lib_simps(2) by blast
  from load_token_new [OF d e(2) _ sample_token_path pl e(1) u, of "replicate 16 0"] c' obtain r where "io_becomes ?c r c'"
    by auto
  moreover from io_becomesD [OF this] have "fs c' = r" by blast
  ultimately have "io_becomes ?c (fs c') c'" by simp
  then have "calm (c'\<lparr>errno := 0\<rparr>)" "fs (c'\<lparr>errno := 0\<rparr>) = fs c'" "cwd (c'\<lparr>errno := 0\<rparr>) = cwd ?c"
    using io_becomesD [of ?c "fs c'" c'] by (simp_all add: calm_def sample_client_def)
  with again c' show ?thesis by blast
qed

theorem load_token_bounds_witness:
  "load_token client_lib (sample_env (replicate 4078 CHR ''/'')) (replicate 16 0) (sample_client [] []) = None"
proof -
  have "state_dir (sample_env (replicate 4078 CHR ''/'')) = Some (replicate 4078 CHR ''/'')"
    using sample_state_dir [of "CHR ''/''" "replicate 4077 CHR ''/''"] replicate_Suc [of 4077 "CHR ''/''"] by simp
  then show ?thesis using load_token_bounds [of "sample_env (replicate 4078 CHR ''/'')" "replicate 4078 CHR ''/''"]
    by (simp add: length_replicate)
qed

end
