(* ===== verification/ServerLoop.thy ===== *)
theory ServerLoop
  imports ServerRequests
begin

text \<open>
  The main function of src/server.c: the start of the server and its event loop, as a step
  relation over the open sockets, the interest list of epoll and the events that epoll_wait has
  returned and the loop has not looked at yet. The listening socket and the rest of the start are
  in ServerMain, the worker threads and the signal handler in Workers.
\<close>

section \<open>The start\<close>

text \<open>
  mkdir of the storage directory, and uman_init over its entries. None within is the exit with
  status 1. The uninitialised tokens of uman_init are taken from the memory.
\<close>

definition server_init :: "lib \<Rightarrow> server \<Rightarrow> server option option" where
  "server_init L s =
     (let (ret, s) = fs_mkdir STORAGE_DIR s
      in if ret < 0 \<and> errno s \<noteq> EEXIST then Some None
         else do {
           let (dir, s) = opendir STORAGE_DIR s;
           let stack = (\<lambda>i. map (junk s) [16 * i..<16 * i + 16]);
           m \<leftarrow> uman_init (uuid_compare L) (uuid_generate L) (uuid_parse L) stack (map_option (map fst) dir) (man s);
           Some (Some (s\<lparr>man := m\<rparr>))
         })"

section \<open>One event\<close>

definition MAX_EVENTS :: nat where
  "MAX_EVENTS = 64"

definition EBADF :: int where "EBADF = 9"

text \<open>Working on a socket, and putting it back unless it has been closed.\<close>

definition focus :: "socket \<Rightarrow> server \<Rightarrow> server" where
  "focus so s = s\<lparr>rx := so_rx so, tx_plan := so_tx_plan so, tx := so_tx so\<rparr>"

definition unfocus :: "nat \<Rightarrow> server \<Rightarrow> server" where
  "unfocus fd s = (if open_fds s fd = None then s
     else s\<lparr>open_fds := (open_fds s)(fd \<mapsto> \<lparr>so_rx = rx s, so_tx_plan = tx_plan s, so_tx = tx s\<rparr>)\<rparr>)"

text \<open>on_client_disconnected has closed the descriptor, so epoll_ctl and close fail: no effect.\<close>

definition drop_client :: "nat \<Rightarrow> server \<Rightarrow> server" where
  "drop_client fd s = close_fd fd (epoll_del fd (on_client_disconnected fd s))"

definition on_readable :: "lib \<Rightarrow> nat \<Rightarrow> server \<Rightarrow> server option" where
  "on_readable L fd s = do {
     let (msg, s) = uninit_msg s;
     (ret, msg, s) \<leftarrow> msg_recv_header msg s;
     if ret = -1
     then if errno s = EAGAIN then Some s else Some (drop_client fd s)
     else if ret = -2 then Some (drop_client fd s)
     else do {
       (ret, s) \<leftarrow> on_client_message_received L fd msg s;
       if ret = -1 then Some (drop_client fd s) else Some s
     }
   }"

text \<open>What accept returns: an error, or a new descriptor, and whether epoll_ctl ADD succeeds.\<close>

datatype accepted = AcceptErr int | Accepted nat socket bool

fun on_listening :: "accepted \<Rightarrow> server \<Rightarrow> server" where
  "on_listening (AcceptErr e) s = s\<lparr>errno := e\<rparr>"
| "on_listening (Accepted fd so added) s =
     (let s = set_blocking fd False (s\<lparr>open_fds := (open_fds s)(fd \<mapsto> so)\<rparr>)
      in if added then s\<lparr>epoll := insert fd (epoll s)\<rparr> else close_fd fd s)"

text \<open>
  An event of epoll_wait: the listening socket, a client socket with EPOLLIN, or one with an error
  or a hangup only. Receiving from a descriptor that is not open fails with EBADF, and closing it
  then does nothing.
\<close>

datatype event = Listening | Readable nat | Hangup nat

fun on_event :: "lib \<Rightarrow> accepted \<Rightarrow> event \<Rightarrow> server \<Rightarrow> server option" where
  "on_event L acc Listening s = Some (on_listening acc s)"
| "on_event L acc (Readable fd) s =
     (case open_fds s fd of None \<Rightarrow> Some (s\<lparr>errno := EBADF\<rparr>)
      | Some so \<Rightarrow> do { s \<leftarrow> on_readable L fd (focus so s); Some (unfocus fd s) })"
| "on_event L acc (Hangup fd) s = Some (on_client_disconnected fd (close_fd fd (epoll_del fd s)))"

section \<open>The loop\<close>

fun event_fds :: "event \<Rightarrow> nat list" where
  "event_fds Listening = []"
| "event_fds (Readable fd) = [fd]"
| "event_fds (Hangup fd) = [fd]"

text \<open>
  epoll_wait returns at most MAX_EVENTS events, one for each ready descriptor of its list. The
  kernel gives accept a descriptor that is not in use.
\<close>

definition reported :: "server \<Rightarrow> event list \<Rightarrow> bool" where
  "reported s evs \<longleftrightarrow> length evs \<le> MAX_EVENTS \<and> distinct (concat (map event_fds evs)) \<and>
     set (concat (map event_fds evs)) \<subseteq> epoll s"

fun fresh_fd :: "server \<Rightarrow> accepted \<Rightarrow> bool" where
  "fresh_fd s (AcceptErr e) \<longleftrightarrow> True"
| "fresh_fd s (Accepted fd so added) \<longleftrightarrow> open_fds s fd = None"

inductive loop_step :: "lib \<Rightarrow> server \<times> event list \<Rightarrow> server \<times> event list \<Rightarrow> bool" for L where
  wait: "reported s evs \<Longrightarrow> loop_step L (s, []) (s, evs)"
| next_event: "fresh_fd s acc \<Longrightarrow> on_event L acc ev s = Some s' \<Longrightarrow> loop_step L (s, ev # evs) (s', evs)"

abbreviation loop_reaches :: "lib \<Rightarrow> server \<times> event list \<Rightarrow> server \<times> event list \<Rightarrow> bool" where
  "loop_reaches L \<equiv> (loop_step L)\<^sup>*\<^sup>*"

inductive_cases waitE: "loop_step L (s, []) st"
inductive_cases next_eventE: "loop_step L (s, ev # evs) st"


section \<open>The descriptors\<close>

lemma drop_client_close: "drop_client fd s = close_fd fd s"
  by (auto simp: drop_client_def on_client_disconnected_def epoll_del_def close_fd_def)

lemma drop_client_step: "fd_step fd s t \<Longrightarrow> fd_step fd s (drop_client fd t)"
  unfolding drop_client_close fd_step_def
  by (elim disjE conjE; intro disjI2; simp add: close_fd_def)

lemma fd_step_same: "srv_same a b \<Longrightarrow> fd_step fd b c \<Longrightarrow> fd_step fd a c"
  by (simp add: srv_rel_def fd_step_def)

lemma on_readable_fds: "on_readable L fd s = Some s' \<Longrightarrow> fd_step fd s s'"
proof -
  assume run: "on_readable L fd s = Some s'"
  obtain m0 s0 where u: "uninit_msg s = (m0, s0)" by fastforce
  have wf: "wf_hdr (hdr m0)" using wf_uninit_msg [of s] u by simp
  have "msg_recv_header m0 s0 \<noteq> None"
  proof
    assume "msg_recv_header m0 s0 = None"
    then have "on_readable L fd s = None" by (simp add: on_readable_def u)
    with run show False by simp
  qed
  then obtain ret m s1 where h: "msg_recv_header m0 s0 = Some (ret, m, s1)" by (auto simp: not_None_eq)
  have a: "srv_same s s0" by (rule io_srv) (rule uninit_msg_same [OF u])
  have b: "srv_same s0 s1" by (rule io_srv) (rule msg_recv_header_same [OF wf h])
  have s1: "srv_same s s1" by (rule srv_same_trans [OF a b])
  have refl: "fd_step fd s1 s1" by (simp add: fd_step_def)
  have body: "on_readable L fd s =
      (if ret = -1 then if errno s1 = EAGAIN then Some s1 else Some (drop_client fd s1)
       else if ret = -2 then Some (drop_client fd s1)
       else do { (ret, s) \<leftarrow> on_client_message_received L fd m s1;
                 if ret = -1 then Some (drop_client fd s) else Some s })"
    by (simp add: on_readable_def u h)
  show ?thesis
  proof (cases "ret = -1 \<or> ret = -2")
    case True
    with run have "s' = s1 \<or> s' = drop_client fd s1"
      unfolding body by (simp split: if_splits)
    then have "fd_step fd s1 s'" using refl drop_client_step [OF refl] by blast
    then show ?thesis by (rule fd_step_same [OF s1])
  next
    case False
    with run obtain r s2 where d: "on_client_message_received L fd m s1 = Some (r, s2)"
      and s': "s' = s2 \<or> s' = drop_client fd s2"
      unfolding body by (auto simp: bind_eq_Some_conv split: if_splits)
    have "fd_step fd s1 s'" using dispatch_fds [OF d] drop_client_step [OF dispatch_fds [OF d]] s' by blast
    then show ?thesis by (rule fd_step_same [OF s1])
  qed
qed

text \<open>
  The invariant: what epoll watches is open and non-blocking, and each event still to be handled
  is about a watched descriptor of its own.
\<close>

definition loop_inv :: "server \<times> event list \<Rightarrow> bool" where
  "loop_inv st \<longleftrightarrow> (case st of (s, evs) \<Rightarrow>
     epoll s \<subseteq> {fd. open_fds s fd \<noteq> None} \<and> epoll s \<subseteq> nonblock s \<and>
     distinct (concat (map event_fds evs)) \<and> set (concat (map event_fds evs)) \<subseteq> epoll s)"

lemma loop_inv_event:
  "event_fds ev = [fd] \<Longrightarrow> loop_inv (s, ev # evs) \<longleftrightarrow>
     loop_inv (s, evs) \<and> fd \<in> epoll s \<and> fd \<notin> set (concat (map event_fds evs))"
  unfolding loop_inv_def prod.case list.map concat.simps append.simps by (simp del: set_concat) blast

lemma loop_inv_unfocus: "loop_inv (unfocus fd s, evs) \<longleftrightarrow> loop_inv (s, evs)"
  by (auto simp: loop_inv_def unfocus_def)

lemma fd_step_inv:
  assumes "loop_inv (s, ev # evs)" "event_fds ev = [fd]" "fd_step fd s t"
  shows "loop_inv (unfocus fd t, evs)" "loop_inv (t, evs)"
proof -
  define pending where "pending = concat (map event_fds evs)"
  from assms(1) have "loop_inv (s, evs)" "fd \<notin> set pending"
    unfolding loop_inv_event [OF assms(2)] pending_def by simp_all
  with assms(3) show t: "loop_inv (t, evs)"
    unfolding loop_inv_def fd_step_def prod.case pending_def [symmetric] by auto
  then show "loop_inv (unfocus fd t, evs)" by (simp only: loop_inv_unfocus)
qed

lemma on_event_inv:
  assumes inv: "loop_inv (s, ev # evs)" and acc: "fresh_fd s acc" and run: "on_event L acc ev s = Some s'"
  shows "loop_inv (s', evs)"
proof (cases ev)
  case Listening
  with run have s': "s' = on_listening acc s" by simp
  show ?thesis
  proof (cases acc)
    case (AcceptErr e)
    with inv s' Listening show ?thesis by (simp add: loop_inv_def)
  next
    case (Accepted fd so added)
    have "fd \<notin> epoll s" using inv acc Accepted by (auto simp: loop_inv_def)
    with inv s' Listening Accepted show ?thesis
      by (cases added) (auto simp: loop_inv_def set_blocking_def close_fd_def Let_def)
  qed
next
  case (Readable fd)
  from inv Readable have "open_fds s fd \<noteq> None" by (auto simp: loop_inv_def)
  then obtain so where so: "open_fds s fd = Some so" by blast
  with run Readable obtain s1 where r: "on_readable L fd (focus so s) = Some s1" and s': "s' = unfocus fd s1"
    by (auto simp: bind_eq_Some_conv)
  have "fd_step fd s s1" using on_readable_fds [OF r] by (simp add: fd_step_def focus_def)
  with fd_step_inv(1) [OF inv] Readable s' show ?thesis by simp
next
  case (Hangup fd)
  have "fd_step fd s s'" using run Hangup
    by (auto simp: fd_step_def on_client_disconnected_def close_fd_def epoll_del_def)
  with fd_step_inv(2) [OF inv] Hangup show ?thesis by simp
qed

lemma loop_step_inv: "loop_step L st st' \<Longrightarrow> loop_inv st \<Longrightarrow> loop_inv st'"
proof (induction rule: loop_step.induct)
  case (wait s evs)
  then show ?case by (auto simp: loop_inv_def reported_def)
next
  case (next_event s acc ev s' evs)
  then show ?case by (blast intro: on_event_inv)
qed

lemma loop_reaches_inv: "loop_reaches L st st' \<Longrightarrow> loop_inv st \<Longrightarrow> loop_inv st'"
  by (induction rule: rtranclp_induct) (blast intro: loop_step_inv)+

text \<open>How an event can use the sockets: only its own descriptor changes.\<close>

lemma on_event_other:
  assumes "on_event L acc ev s = Some s'" "fresh_fd s acc" "fd \<notin> set (event_fds ev)" "open_fds s fd = Some so"
  shows "open_fds s' fd = Some so"
proof (cases ev)
  case Listening
  with assms show ?thesis by (cases acc) (auto simp: set_blocking_def close_fd_def Let_def)
next
  case (Readable fd')
  with assms(3) have ne: "fd \<noteq> fd'" by simp
  show ?thesis
  proof (cases "open_fds s fd'")
    case None
    with assms(1) Readable have "s' = s\<lparr>errno := EBADF\<rparr>" by simp
    with assms(4) show ?thesis by simp
  next
    case (Some so')
    with assms(1) Readable obtain s1 where r: "on_readable L fd' (focus so' s) = Some s1" and s': "s' = unfocus fd' s1"
      by (auto simp: bind_eq_Some_conv)
    have "open_fds (focus so' s) fd = Some so" using assms(4) by (simp add: focus_def)
    with on_readable_fds [OF r] ne have "open_fds s1 fd = Some so"
      unfolding fd_step_def by (elim disjE conjE) simp_all
    with s' ne show ?thesis by (simp add: unfocus_def)
  qed
next
  case (Hangup fd')
  with assms show ?thesis by (auto simp: on_client_disconnected_def close_fd_def epoll_del_def)
qed

section \<open>Properties\<close>

text \<open>
  C14. The event loop never waits on or handles a dead descriptor: from a state where it holds, and
  so from the start, every descriptor in the interest list of epoll is an open, non-blocking
  client socket, and the events of a batch still to be handled are about different descriptors,
  all of them in the list, though the handlers close sockets and accept can reuse a descriptor.
\<close>

theorem event_loop_invariant:
  assumes "loop_reaches L (s0, []) (s, evs)" "epoll s0 = {}"
  shows "epoll s \<subseteq> {fd. open_fds s fd \<noteq> None} \<and> epoll s \<subseteq> nonblock s \<and>
    distinct (concat (map event_fds evs)) \<and> set (concat (map event_fds evs)) \<subseteq> epoll s"
proof -
  have "loop_inv (s0, [])" using assms(2) by (simp add: loop_inv_def)
  with assms(1) have "loop_inv (s, evs)" by (rule loop_reaches_inv)
  then show ?thesis by (simp add: loop_inv_def)
qed

theorem event_loop_invariant_witness:
  "\<exists>s. loop_reaches sample_lib (sample_server [] [] (uman_start (\<lambda>_ _. 0)) no_objects, []) (s, []) \<and>
     epoll s = {7} \<and> epoll s \<subseteq> {fd. open_fds s fd \<noteq> None} \<and> epoll s \<subseteq> nonblock s"
proof -
  let ?start = "sample_server [] [] (uman_start (\<lambda>_ _. 0)) no_objects"
  let ?acc = "Accepted 7 \<lparr>so_rx = [], so_tx_plan = [], so_tx = []\<rparr> True"
  let ?next = "on_listening ?acc ?start"
  have "loop_step sample_lib (?start, []) (?start, [Listening])"
    by (rule wait) (simp add: reported_def MAX_EVENTS_def)
  moreover have "loop_step sample_lib (?start, [Listening]) (?next, [])"
    by (rule next_event [where acc = ?acc, OF _ on_event.simps(1)]) (simp add: sample_server_def)
  ultimately have r: "loop_reaches sample_lib (?start, []) (?next, [])" by simp
  moreover have "epoll ?start = {}" "epoll ?next = {7}" by (simp_all add: sample_server_def set_blocking_def Let_def)
  ultimately show ?thesis using event_loop_invariant [OF r] by blast
qed

end
