(* ===== verification/EndToEnd.thy ===== *)
theory EndToEnd
  imports ClientToken ServerLoop
begin

text \<open>
  Client and server together: what a command of the client sends is, byte for byte, what the event
  loop of the server receives, and the other way round. Each side is run on what the other one
  sends, when the connection and the system calls do their work.
\<close>

section \<open>The client's side\<close>

text \<open>The client has the token t in its file.\<close>

definition has_token :: "lib \<Rightarrow> env \<Rightarrow> uuid \<Rightarrow> 'a io_scheme \<Rightarrow> bool" where
  "has_token L E t c \<longleftrightarrow> length t = 16 \<and> uuid_parse L (uuid_unparse L t) = Some t \<and>
     (\<exists>d p. state_dir E = Some d \<and> length d < 4078 \<and> path_to (d @ token_file) p c \<and>
       lookup (fs c) p = Some (NFile (token_text L t)))"

lemma has_token_load:
  assumes "lib_ok L" "quiet c" "has_token L E t c"
  shows "\<exists>c'. load_token L E t0 c = Some (0, t, c') \<and> io_becomes c (fs c) c'"
proof -
  from assms(3) obtain d p where d: "state_dir E = Some d" "length d < 4078" "path_to (d @ token_file) p c"
    "lookup (fs c) p = Some (NFile (token_text L t))" "uuid_parse L (uuid_unparse L t) = Some t"
    by (auto simp: has_token_def)
  have "calm c" "uuid_text (uuid_unparse L)" using assms(1,2) by (simp_all add: calm_def quiet_def lib_ok_def)
  from load_token_old [OF d(1,2) this(1) d(3,4) this(2) d(5)] show ?thesis .
qed

lemma io_becomes_quiet: "io_becomes c r c' \<Longrightarrow> quiet c \<Longrightarrow> quiet c'"
  by (auto simp: io_becomes_def quiet_def)

lemma client_more: "io.more c' = io.more c \<Longrightarrow> out c' = out (c :: 'a client_scheme)"
  by (cases c; cases c'; simp)

lemma io_becomes_out: "io_becomes c r c' \<Longrightarrow> out c' = out (c :: 'a client_scheme)"
  by (auto simp: io_becomes_def)

lemma step_out:
  "tx_step c c' \<Longrightarrow> out c' = out (c :: 'a client_scheme)" "rx_step c c' \<Longrightarrow> out c' = out c"
  by (auto simp: tx_step_def rx_step_def intro!: client_more) (cases c; cases c'; simp)+

text \<open>The bytes sent between two states are one request with this type, token and payload.\<close>

definition requested :: "MessageType \<Rightarrow> uuid \<Rightarrow> byte list \<Rightarrow> byte list \<Rightarrow> bool" where
  "requested ty t bytes w \<longleftrightarrow> (\<exists>h. wf_hdr h \<and> hdr_type h = type_code ty \<and> hdr_token h = t \<and>
     hdr_length h = of_nat (length bytes) \<and> w = enc_hdr h @ bytes)"

lemma set_token_init: "set_token t (msg_init m ty pl n) = msg_init (set_token t m) ty pl n"
  by (cases m; cases "hdr m") (simp add: set_token_def msg_init_def)

lemma send_request:
  assumes "wf_hdr (hdr m)" "length t = 16" "quiet c" "bytes = [] \<and> pl = None \<or> bytes \<noteq> [] \<and> pl = Some bytes"
    "length bytes < 2 ^ 64"
  shows "\<exists>m' c' w. msg_send (msg_init (set_token t m) ty pl (of_nat (length bytes))) None 0 c = Some (0, m', c') \<and>
    tx c' = tx c @ w \<and> requested ty t bytes w \<and> tx_step c c' \<and> quiet c' \<and> wf_hdr (hdr m') \<and> payload m' = pl"
proof -
  let ?m = "msg_init (set_token t m) ty pl (of_nat (length bytes))"
  have n: "unat (of_nat (length bytes) :: usize) = length bytes" using assms(5) by (simp add: unat_of_nat)
  have wf: "wf_hdr (hdr ?m)" using assms(1,2) by (simp add: set_token_def msg_init_def wf_hdr_def)
  have sd: "sendable None 0" "sendable (payload ?m) (payload_len ?m)"
    using assms(4) n by (auto simp: sendable_def msg_init_def)
  have tq: "tx_quiet (tx_plan c)" using assms(3) by (simp add: quiet_def)
  let ?h = "sent_hdr ?m None 0 (clock c 0)"
  from msg_send_quiet [OF wf tq sd] obtain c' where
    c': "msg_send ?m None 0 c = Some (0, ?m\<lparr>hdr := ?h\<rparr>, c')" "tx c' = tx c @ wire_image ?m None 0 (clock c 0)"
      "tx_step c c'" "tx_quiet (tx_plan c')" by blast
  have w: "wire_image ?m None 0 (clock c 0) = enc_hdr ?h @ bytes"
    using assms(4) n by (auto simp: wire_image_def opt_bytes_def msg_init_def)
  have h: "wf_hdr ?h" "hdr_type ?h = type_code ty" "hdr_token ?h = t" "hdr_length ?h = of_nat (length bytes)"
    using wf by (simp_all add: sent_hdr_def msg_init_def set_token_def wf_hdr_def)
  have "requested ty t bytes (enc_hdr ?h @ bytes)" unfolding requested_def using h by blast
  moreover have "quiet c'" by (rule quiet_tx_step [OF assms(3) c'(3,4)])
  moreover have "payload (?m\<lparr>hdr := ?h\<rparr>) = pl" by (simp add: msg_init_def)
  ultimately show ?thesis using c' h(1) unfolding w by auto
qed

text \<open>A message of a type with its payload, as bytes, and how the client takes it off the stream.\<close>

definition message :: "MessageType \<Rightarrow> byte list \<Rightarrow> byte list \<Rightarrow> bool" where
  "message ty bytes w \<longleftrightarrow> (\<exists>h. wf_hdr h \<and> hdr_type h = type_code ty \<and> hdr_length h = of_nat (length bytes) \<and>
     w = enc_hdr h @ bytes)"

lemma replied_message: "replied ty bytes c c' \<longleftrightarrow> (\<exists>w. message ty bytes w \<and> tx c' = tx c @ w)"
  by (auto simp: replied_def message_def)

lemma recv_message_header:
  assumes "wf_hdr (hdr m)" "quiet c" "message ty bytes w" "incoming c = w @ rest"
  shows "\<exists>h c' ts. msg_recv_header m c = Some (0, m\<lparr>hdr := h, rcvd_at := ts\<rparr>, c') \<and> wf_hdr h \<and>
    hdr_type h = type_code ty \<and> hdr_length h = of_nat (length bytes) \<and>
    incoming c' = bytes @ rest \<and> rx_step c c' \<and> quiet c'"
proof -
  from assms(3) obtain h where h: "wf_hdr h" "hdr_type h = type_code ty" "hdr_length h = of_nat (length bytes)"
    "w = enc_hdr h @ bytes" by (auto simp: message_def)
  have rq: "rx_quiet (rx c)" using assms(2) by (simp add: quiet_def)
  have inc: "incoming c = enc_hdr h @ (bytes @ rest)" using assms(4) h(4) by simp
  note front = hdr_front [OF h(1) inc]
  from msg_recv_header_quiet [OF assms(1) rq front(3), unfolded front(1,2)] obtain c' ts where
    c': "msg_recv_header m c = Some (0, m\<lparr>hdr := h, rcvd_at := ts\<rparr>, c')" "incoming c' = bytes @ rest"
      "rx_step c c'" "rx_quiet (rx c')" by blast
  with h quiet_rx_step [OF assms(2) c'(3,4)] show ?thesis by blast
qed

lemma recv_message_payload:
  assumes "quiet c" "hdr_length (hdr m) = of_nat (length bytes)" "length bytes \<le> 8192" "of_nat (length bytes) \<le> maxlen"
    "incoming c = bytes @ rest"
  shows "\<exists>c'. msg_recv_payload maxlen m c =
      Some (0, if bytes = [] then m else m\<lparr>payload := Some bytes\<rparr>, c') \<and> incoming c' = rest \<and> rx_step c c' \<and> quiet c'"
proof -
  have n: "unat (hdr_length (hdr m)) = length bytes" using assms(2,3) by (simp add: unat_of_nat)
  show ?thesis
  proof (cases "bytes = []")
    case True
    with assms show ?thesis by (auto simp: msg_recv_payload_def rx_step_refl)
  next
    case False
    then have pos: "0 < hdr_length (hdr m)" using n by (metis length_greater_0_conv unat_gt_0 word_neq_0_conv)
    have rq: "rx_quiet (rx c)" "hdr_length (hdr m) \<le> maxlen" "unat (hdr_length (hdr m)) \<le> length (incoming c)"
      using assms n by (simp_all add: quiet_def)
    from msg_recv_payload_quiet [OF rq(1,2) pos rq(3)] obtain c' where
      c': "msg_recv_payload maxlen m c = Some (0, m\<lparr>payload := Some bytes\<rparr>, c')" "incoming c' = rest"
        "rx_step c c'" "rx_quiet (rx c')" using n assms(5) by auto
    with False quiet_rx_step [OF assms(1) c'(3,4)] show ?thesis by auto
  qed
qed

lemma recv_payload_some:
  assumes "quiet c" "bytes \<noteq> []" "hdr_length (hdr m) = of_nat (length bytes)" "length bytes \<le> 8192"
    "of_nat (length bytes) \<le> maxlen" "incoming c = bytes @ rest"
  shows "\<exists>c'. msg_recv_payload maxlen m c = Some (0, m\<lparr>payload := Some bytes\<rparr>, c') \<and> incoming c' = rest \<and>
    rx_step c c' \<and> quiet c'"
  using recv_message_payload [OF assms(1,3-6)] assms(2) by simp

section \<open>The server's side\<close>

text \<open>The event loop takes the header off the stream and calls the dispatcher.\<close>

lemma on_readable_header:
  assumes "rx_quiet (rx s)" "wf_hdr h" "incoming s = enc_hdr h @ rest"
  shows "\<exists>msg s1. hdr msg = h \<and> payload msg = None \<and> rx_step s s1 \<and> rx_quiet (rx s1) \<and> incoming s1 = rest \<and>
    on_readable L fd s = do {
      (ret, s) \<leftarrow> on_client_message_received L fd msg s1;
      if ret = -1 then Some (drop_client fd s) else Some s
    }"
proof -
  obtain m0 s0 where u: "uninit_msg s = (m0, s0)" by fastforce
  have m0: "wf_hdr (hdr m0)" "payload m0 = None" using wf_uninit_msg [of s] u by (auto simp: uninit_msg_def split_beta)
  have r0: "rx s0 = rx s" "rx_step s s0" using uninit_msg_frame [of s] u by simp_all
  have rq: "rx_quiet (rx s0)" "incoming s0 = enc_hdr h @ rest" using assms(1,3) r0(1) by simp_all
  note front = hdr_front [OF assms(2) rq(2)]
  from msg_recv_header_quiet [OF m0(1) rq(1) front(3), unfolded front(1,2)] obtain s1 ts where
    s1: "msg_recv_header m0 s0 = Some (0, m0\<lparr>hdr := h, rcvd_at := ts\<rparr>, s1)" "incoming s1 = rest"
      "rx_step s0 s1" "rx_quiet (rx s1)" by blast
  have "on_readable L fd s = do {
      (ret, s) \<leftarrow> on_client_message_received L fd (m0\<lparr>hdr := h, rcvd_at := ts\<rparr>) s1;
      if ret = -1 then Some (drop_client fd s) else Some s }"
    by (simp add: on_readable_def u s1(1))
  with rx_step_trans [OF r0(2) s1(3)] s1(2,4) m0(2) show ?thesis
    by (intro exI [of _ "m0\<lparr>hdr := h, rcvd_at := ts\<rparr>"] exI [of _ s1]) simp
qed

lemma on_readable_request:
  assumes "quiet s" "requested ty t bytes w" "incoming s = w @ rest"
  shows "\<exists>msg s1. hdr_type (hdr msg) = type_code ty \<and> hdr_token (hdr msg) = t \<and>
    hdr_length (hdr msg) = of_nat (length bytes) \<and> wf_hdr (hdr msg) \<and> payload msg = None \<and>
    quiet s1 \<and> incoming s1 = bytes @ rest \<and> srv_same s s1 \<and> state_same s s1 \<and> tx s1 = tx s \<and>
    on_readable L fd s = do {
      (ret, s) \<leftarrow> on_client_message_received L fd msg s1;
      if ret = -1 then Some (drop_client fd s) else Some s
    }"
proof -
  from assms(2) obtain h where h: "wf_hdr h" "hdr_type h = type_code ty" "hdr_token h = t"
    "hdr_length h = of_nat (length bytes)" "w = enc_hdr h @ bytes" by (auto simp: requested_def)
  have inc: "rx_quiet (rx s)" "incoming s = enc_hdr h @ (bytes @ rest)" using assms(1,3) h(5) by (simp_all add: quiet_def)
  from on_readable_header [OF inc(1) h(1) inc(2), of L fd] obtain msg s1 where
    m: "hdr msg = h" "payload msg = None" and s1: "rx_step s s1" "rx_quiet (rx s1)" "incoming s1 = bytes @ rest" and
    run: "on_readable L fd s = do { (ret, s) \<leftarrow> on_client_message_received L fd msg s1;
      if ret = -1 then Some (drop_client fd s) else Some s }" by blast
  note same = rx_step_same [OF s1(1)]
  have "quiet s1" by (rule quiet_rx_step [OF assms(1) s1(1,2)])
  moreover have "srv_same s s1" "state_same s s1" by (rule io_srv [OF same], rule io_state [OF same])
  moreover have "tx s1 = tx s" using s1(1) by (simp add: rx_step_def)
  ultimately show ?thesis using h m s1(3) run by (intro exI [of _ msg] exI [of _ s1]) simp
qed

text \<open>The user of a token the server knows.\<close>

definition knows :: "lib \<Rightarrow> uuid \<Rightarrow> addr \<Rightarrow> server \<Rightarrow> bool" where
  "knows L t user s \<longleftrightarrow> user \<noteq> NULL \<and> \<not> uuid_is_null L t \<and> uman_get_user (uuid_compare L) t (man s) = Some user"

lemma dispatch_oneshot:
  assumes "hdr_type (hdr msg) = type_code ty" "ty \<in> {MSGTYPE_AUTH_REQ, MSGTYPE_REMOVE_REQ, MSGTYPE_MKDIR_REQ}"
    "ty = MSGTYPE_AUTH_REQ \<or> \<not> uuid_is_null L (hdr_token (hdr msg))"
    "uman_get_user (uuid_compare L) (hdr_token (hdr msg)) (man s) = Some user"
  shows "on_client_message_received L fd msg s = do { s \<leftarrow> on_oneshot_req L ty user msg s; Some (0, s) }"
proof -
  obtain str where "msg_type_to_str (type_code ty) = Some str" using type_names by blast
  with assms show ?thesis by (auto simp: on_client_message_received_eq)
qed

lemma dispatch_stream:
  assumes "hdr_type (hdr msg) = type_code ty" "ty \<in> {MSGTYPE_UPLOAD_REQ, MSGTYPE_DOWNLOAD_REQ, MSGTYPE_LIST_REQ}"
    "\<not> uuid_is_null L (hdr_token (hdr msg))" "uman_get_user (uuid_compare L) (hdr_token (hdr msg)) (man s) = Some user"
  shows "on_client_message_received L fd msg s =
    do { s \<leftarrow> on_stream_req L ty fd user msg (set_blocking fd True (epoll_del fd s)); Some (0, s) }"
proof -
  obtain str where "msg_type_to_str (type_code ty) = Some str" using type_names by blast
  with assms show ?thesis by (auto simp: on_client_message_received_eq)
qed

lemma disconnected_frame [simp]:
  "tx (on_client_disconnected fd s) = tx s" "fs (on_client_disconnected fd s) = fs s" "man (on_client_disconnected fd s) = man s"
  "open_fds (on_client_disconnected fd s) fd = None" "quiet (on_client_disconnected fd s) = quiet s"
  by (simp_all add: on_client_disconnected_def close_fd_def quiet_def)

text \<open>
  The request of a known user, as the handler finds it: the header is read, the payload is next,
  and what the handler ends with is what the event loop goes on with.
\<close>

definition taken :: "MessageType \<Rightarrow> uuid \<Rightarrow> byte list \<Rightarrow> byte list \<Rightarrow> server \<Rightarrow> Message \<Rightarrow> server \<Rightarrow> bool" where
  "taken ty t bytes rest s msg s1 \<longleftrightarrow> hdr_type (hdr msg) = type_code ty \<and> hdr_token (hdr msg) = t \<and>
     hdr_length (hdr msg) = of_nat (length bytes) \<and> wf_hdr (hdr msg) \<and> quiet s1 \<and> incoming s1 = bytes @ rest \<and>
     fs s1 = fs s \<and> tx s1 = tx s \<and> man s1 = man s"

lemma on_readable_oneshot:
  assumes "quiet s" "knows L t user s" "requested ty t bytes w" "incoming s = w @ rest"
    "ty \<in> {MSGTYPE_AUTH_REQ, MSGTYPE_REMOVE_REQ, MSGTYPE_MKDIR_REQ}"
  shows "\<exists>msg s1. taken ty t bytes rest s msg s1 \<and> user \<noteq> NULL \<and>
    (\<forall>s2. on_oneshot_req L ty user msg s1 = Some s2 \<longrightarrow> on_readable L fd s = Some s2)"
proof -
  from on_readable_request [OF assms(1,3,4)] obtain msg s1 where
    m: "hdr_type (hdr msg) = type_code ty" "hdr_token (hdr msg) = t" "hdr_length (hdr msg) = of_nat (length bytes)" "wf_hdr (hdr msg)" and
    s1: "quiet s1" "incoming s1 = bytes @ rest" "srv_same s s1" "state_same s s1" "tx s1 = tx s" and
    run: "on_readable L fd s = do { (ret, s) \<leftarrow> on_client_message_received L fd msg s1;
      if ret = -1 then Some (drop_client fd s) else Some s }" by blast
  have k: "user \<noteq> NULL" "\<not> uuid_is_null L t" "uman_get_user (uuid_compare L) t (man s1) = Some user"
    using assms(2) s1(4) by (simp_all add: knows_def state_same_def)
  have "taken ty t bytes rest s msg s1" using m s1 by (simp add: taken_def srv_rel_def state_same_def)
  moreover have "on_readable L fd s = Some s2" if "on_oneshot_req L ty user msg s1 = Some s2" for s2
    using dispatch_oneshot [OF m(1) assms(5), of L s1 user fd] k m(2) that by (simp add: run)
  ultimately show ?thesis using k(1) by blast
qed

lemma on_readable_stream:
  assumes "quiet s" "knows L t user s" "requested ty t bytes w" "incoming s = w @ rest"
    "ty \<in> {MSGTYPE_UPLOAD_REQ, MSGTYPE_DOWNLOAD_REQ, MSGTYPE_LIST_REQ}"
  shows "\<exists>msg s1. taken ty t bytes rest s msg s1 \<and> user \<noteq> NULL \<and>
    (\<forall>s2. on_stream_req L ty fd user msg s1 = Some s2 \<longrightarrow> on_readable L fd s = Some s2)"
proof -
  from on_readable_request [OF assms(1,3,4)] obtain msg s1 where
    m: "hdr_type (hdr msg) = type_code ty" "hdr_token (hdr msg) = t" "hdr_length (hdr msg) = of_nat (length bytes)" "wf_hdr (hdr msg)" and
    s1: "quiet s1" "incoming s1 = bytes @ rest" "srv_same s s1" "state_same s s1" "tx s1 = tx s" and
    run: "on_readable L fd s = do { (ret, s) \<leftarrow> on_client_message_received L fd msg s1;
      if ret = -1 then Some (drop_client fd s) else Some s }" by blast
  have k: "user \<noteq> NULL" "\<not> uuid_is_null L t" "uman_get_user (uuid_compare L) t (man s1) = Some user"
    using assms(2) s1(4) by (simp_all add: knows_def state_same_def)
  let ?s1 = "set_blocking fd True (epoll_del fd s1)"
  have "taken ty t bytes rest s msg ?s1"
    using m s1 by (simp add: taken_def set_blocking_def epoll_del_def quiet_def srv_rel_def state_same_def)
  moreover have "on_readable L fd s = Some s2" if "on_stream_req L ty fd user msg ?s1 = Some s2" for s2
    using dispatch_stream [OF m(1) assms(5), of L s1 user fd] k m(2) that by (simp add: run)
  ultimately show ?thesis using k(1) by blast
qed

lemma length_cbytes_word: "(of_nat (length (cbytes s)) :: usize) = of_nat (length s) + 1"
  by simp

lemma replied_from: "replied ty bytes a b \<Longrightarrow> tx a = tx c \<Longrightarrow> replied ty bytes c b"
  by (simp add: replied_def)

lemma fs_becomes_conn: "fs_becomes c r c' \<Longrightarrow> tx c' = tx c \<and> tx_plan c' = tx_plan c \<and> rx c' = rx c"
  by (auto simp: fs_becomes_def)

lemma handle_mkdir_quiet:
  assumes L: "lib_ok L" and q: "quiet s" and user: "user \<noteq> NULL" and msg: "wf_hdr (hdr msg)"
    "hdr_length (hdr msg) = of_nat (length (cbytes path))" "incoming s = cbytes path @ rest"
    and path: "length path < 4045" "NUL \<notin> set path"
    and t: "user_target (uuid_unparse L) path (hdr_token (hdr msg)) = storage_segs @ uuid_unparse L (hdr_token (hdr msg)) # below"
    and below: "\<forall>x \<in> set below. plain_name x" "clear_way (fs s) (storage_segs @ [uuid_unparse L (hdr_token (hdr msg))]) below"
  shows "\<exists>s'. handle_mkdir L user msg s = Some s' \<and> replied MSGTYPE_MKDIR_RES [] s s' \<and>
    way_made (fs s) (storage_segs @ [uuid_unparse L (hdr_token (hdr msg))]) below (fs s')"
proof -
  have u: "uuid_text (uuid_unparse L)" using L by (simp add: lib_ok_def)
  have len: "length (cbytes path) \<le> 8192" "of_nat (length (cbytes path)) \<le> (8192 :: usize)"
    using path(1) by (simp_all add: word_le_nat_alt unat_of_nat del: of_nat_add of_nat_Suc)
  have ne: "cbytes path \<noteq> []" by (simp add: cbytes_def)
  from recv_message_payload [OF q msg(2) len msg(3)] ne obtain s1 where
    p: "msg_recv_payload 8192 msg s = Some (0, msg\<lparr>payload := Some (cbytes path)\<rparr>, s1)" "rx_step s s1" "quiet s1" by auto
  have f1: "fs s1 = fs s" by (rule rx_step_fs [OF p(2)])
  have name: "payload_string (msg\<lparr>payload := Some (cbytes path)\<rparr>) = Some path"
    using cstr_cbytes [OF path(2), of "[]"] by (simp add: payload_string_def)
  have calm: "calm s1" using p(3) by (simp add: calm_def quiet_def)
  from create_directories_works [OF u path t below(1) calm, of next_dir_statics] below(2) f1 obtain s2 where
    c: "create_directories_from_path next_dir_statics True (get_user_root (uuid_unparse L) (hdr_token (hdr msg))) path s1 = Some (0, s2)"
      "way_made (fs s) (storage_segs @ [uuid_unparse L (hdr_token (hdr msg))]) below (fs s2)" "fs_becomes s1 (fs s2) s2" by auto
  have s2: "tx s2 = tx s" "tx_quiet (tx_plan s2)"
    using fs_becomes_conn [OF c(3)] p(2,3) by (auto simp: rx_step_def quiet_def)
  have wf: "wf_hdr (hdr (msg\<lparr>payload := Some (cbytes path)\<rparr>))" using msg(1) by simp
  from msg_send_reply [OF wf s2(2), of "[]" None MSGTYPE_MKDIR_RES] obtain m' s3 where
    s3: "msg_send (msg_init (msg\<lparr>payload := Some (cbytes path)\<rparr>) MSGTYPE_MKDIR_RES None 0) None 0 s2 = Some (0, m', s3)"
      "replied MSGTYPE_MKDIR_RES [] s2 s3" "tx_step s2 s3" by auto
  have "handle_mkdir L user msg s = Some s3"
    using user p(1) name c(1) s3(1) by (simp add: handle_mkdir_def handle_recv_error_def)
  moreover have "fs s3 = fs s2" by (rule tx_step_fs [OF s3(3)])
  ultimately show ?thesis using c(2) replied_from [OF s3(2) s2(1)] by auto
qed

section \<open>mkdir\<close>

text \<open>The client's run, given the answer that it is done.\<close>

lemma cmd_mkdir_quiet:
  assumes "lib_ok L" "quiet c" "has_token L E t c" "message MSGTYPE_MKDIR_RES [] (incoming c)" "length path < 4045"
  shows "\<exists>w c'. cmd_mkdir L E prog [path] c = Some (0, c') \<and> out c' = out c @ [''directory created successfully''] \<and>
    tx c' = tx c @ w \<and> requested MSGTYPE_MKDIR_REQ t (cbytes path) w"
proof -
  from has_token_load [OF assms(1-3), of "hdr_token (hdr zero_msg)"] obtain c1 where
    c1: "load_token L E (hdr_token (hdr zero_msg)) c = Some (0, t, c1)" "io_becomes c (fs c) c1" by blast
  have t: "length t = 16" using assms(3) by (simp add: has_token_def)
  have len: "length (cbytes path) < 2 ^ 64" using assms(5) by simp
  have ne: "cbytes path \<noteq> []" by (simp add: cbytes_def)
  from send_request [OF wf_zero_msg t io_becomes_quiet [OF c1(2) assms(2)] _ len, of "Some (cbytes path)" MSGTYPE_MKDIR_REQ] ne
  obtain m' c2 w where
    c2: "msg_send (msg_init (set_token t zero_msg) MSGTYPE_MKDIR_REQ (Some (cbytes path)) (of_nat (length (cbytes path)))) None 0 c1 = Some (0, m', c2)"
      "tx c2 = tx c1 @ w" "requested MSGTYPE_MKDIR_REQ t (cbytes path) w" "tx_step c1 c2" "quiet c2" "wf_hdr (hdr m')" by blast
  have inc: "incoming c2 = incoming c @ []" using c2(4) io_becomesD [OF c1(2)] by (simp add: tx_step_def)
  from recv_message_header [OF c2(6,5) assms(4) inc] obtain h c3 ts where
    c3: "msg_recv_header m' c2 = Some (0, m'\<lparr>hdr := h, rcvd_at := ts\<rparr>, c3)" "hdr_type h = type_code MSGTYPE_MKDIR_RES"
      "hdr_length h = 0" "rx_step c2 c3" by auto
  have p: "msg_recv_payload 8192 (m'\<lparr>hdr := h, rcvd_at := ts\<rparr>) c3 = Some (0, m'\<lparr>hdr := h, rcvd_at := ts\<rparr>, c3)"
    using c3(3) by (simp add: msg_recv_payload_def)
  have ty: "type_code MSGTYPE_MKDIR_RES \<noteq> type_code MSGTYPE_ERROR" by (simp add: type_code_def MSGTYPES_def)
  have "cmd_mkdir L E prog [path] c = Some (0, say ''directory created successfully'' c3)"
    using c1(1) c2(1) c3(1,2) p ty by (simp add: cmd_mkdir_def handle_recv_error_def)
  moreover have "out c3 = out c" "tx c3 = tx c @ w"
    using step_out(1) [OF c2(4)] step_out(2) [OF c3(4)] io_becomes_out [OF c1(2)] c2(2) c3(4) io_becomesD [OF c1(2)]
    by (simp_all add: rx_step_def)
  ultimately show ?thesis using c2(3) by (intro exI [of _ w]) (simp add: say_def)
qed

lemma on_readable_mkdir:
  assumes "lib_ok L" "quiet s" "knows L t user s" "requested MSGTYPE_MKDIR_REQ t (cbytes path) w" "incoming s = w @ rest"
    "length path < 4045" "NUL \<notin> set path" "user_target (uuid_unparse L) path t = storage_segs @ uuid_unparse L t # below"
    "\<forall>x \<in> set below. plain_name x" "clear_way (fs s) (storage_segs @ [uuid_unparse L t]) below"
  shows "\<exists>s'. on_readable L fd s = Some s' \<and> replied MSGTYPE_MKDIR_RES [] s s' \<and>
    way_made (fs s) (storage_segs @ [uuid_unparse L t]) below (fs s')"
proof -
  have ty: "MSGTYPE_MKDIR_REQ \<in> {MSGTYPE_AUTH_REQ, MSGTYPE_REMOVE_REQ, MSGTYPE_MKDIR_REQ}" by simp
  from on_readable_oneshot [OF assms(2-5) ty, of fd] obtain msg s1 where
    m: "taken MSGTYPE_MKDIR_REQ t (cbytes path) rest s msg s1" "user \<noteq> NULL" and
    run: "\<And>s2. on_oneshot_req L MSGTYPE_MKDIR_REQ user msg s1 = Some s2 \<Longrightarrow> on_readable L fd s = Some s2" by blast
  note m' = m(1) [unfolded taken_def]
  from handle_mkdir_quiet [OF assms(1) _ m(2), of s1 msg path rest below] m' assms(6-10) obtain s2 where
    s2: "handle_mkdir L user msg s1 = Some s2" "replied MSGTYPE_MKDIR_RES [] s1 s2"
    "way_made (fs s) (storage_segs @ [uuid_unparse L t]) below (fs s2)" by auto
  with run [of s2] m' replied_from [OF s2(2), of s] show ?thesis by (auto simp: on_oneshot_req_def)
qed

section \<open>auth\<close>

lemma cmd_auth_quiet:
  assumes "lib_ok L" "quiet c" "state_dir E = Some d" "length d < 4078" "path_to (d @ token_file) p c" "place (fs c) p"
    "lookup (fs c) p = None" "errno c \<noteq> EEXIST" "length (uuid_generate L) = 16"
    "message ty bytes (incoming c)" "length bytes \<le> 1024" "cstr bytes = Some answer"
  shows "\<exists>w c' name. cmd_auth L E c = Some (0, c') \<and> tx c' = tx c @ w \<and> requested MSGTYPE_AUTH_REQ (uuid_generate L) [] w \<and>
    fs c' = put_node (fs c) p (Some (NFile (token_text L (uuid_generate L)))) \<and>
    msg_type_to_str (type_code ty) = Some name \<and> out c' = out c @ [name @ '': '' @ answer]"
proof -
  let ?r = "put_node (fs c) p (Some (NFile (token_text L (uuid_generate L))))"
  let ?m = "msg_init zero_msg MSGTYPE_AUTH_REQ None 0"
  have calm: "calm c" "uuid_text (uuid_unparse L)" using assms(1,2) by (simp_all add: calm_def quiet_def lib_ok_def)
  from load_token_new [OF assms(3,4) calm(1) assms(5-8) calm(2)] obtain c1 where
    c1: "load_token L E (hdr_token (hdr ?m)) c = Some (0, uuid_generate L, c1)" "io_becomes c ?r c1" by blast
  have wf: "wf_hdr (hdr ?m)" by simp
  from send_request [OF wf_zero_msg assms(9) io_becomes_quiet [OF c1(2) assms(2)], of "[]" None MSGTYPE_AUTH_REQ]
  obtain m' c2 w where
    "msg_send (msg_init (set_token (uuid_generate L) zero_msg) MSGTYPE_AUTH_REQ None 0) None 0 c1 = Some (0, m', c2)" and
    c2: "tx c2 = tx c1 @ w" "requested MSGTYPE_AUTH_REQ (uuid_generate L) [] w" "tx_step c1 c2" "quiet c2" "wf_hdr (hdr m')" by auto
  then have s: "msg_send (set_token (uuid_generate L) ?m) None 0 c1 = Some (0, m', c2)"
    by (simp add: set_token_init)
  have rq: "rx_quiet (rx c2)" using c2(4) by (simp add: quiet_def)
  from assms(10) obtain h where h: "wf_hdr h" "hdr_type h = type_code ty" "hdr_length h = of_nat (length bytes)"
    "incoming c = enc_hdr h @ bytes" by (auto simp: message_def)
  have len: "length bytes = unat (hdr_length h)" "hdr_length h \<le> 1024" "bytes \<noteq> []"
    using assms(11,12) h(3) by (auto simp: unat_of_nat word_le_nat_alt cstr_def)
  have inc: "incoming c2 = enc_hdr h @ bytes @ []" using c2(3) io_becomesD [OF c1(2)] h(4) by (simp add: tx_step_def)
  have wfc: "wf_hdr (hdr (msg_clear m'))" by (simp add: msg_clear_def)
  from msg_recv_quiet [OF wfc rq inc h(1) len(1,2)] len(3) obtain c3 ts where
    c3: "msg_recv 1024 (msg_clear m') c2 = Some (0, (msg_clear m')\<lparr>hdr := h, rcvd_at := ts, payload := Some bytes\<rparr>, c3)"
      "rx_step c2 c3" by auto
  obtain name where name: "msg_type_to_str (type_code ty) = Some name" using type_names by blast
  have "hdr_length h \<noteq> 0" using len(1,3) by auto
  then have "cmd_auth L E c = Some (0, say (name @ '': '' @ answer) c3)"
    using c1(1) s c3(1) h(2) name assms(12)
    by (simp add: cmd_auth_def handle_recv_error_def received_string_def received_def)
  moreover have "out c3 = out c" "tx c3 = tx c @ w" "fs c3 = ?r"
    using step_out(1) [OF c2(3)] step_out(2) [OF c3(2)] io_becomes_out [OF c1(2)] c2(1) c3(2) io_becomesD [OF c1(2)]
      rx_step_fs [OF c3(2)] tx_step_fs [OF c2(3)]
    by (simp_all add: rx_step_def)
  ultimately show ?thesis using c2(2) name by (intro exI [of _ w]) (simp add: say_def)
qed

lemma on_readable_auth:
  assumes "lib_ok L" "quiet s" "requested MSGTYPE_AUTH_REQ t [] w" "incoming s = w @ rest"
    "\<exists>es. lookup (fs s) storage_segs = Some (NDir es)" "lookup (fs s) (storage_segs @ [uuid_unparse L t]) = None"
    "uman_get_user (uuid_compare L) t (man s) = Some user"
    "uman_register_user (uuid_compare L) (uuid_generate L) t (man s) = Some m"
  shows "\<exists>s'. on_readable L fd s = Some s' \<and> replied MSGTYPE_AUTH_OK (cbytes ''Registered'' @ [0]) s s' \<and>
    fs s' = put_node (fs s) (storage_segs @ [uuid_unparse L t]) (Some (NDir [])) \<and> man s' = m"
proof -
  from on_readable_request [OF assms(2,3,4)] obtain msg s1 where
    m: "hdr_type (hdr msg) = type_code MSGTYPE_AUTH_REQ" "hdr_token (hdr msg) = t" and
    s1: "quiet s1" "srv_same s s1" "state_same s s1" "tx s1 = tx s" and
    run: "on_readable L fd s = do { (ret, s) \<leftarrow> on_client_message_received L fd msg s1;
      if ret = -1 then Some (drop_client fd s) else Some s }" by blast
  have f: "fs s1 = fs s" "man s1 = man s" using s1(2,3) by (simp_all add: srv_rel_def state_same_def)
  have pre: "\<exists>es. lookup (fs s1) storage_segs = Some (NDir es)"
    "uman_register_user (uuid_compare L) (uuid_generate L) (hdr_token (hdr msg)) (man s1) = Some m"
    using assms(5,8) m(2) f by simp_all
  from handle_auth_quiet [OF assms(1) s1(1) pre, unfolded m(2)] assms(6) f obtain s2 where
    s2: "handle_auth L msg s1 = Some s2" "man s2 = m" "replied MSGTYPE_AUTH_OK (cbytes ''Registered'' @ [0]) s1 s2"
      "fs s2 = put_node (fs s) (storage_segs @ [uuid_unparse L t]) (Some (NDir []))" by auto
  have "on_client_message_received L fd msg s1 = Some (0, s2)"
    using dispatch_oneshot [OF m(1), of L s1 user fd] m(2) s2(1) assms(7) f(2) by (simp add: on_oneshot_req_def)
  then have "on_readable L fd s = Some s2" by (simp add: run)
  with s2(2,4) replied_from [OF s2(3) s1(4)] show ?thesis by blast
qed

section \<open>A server with one user\<close>

text \<open>Registering a token with an empty manager makes it known.\<close>

lemma start_known:
  assumes "cmp tok tok = 0"
  shows "\<exists>m user. uman_register_user cmp g tok (uman_start arrays) = Some m \<and> uman_get_user cmp tok m = Some user \<and>
    user \<noteq> NULL \<and> users m user = Some (user_init g (arrays user) (Some tok))"
proof -
  obtain i where i: "umap_key_to_index (umap_init 256) tok = Some i" "slot (umap_init 256) i = Some NULL"
    using start_slot [of tok] by blast
  have "i < 256" using i(2) by (auto simp: slot_def umap_init_def split: if_splits)
  then show ?thesis using i assms
    by (auto simp: uman_register_user_def uman_get_user_def uman_start_def umap_put_def umap_get_def malloc_entry_def
        umap_key_to_index_def slot_def umap_init_def fresh_heap_def)
qed

section \<open>Properties\<close>

text \<open>
  C36. Authentication, client and server together. The first run of the client's auth command makes
  a token, writes it to the token file and sends AUTH_REQ; the event loop of a server that has no
  directory for the token makes it, registers the user and answers AUTH_OK "Registered"; and with
  that answer the command prints it and ends with status 0.
\<close>

theorem auth_end_to_end:
  fixes c :: "'a client_scheme"
  assumes "lib_ok L" "quiet c" "state_dir E = Some d" "length d < 4078" "path_to (d @ token_file) p c" "place (fs c) p"
    "lookup (fs c) p = None" "errno c \<noteq> EEXIST" "length (uuid_generate L) = 16"
    "message MSGTYPE_AUTH_OK (cbytes ''Registered'' @ [0]) (incoming c)"
  shows "\<exists>w c'. cmd_auth L E c = Some (0, c') \<and> out c' = out c @ [''MSGTYPE_AUTH_OK: Registered''] \<and> tx c' = tx c @ w \<and>
    fs c' = put_node (fs c) p (Some (NFile (token_text L (uuid_generate L)))) \<and>
    (\<forall>s rest user m. quiet s \<and> incoming s = w @ rest \<and> (\<exists>es. lookup (fs s) storage_segs = Some (NDir es)) \<and>
       lookup (fs s) (storage_segs @ [uuid_unparse L (uuid_generate L)]) = None \<and>
       uman_get_user (uuid_compare L) (uuid_generate L) (man s) = Some user \<and>
       uman_register_user (uuid_compare L) (uuid_generate L) (uuid_generate L) (man s) = Some m \<longrightarrow>
       (\<exists>s' r. on_readable L fd s = Some s' \<and> tx s' = tx s @ r \<and>
          message MSGTYPE_AUTH_OK (cbytes ''Registered'' @ [0]) r \<and> man s' = m \<and>
          fs s' = put_node (fs s) (storage_segs @ [uuid_unparse L (uuid_generate L)]) (Some (NDir []))))"
proof -
  have "NUL \<notin> set ''Registered''" by (simp add: NUL_def)
  then have cs: "cstr (cbytes ''Registered'' @ [0]) = Some ''Registered''" by (rule cstr_cbytes)
  have name: "msg_type_to_str (type_code MSGTYPE_AUTH_OK) = Some ''MSGTYPE_AUTH_OK''"
    by (simp add: msg_type_to_str_def) (simp add: MSGTYPES_def)
  from cmd_auth_quiet [OF assms(1-10) _ cs] name obtain w c' where
    c': "cmd_auth L E c = Some (0, c')" "tx c' = tx c @ w" "requested MSGTYPE_AUTH_REQ (uuid_generate L) [] w"
      "fs c' = put_node (fs c) p (Some (NFile (token_text L (uuid_generate L))))" "out c' = out c @ [''MSGTYPE_AUTH_OK: Registered'']"
    by auto
  have "\<exists>s' r. on_readable L fd s = Some s' \<and> tx s' = tx s @ r \<and> message MSGTYPE_AUTH_OK (cbytes ''Registered'' @ [0]) r \<and>
      man s' = m \<and> fs s' = put_node (fs s) (storage_segs @ [uuid_unparse L (uuid_generate L)]) (Some (NDir []))"
    if s: "quiet s" "incoming s = w @ rest" "\<exists>es. lookup (fs s) storage_segs = Some (NDir es)"
      "lookup (fs s) (storage_segs @ [uuid_unparse L (uuid_generate L)]) = None"
      "uman_get_user (uuid_compare L) (uuid_generate L) (man s) = Some user"
      "uman_register_user (uuid_compare L) (uuid_generate L) (uuid_generate L) (man s) = Some m" for s rest user m
    using on_readable_auth [OF assms(1) s(1) c'(3) s(2-6)] unfolding replied_message by blast
  with c' show ?thesis by blast
qed

text \<open>The bytes of a message of which nothing but the type and the payload matters.\<close>

definition sample_message :: "MessageType \<Rightarrow> byte list \<Rightarrow> byte list" where
  "sample_message ty bytes = enc_hdr (zero_hdr\<lparr>hdr_type := type_code ty, hdr_length := of_nat (length bytes)\<rparr>) @ bytes"

lemma sample_message: "message ty bytes (sample_message ty bytes)"
  unfolding message_def sample_message_def
  by (intro exI [of _ "zero_hdr\<lparr>hdr_type := type_code ty, hdr_length := of_nat (length bytes)\<rparr>"])
    (simp add: wf_hdr_def zero_hdr_def)

theorem auth_end_to_end_witness:
  "\<exists>w c' s'. cmd_auth client_lib (sample_env ''/s'') (sample_client [(''s'', NDir [])]
      (sample_message MSGTYPE_AUTH_OK (cbytes ''Registered'' @ [0]))) = Some (0, c') \<and>
    out c' = [''MSGTYPE_AUTH_OK: Registered''] \<and> tx c' = w \<and>
    on_readable client_lib 5 (sample_server [(''var'', NDir [(''minibox'', NDir [])])] w (uman_start (\<lambda>_ _. 0)) no_objects) = Some s' \<and>
    fs s' = NDir [(''var'', NDir [(''minibox'', NDir [(sample_uuid True, NDir [])])])]"
proof -
  let ?c = "sample_client [(''s'', NDir [])] (sample_message MSGTYPE_AUTH_OK (cbytes ''Registered'' @ [0]))"
  let ?s = "\<lambda>w. sample_server [(''var'', NDir [(''minibox'', NDir [])])] w (uman_start (\<lambda>_ _. 0)) no_objects"
  have d: "state_dir (sample_env ''/s'') = Some ''/s''" by (rule sample_state_dir)
  have pl: "place (fs ?c) [''s'', ''minidropbox.token'']" "lookup (fs ?c) [''s'', ''minidropbox.token''] = None"
    by (simp_all add: place_def)
  have e: "errno ?c \<noteq> EEXIST" "length ''/s'' < 4078" "length (uuid_generate client_lib) = 16"
    by (simp_all add: EEXIST_def uuid_size_def)
  have q: "quiet ?c" by simp
  have inc: "message MSGTYPE_AUTH_OK (cbytes ''Registered'' @ [0]) (incoming ?c)" by (simp add: sample_message)
  from auth_end_to_end [OF client_lib_ok q d e(2) sample_token_path pl e(1,3) inc, where fd = 5] obtain w c' where
    c': "cmd_auth client_lib (sample_env ''/s'') ?c = Some (0, c')" "out c' = out ?c @ [''MSGTYPE_AUTH_OK: Registered'']"
      "tx c' = tx ?c @ w" and
    server: "\<forall>s rest user m. quiet s \<and> incoming s = w @ rest \<and> (\<exists>es. lookup (fs s) storage_segs = Some (NDir es)) \<and>
       lookup (fs s) (storage_segs @ [uuid_unparse client_lib (uuid_generate client_lib)]) = None \<and>
       uman_get_user (uuid_compare client_lib) (uuid_generate client_lib) (man s) = Some user \<and>
       uman_register_user (uuid_compare client_lib) (uuid_generate client_lib) (uuid_generate client_lib) (man s) = Some m \<longrightarrow>
       (\<exists>s' r. on_readable client_lib 5 s = Some s' \<and> tx s' = tx s @ r \<and>
          message MSGTYPE_AUTH_OK (cbytes ''Registered'' @ [0]) r \<and> man s' = m \<and>
          fs s' = put_node (fs s) (storage_segs @ [uuid_unparse client_lib (uuid_generate client_lib)]) (Some (NDir [])))"
    by blast
  obtain m where m: "uman_register_user sample_compare (sample_token 0 1) (sample_token 0 1) (uman_start (\<lambda>_ _. 0)) = Some m"
    using start_register by blast
  have "incoming (?s w) = w @ []" "lookup (fs (?s w)) storage_segs = Some (NDir [])"
    "lookup (fs (?s w)) (storage_segs @ [sample_uuid True]) = None" by (simp_all add: storage_segs_def)
  moreover have "uman_get_user sample_compare (sample_token 0 1) (man (?s w)) = Some NULL" by (simp add: start_get_user)
  ultimately obtain s' where s': "on_readable client_lib 5 (?s w) = Some s'"
    "fs s' = put_node (fs (?s w)) (storage_segs @ [sample_uuid True]) (Some (NDir []))"
    using server [rule_format, of "?s w" "[]" NULL m] m by auto
  have "put_node (fs (?s w)) (storage_segs @ [sample_uuid True]) (Some (NDir [])) =
      NDir [(''var'', NDir [(''minibox'', NDir [(sample_uuid True, NDir [])])])]" by (simp add: storage_segs_def)
  with s' c' show ?thesis by simp
qed

text \<open>
  C10. mkdir, client and server together. The client with a token sends the path; the event loop of
  a server that knows the token makes the missing directories of the path below the user's
  directory, changes nothing else on the way and answers MKDIR_RES; and with that answer the
  command reports success with status 0.
\<close>

theorem mkdir_end_to_end:
  fixes c :: "'a client_scheme"
  assumes "lib_ok L" "quiet c" "has_token L E t c" "message MSGTYPE_MKDIR_RES [] (incoming c)"
    "length path < 4045" "NUL \<notin> set path"
    "user_target (uuid_unparse L) path t = storage_segs @ uuid_unparse L t # below" "\<forall>x \<in> set below. plain_name x"
  shows "\<exists>w c'. cmd_mkdir L E prog [path] c = Some (0, c') \<and> out c' = out c @ [''directory created successfully''] \<and>
    tx c' = tx c @ w \<and>
    (\<forall>s rest user. quiet s \<and> incoming s = w @ rest \<and> knows L t user s \<and>
       clear_way (fs s) (storage_segs @ [uuid_unparse L t]) below \<longrightarrow>
       (\<exists>s' r. on_readable L fd s = Some s' \<and> tx s' = tx s @ r \<and> message MSGTYPE_MKDIR_RES [] r \<and>
          way_made (fs s) (storage_segs @ [uuid_unparse L t]) below (fs s')))"
proof -
  from cmd_mkdir_quiet [OF assms(1-5)] obtain w c' where
    c': "cmd_mkdir L E prog [path] c = Some (0, c')" "out c' = out c @ [''directory created successfully'']"
      "tx c' = tx c @ w" "requested MSGTYPE_MKDIR_REQ t (cbytes path) w" by blast
  have "\<exists>s' r. on_readable L fd s = Some s' \<and> tx s' = tx s @ r \<and> message MSGTYPE_MKDIR_RES [] r \<and>
      way_made (fs s) (storage_segs @ [uuid_unparse L t]) below (fs s')"
    if s: "quiet s" "incoming s = w @ rest" "knows L t user s" "clear_way (fs s) (storage_segs @ [uuid_unparse L t]) below"
    for s rest user
    using on_readable_mkdir [OF assms(1) s(1,3) c'(4) s(2) assms(5-8) s(4)] unfolding replied_message by blast
  with c' show ?thesis by blast
qed

definition token_dir :: "string \<times> node" where
  "token_dir = (''s'', NDir [(''minidropbox.token'', NFile (token_text client_lib (sample_token 0 1)))])"

lemma sample_has_token: "has_token client_lib (sample_env ''/s'') (sample_token 0 1) (sample_client (token_dir # files) inc)"
  unfolding has_token_def
  by (intro conjI exI [of _ "''/s''"] exI [of _ "[''s'', ''minidropbox.token'']"])
    (use sample_token_path [of "sample_client (token_dir # files) inc"] in
      \<open>simp_all add: sample_state_dir token_dir_def uuid_size_def\<close>)

lemma sample_known:
  "\<exists>m user. knows client_lib (sample_token 0 1) user (sample_server files inc m no_objects) \<and>
    users m user = Some (user_init (sample_token 0 1) (\<lambda>_. 0) (Some (sample_token 0 1)))"
proof -
  have "last (sample_token 0 1) = 1" "last (replicate 16 (0 :: byte)) = 0" by (simp_all add: sample_token_def)
  then have "sample_token 0 1 \<noteq> replicate 16 0" by force
  then have null: "\<not> uuid_is_null client_lib (sample_token 0 1)" by (simp add: client_lib_def)
  have "sample_compare (sample_token 0 1) (sample_token 0 1) = 0" by (simp add: sample_compare_def)
  from start_known [where cmp = sample_compare and tok = "sample_token 0 1", OF this, of "sample_token 0 1" "\<lambda>_ _. 0"] null show ?thesis by (auto simp: knows_def)
qed

lemma sample_top:
  "lookup (NDir (sample_storage es)) (storage_segs @ [sample_uuid True]) = Some (NDir es)"
  by (simp add: sample_storage_def storage_segs_def)

theorem mkdir_end_to_end_witness:
  "\<exists>w c' s' m. cmd_mkdir client_lib (sample_env ''/s'') ''minidropbox'' [''a''] (sample_client [token_dir]
      (sample_message MSGTYPE_MKDIR_RES [])) = Some (0, c') \<and>
    out c' = [''directory created successfully''] \<and> tx c' = w \<and>
    on_readable client_lib 5 (sample_server (sample_storage []) w m no_objects) = Some s' \<and>
    lookup (fs s') (storage_segs @ [sample_uuid True, ''a'']) = Some (NDir [])"
proof -
  let ?c = "sample_client [token_dir] (sample_message MSGTYPE_MKDIR_RES [])"
  have q: "quiet ?c" "message MSGTYPE_MKDIR_RES [] (incoming ?c)" by (simp_all add: sample_message)
  have path: "length ''a'' < 4045" "NUL \<notin> set ''a''" by (simp_all add: NUL_def)
  have "segments (kept_path ''a'') = [''a'']" by (simp add: kept_path_def)
  then have t: "user_target (uuid_unparse client_lib) ''a'' (sample_token 0 1) =
      storage_segs @ uuid_unparse client_lib (sample_token 0 1) # [''a'']"
    by (simp add: user_target_def resolve_abs_def abs_step_def storage_segs_def)
  have n: "\<forall>x \<in> set [''a'']. plain_name x" by (simp add: plain_name_def plain_seg_def seg_ok_def NUL_def)
  from mkdir_end_to_end [OF client_lib_ok q(1) sample_has_token q(2) path t n, where fd = 5 and prog = "''minidropbox''"]
  obtain w c' where c': "cmd_mkdir client_lib (sample_env ''/s'') ''minidropbox'' [''a''] ?c = Some (0, c')"
    "out c' = out ?c @ [''directory created successfully'']" "tx c' = tx ?c @ w" and
    server: "\<forall>s rest user. quiet s \<and> incoming s = w @ rest \<and> knows client_lib (sample_token 0 1) user s \<and>
       clear_way (fs s) (storage_segs @ [uuid_unparse client_lib (sample_token 0 1)]) [''a''] \<longrightarrow>
       (\<exists>s' r. on_readable client_lib 5 s = Some s' \<and> tx s' = tx s @ r \<and> message MSGTYPE_MKDIR_RES [] r \<and>
          way_made (fs s) (storage_segs @ [uuid_unparse client_lib (sample_token 0 1)]) [''a''] (fs s'))" by blast
  from sample_known [of "sample_storage []" w] obtain m user where
    k: "knows client_lib (sample_token 0 1) user (sample_server (sample_storage []) w m no_objects)" by blast
  let ?s = "sample_server (sample_storage []) w m no_objects"
  have "clear_way (fs ?s) (storage_segs @ [sample_uuid True]) [''a'']"
    using sample_top [of "[]"] by (auto simp: clear_way_def strict_prefix_def prefix_def Cons_eq_append_conv)
  then obtain s' where s': "on_readable client_lib 5 ?s = Some s'" "way_made (fs ?s) (storage_segs @ [sample_uuid True]) [''a''] (fs s')"
    using server [rule_format, of ?s "[]" user] k by auto
  have "lookup (fs ?s) ((storage_segs @ [sample_uuid True]) @ [''a'']) = None"
    unfolding lookup_append [of _ _ "[''a'']"] using sample_top [of "[]"] by simp
  with s' c' show ?thesis by (auto simp: way_made_def)
qed

text \<open>
  C35. A message whose type is none of the enumerators ends the server: 48 bytes from any client that
  is connected, with or without a token, make the event loop fail in the dispatcher, which prints
  the name of the type before it looks at anything else; msg_type_to_str asserts.
\<close>

theorem unknown_type_crashes:
  assumes "open_fds s fd = Some so" "rx_quiet (so_rx so)" "wf_hdr h" "incoming (focus so s) = enc_hdr h @ rest"
    and "length MSGTYPES \<le> unat (hdr_type h)"
  shows "on_event L acc (Readable fd) s = None"
proof -
  have "rx_quiet (rx (focus so s))" using assms(2) by (simp add: focus_def)
  from on_readable_header [OF this assms(3,4), of L fd] obtain msg s1 where
    m: "hdr msg = h" "on_readable L fd (focus so s) = do {
      (ret, s) \<leftarrow> on_client_message_received L fd msg s1; if ret = -1 then Some (drop_client fd s) else Some s }" by blast
  have "length MSGTYPES = 21" by (simp add: MSGTYPES_def)
  then have "msg_type_to_str (hdr_type (hdr msg)) = None"
    using msg_type_codes [of MSGTYPE_NONE "hdr_type h"] assms(5) m(1) by simp
  then have "on_readable L fd (focus so s) = None" using m(2) by (simp add: unnamed_type_faults)
  with assms(1) show ?thesis by simp
qed

theorem unknown_type_crashes_witness:
  "on_event client_lib (AcceptErr EAGAIN) (Readable 5) ((sample_server [] [] (uman_start (\<lambda>_ _. 0)) no_objects)
     \<lparr>open_fds := [5 \<mapsto> \<lparr>so_rx = [RxData (enc_hdr (zero_hdr\<lparr>hdr_type := 21\<rparr>))], so_tx_plan = [], so_tx = []\<rparr>]\<rparr>) = None"
proof -
  let ?h = "zero_hdr\<lparr>hdr_type := 21\<rparr>"
  let ?so = "\<lparr>so_rx = [RxData (enc_hdr ?h)], so_tx_plan = [], so_tx = []\<rparr>"
  let ?s = "(sample_server [] [] (uman_start (\<lambda>_ _. 0)) no_objects)\<lparr>open_fds := [5 \<mapsto> ?so]\<rparr>"
  have "wf_hdr ?h" "length MSGTYPES \<le> unat (hdr_type ?h)" by (simp_all add: zero_hdr_def wf_hdr_def MSGTYPES_def)
  moreover have "open_fds ?s 5 = Some ?so" "rx_quiet (so_rx ?so)" "incoming (focus ?so ?s) = enc_hdr ?h @ []"
    by (simp_all add: focus_def)
  ultimately show ?thesis using unknown_type_crashes [of ?s 5 ?so ?h "[]"] by blast
qed

end
