(* ===== verification/Transfers.thy ===== *)
theory Transfers
  imports EndToEnd
begin

text \<open>
  The upload of a file, client and server together: the request with its description, the answer
  with the chunk to start from, the chunks and their acknowledgements, and the end.
\<close>

section \<open>A session of its own\<close>

text \<open>A user without sessions, with the space and the table another one has.\<close>

definition idle :: "User \<Rightarrow> User \<Rightarrow> bool" where
  "idle u u' \<longleftrightarrow> wf_user u' \<and> session_list u' = [] \<and> u_used_space u' = u_used_space u \<and>
     u_sessions_capacity u' = u_sessions_capacity u \<and> u_total_space u' = u_total_space u"

text \<open>Adding the session of a transfer and removing it at the end, for a user without others.\<close>

lemma transfer_session:
  assumes "wf_user u" "session_list u = []" "1 < u_sessions_capacity u"
  shows "user_get_session m0 u ty f = Some NULL \<and>
    (\<exists>u1. user_add_session u a = Some (0, u1) \<and> (\<forall>m x. session_at m a = Some (x, f) \<and> s_type x = ty \<longrightarrow>
      (\<exists>u2. user_remove_session m u1 ty f = Some (0, u2) \<and> idle u u2)))"
proof -
  have n: "u_sessions_count u = 0" using assms(1,2) length_session_list [of u] by (simp add: unat_eq_0)
  then have g: "user_get_session m0 u ty f = Some NULL"
    by (simp add: user_get_session_def get_session_from.simps)
  define u1 where "u1 = u\<lparr>u_sessions := (u_sessions u)[0 := a], u_sessions_count := 1\<rparr>"
  have len: "0 < length (u_sessions u)" "\<not> u_sessions_capacity u \<le> 0"
    using assms(1,3) by (auto simp: wf_user_def word_less_nat_alt)
  have add: "user_add_session u a = Some (0, u1)"
    using n len by (simp add: user_add_session_def array_set_def u1_def)
  have u1: "wf_user u1" "session_list u1 = [] @ a # []" "u_sessions_count u1 < u_sessions_capacity u1"
    using assms(1,3) len by (cases "u_sessions u"; auto simp: u1_def wf_user_def session_list_def)+
  have "\<exists>u2. user_remove_session m u1 ty f = Some (0, u2) \<and> idle u u2"
    if x: "session_at m a = Some (x, f)" "s_type x = ty" for m x
  proof -
    have "readable m u1" "is_for m ty f a" "\<forall>x \<in> set []. \<not> is_for m ty f x"
      using x u1(2) by (simp_all add: readable_def is_for_def)
    from user_remove_session_found [OF u1(1) this(1) u1(2) this(3,2)] u1(3) show ?thesis
      by (auto simp: u1_def idle_def)
  qed
  with g add show ?thesis by blast
qed

section \<open>The server's side\<close>

lemma strncpy_filename_name:
  assumes "length name < length (fi_filename i)" "NUL \<notin> set name"
  shows "info_name (strncpy_filename name i) = Some name"
proof -
  have "take (length (fi_filename i)) (map byte_of_char name @ replicate (length (fi_filename i)) 0) =
      cbytes name @ replicate (length (fi_filename i) - length name - 1) 0"
    using assms(1) by (simp add: cbytes_def min_def flip: replicate_Suc)
  then show ?thesis using cstr_cbytes [OF assms(2)] by (simp add: info_name_def strncpy_filename_def)
qed

text \<open>The same tokens mean the same users.\<close>

definition same_map :: "server \<Rightarrow> server \<Rightarrow> bool" where
  "same_map s s' \<longleftrightarrow> user_map (man s') = user_map (man s) \<and> um_heap (man s') = um_heap (man s)"

lemma same_map_knows: "same_map s s' \<Longrightarrow> knows L t user s' \<longleftrightarrow> knows L t user s"
  by (simp add: same_map_def knows_def uman_get_user_def)

text \<open>What the functions on the server's memory leave alone.\<close>

definition io_eq :: "server \<Rightarrow> server \<Rightarrow> bool" where
  "io_eq s s' \<longleftrightarrow> rx s' = rx s \<and> tx s' = tx s \<and> tx_plan s' = tx_plan s \<and> fs s' = fs s \<and> fs_plan s' = fs_plan s \<and>
     cwd s' = cwd s \<and> same_map s s'"

lemma io_eq_quiet: "io_eq s s' \<Longrightarrow> quiet s \<Longrightarrow> quiet s'"
  by (simp add: io_eq_def quiet_def)

lemma open_session_new:
  assumes u: "users (man s) user = Some u" "wf_user u" "session_list u = []" "1 < u_sessions_capacity u"
    and i: "infos (objs s) a = Some i"
  shows "\<exists>x u1 s'. open_session ty user a f s = Some (0, x, s') \<and> io_eq s s' \<and> users (man s') user = Some u1 \<and>
    infos (objs s') a = Some i \<and> (\<exists>ss. sess (objs s') x = Some ss \<and> s_type ss = ty \<and> s_file_info ss = a) \<and>
    (\<forall>m ss. session_at m x = Some (ss, f) \<and> s_type ss = ty \<longrightarrow>
      (\<exists>u2. user_remove_session m u1 ty f = Some (0, u2) \<and> idle u u2))"
proof -
  let ?x = "brk s"
  let ?now = "clock s 0"
  from transfer_session [OF u(2-4), of "objs s" ty f ?x] obtain u1 where
    t: "user_get_session (objs s) u ty f = Some NULL" "user_add_session u ?x = Some (0, u1)" and
    rm: "\<forall>m ss. session_at m ?x = Some (ss, f) \<and> s_type ss = ty \<longrightarrow>
      (\<exists>u2. user_remove_session m u1 ty f = Some (0, u2) \<and> idle u u2)"
    by blast
  let ?s' = "set_user user u1 (set_session ?x (session_init a ty ?now) (snd (clock_gettime (s\<lparr>brk := ?x + 1\<rparr>))))"
  have "open_session ty user a f s = Some (0, ?x, ?s')"
    using u(1) t by (simp add: open_session_def clock_gettime_def Let_def)
  moreover have "io_eq s ?s'" by (simp add: io_eq_def same_map_def set_user_def set_session_def clock_gettime_def)
  moreover have "users (man ?s') user = Some u1" "infos (objs ?s') a = Some i"
    "sess (objs ?s') ?x = Some (session_init a ty ?now)"
    using i by (simp_all add: set_user_def set_session_def clock_gettime_def)
  moreover have "s_type (session_init a ty ?now) = ty" "s_file_info (session_init a ty ?now) = a"
    by (simp_all add: session_init_def)
  ultimately show ?thesis using rm by blast
qed

text \<open>The answers of an upload of n chunks from the first one on.\<close>

definition upload_done :: string where
  "upload_done = ''file successfully uploaded''"

definition upload_answers :: "nat \<Rightarrow> byte list \<Rightarrow> bool" where
  "upload_answers n r \<longleftrightarrow> (\<exists>r1 acks r2. message MSGTYPE_UPLOAD_RES (le_of_u64 0) r1 \<and> ack_stream n acks \<and>
     message MSGTYPE_UPLOAD_FIN (cbytes upload_done) r2 \<and> r = r1 @ acks @ r2)"

text \<open>The place of an uploaded file.\<close>

definition user_place :: "lib \<Rightarrow> uuid \<Rightarrow> string \<Rightarrow> string list" where
  "user_place L t name = storage_segs @ [uuid_unparse L t, name]"

lemma user_place_path:
  assumes u: "uuid_text (uuid_unparse L)" and b: "plain_name b"
  shows "get_user_root (uuid_unparse L) t @ CHR ''/'' # b = render_tail (user_place L t b)"
    "plain_path (render_tail (user_place L t b))" "segments (render_tail (user_place L t b)) = user_place L t b"
    "last (render_tail (user_place L t b)) \<noteq> CHR ''/''" "NUL \<notin> set (render_tail (user_place L t b))"
    "length (render_tail (user_place L t b)) < 306"
proof -
  show r: "get_user_root (uuid_unparse L) t @ CHR ''/'' # b = render_tail (user_place L t b)"
    using render_tail_snoc [of "storage_segs @ [uuid_unparse L t]" b]
    by (simp add: get_user_root_render [OF u] user_place_def)
  have n: "\<forall>s \<in> set (user_place L t b). plain_name s" "user_place L t b \<noteq> []"
    using uuid_text_seg [OF u, of t] storage_segs_ok b
    by (auto simp: plain_name_def storage_segs_def user_place_def NUL_def)
  from render_plain_path [OF n] show "plain_path (render_tail (user_place L t b))"
    "segments (render_tail (user_place L t b)) = user_place L t b"
    "last (render_tail (user_place L t b)) \<noteq> CHR ''/''" "NUL \<notin> set (render_tail (user_place L t b))" by blast+
  show "length (render_tail (user_place L t b)) < 306"
    unfolding r [symmetric] using length_get_user_root [OF u, of t] b by (simp add: plain_name_def)
qed

lemma user_place_resolve:
  assumes "uuid_text (uuid_unparse L)" "plain_name b" "lookup (fs c) (storage_segs @ [uuid_unparse L t]) = Some (NDir es)"
  shows "resolve c (render_tail (user_place L t b)) = Inr (user_place L t b)" "place (fs c) (user_place L t b)"
proof -
  show pl: "place (fs c) (user_place L t b)"
    using assms(3) by (simp add: place_def user_place_def butlast_append)
  note p = user_place_path [OF assms(1,2), of t]
  show "resolve c (render_tail (user_place L t b)) = Inr (user_place L t b)"
    by (rule resolve_exists [OF p(2)]) (use p pl in \<open>simp_all add: PATH_MAX_def\<close>)
qed

text \<open>A whole file received under a name that is free, from the first chunk on.\<close>

lemma file_recv_new:
  assumes L: "lib_ok L" and q: "quiet c" and name: "info_name info = Some filename" and path: "resolve c filename = Inr p"
    and free: "lookup (fs c) p = None" "place (fs c) p"
    and data: "length data \<le> 2 ^ 24" "fi_chunk_count info = of_nat (chunk_count_of (length data))"
      "chunk_stream (sha256 L) data 0 (chunk_count_of (length data)) w" "incoming c = w @ rest"
  shows "\<exists>c' acks. file_recv (sha256 L) info c =
      Some (\<lparr>last_chunk_recvd = of_nat (chunk_count_of (length data)), recv_error_code = 0\<rparr>, c') \<and>
    tx c' = tx c @ acks \<and> ack_stream (chunk_count_of (length data)) acks \<and> incoming c' = rest \<and> quiet c' \<and>
    same_files p (fs c) (fs c') \<and> lookup (fs c') p = Some (NFile data)"
proof -
  let ?N = "chunk_count_of (length data)"
  have sha: "\<And>x. length (sha256 L x) = 32" using L by (simp add: lib_ok_def)
  have fl: "lookup (fs c) p = Some (NFile []) \<or> lookup (fs c) p = None \<and> place (fs c) p \<and> ([] :: byte list) = []" "p \<noteq> []"
    using free by (simp_all add: place_def)
  have N: "?N = pieces (length data)" by (rule chunk_count_exact [OF data(1)])
  then have Nb: "4096 * ?N < 2 ^ 63" "4096 * (?N - 1) < length data \<or> ?N = 0" "length data \<le> 4096 * ?N"
    using data(1) by (auto simp: pieces_def)
  have cnt: "unat (fi_chunk_count info) = ?N" using data(2) Nb(1) by (simp add: unat_of_nat)
  have seg: "(if ?N = 0 then [] else overwrite [] (4096 * 0) (segment data 0 (?N - 0))) = data"
    using Nb by (auto simp: overwrite_def segment_def)
  have w: "chunk_stream (sha256 L) data 0 (?N - 0) w" using data(3) by simp
  from file_recv_stream [where sha = "sha256 L", OF sha q name path fl cnt Nb(1,2) _ w data(4), unfolded seg] show ?thesis
    by simp
qed

text \<open>The end of an upload that has gone well: the last message, and the session is removed.\<close>

lemma upload_end_quiet:
  assumes q: "quiet s" and u: "users (man s) user = Some u1" and x: "session_at (objs s) x = Some (ss, name)" "s_type ss = SESS_UPLOAD"
    and rm: "\<forall>m ss. session_at m x = Some (ss, name) \<and> s_type ss = SESS_UPLOAD \<longrightarrow>
      (\<exists>u2. user_remove_session m u1 SESS_UPLOAD name = Some (0, u2) \<and> idle u u2)"
  shows "\<exists>s' u2 r. upload_end user x name \<lparr>last_chunk_recvd = n, recv_error_code = 0\<rparr> s = Some s' \<and>
    tx s' = tx s @ r \<and> message MSGTYPE_UPLOAD_FIN (cbytes upload_done) r \<and> users (man s') user = Some u2 \<and> idle u u2 \<and>
    fs s' = fs s \<and> quiet s' \<and> same_map s s'"
proof -
  have "tx_quiet (tx_plan s)" "cbytes upload_done \<noteq> []" "length (cbytes upload_done) < 2 ^ 64"
    using q by (simp_all add: quiet_def cbytes_def upload_done_def)
  from send_msg_quiet [OF this, of MSGTYPE_UPLOAD_FIN] obtain s7 where
    s7: "send_msg MSGTYPE_UPLOAD_FIN (cbytes upload_done) (of_nat (length upload_done + 1)) s = Some (0, s7)"
      "replied MSGTYPE_UPLOAD_FIN (cbytes upload_done) s s7" "tx_step s s7" "tx_quiet (tx_plan s7)" by auto
  have st: "man s7 = man s" "objs s7 = objs s" using io_state [OF tx_step_same [OF s7(3)]] by (simp_all add: state_same_def)
  obtain u2 where u2: "user_remove_session (objs s7) u1 SESS_UPLOAD name = Some (0, u2)" "idle u u2" using rm x st(2) by auto
  have "upload_end user x name \<lparr>last_chunk_recvd = n, recv_error_code = 0\<rparr> s = Some (set_user user u2 s7)"
    using s7(1) st u u2(1) by (simp add: upload_end_def close_session_def upload_done_def)
  moreover obtain r where "message MSGTYPE_UPLOAD_FIN (cbytes upload_done) r" "tx s7 = tx s @ r"
    using s7(2) unfolding replied_message by auto
  moreover have "quiet (set_user user u2 s7)" using quiet_tx_step [OF q s7(3,4)] by (simp add: set_user_def quiet_def)
  ultimately show ?thesis using u2(2) st(1) tx_step_fs [OF s7(3)] by (auto simp: set_user_def same_map_def)
qed

lemma upload_file_quiet:
  assumes L: "lib_ok L" and q: "quiet s"
    and u: "users (man s) user = Some u" "wf_user u" "session_list u = []" "1 < u_sessions_capacity u"
      "\<not> u_total_space u < u_used_space u + fi_size info"
    and b: "strrchr name CHR ''/'' = Some (CHR ''/'' # b)" "plain_name b" and info: "wf_info info"
    and f: "lookup (fs s) (storage_segs @ [uuid_unparse L t]) = Some (NDir es)" "lookup (fs s) (user_place L t b) = None"
    and data: "length data \<le> 2 ^ 24" "fi_chunk_count info = of_nat (chunk_count_of (length data))"
      "chunk_stream (sha256 L) data 0 (chunk_count_of (length data)) w" "incoming s = w @ rest"
  shows "\<exists>s' r. upload_file L user t info name s = Some s' \<and> tx s' = tx s @ r \<and>
    upload_answers (chunk_count_of (length data)) r \<and> lookup (fs s') (user_place L t b) = Some (NFile data) \<and>
    same_files (user_place L t b) (fs s) (fs s') \<and> quiet s' \<and> same_map s s' \<and>
    (\<exists>u'. users (man s') user = Some u' \<and> idle u u')"
proof -
  let ?N = "chunk_count_of (length data)"
  have ut: "uuid_text (uuid_unparse L)" using L by (simp add: lib_ok_def)
  note p = user_place_path [OF ut b(2), of t]
  let ?name = "render_tail (user_place L t b)"
  let ?info = "strncpy_filename ?name info"
  have name: "snprintf_str (PATH_MAX * 2) (get_user_root (uuid_unparse L) t @ CHR ''/'' # b) = ?name"
    unfolding p(1) using p(6) by (simp add: PATH_MAX_def)
  have iname: "info_name ?info = Some ?name"
    by (rule strncpy_filename_name) (use info p in \<open>simp_all add: wf_info_def PATH_MAX_def\<close>)
  obtain s1 where s1: "new_info ?info s = (brk s, s1)" "io_eq s s1" "man s1 = man s" "infos (objs s1) (brk s) = Some ?info"
    by (auto simp: new_info_def io_eq_def same_map_def)
  from open_session_new [OF _ u(2-4) s1(4), of user SESS_UPLOAD ?name] u(1) s1(3) obtain x u1 s2 ss where
    s2: "open_session SESS_UPLOAD user (brk s) ?name s1 = Some (0, x, s2)" "io_eq s1 s2" "users (man s2) user = Some u1"
      "infos (objs s2) (brk s) = Some ?info" "sess (objs s2) x = Some ss" "s_type ss = SESS_UPLOAD" "s_file_info ss = brk s" and
    rm: "\<forall>m ss. session_at m x = Some (ss, ?name) \<and> s_type ss = SESS_UPLOAD \<longrightarrow>
      (\<exists>u2. user_remove_session m u1 SESS_UPLOAD ?name = Some (0, u2) \<and> idle u u2)" by auto
  have f2: "fs s2 = fs s" "tx s2 = tx s" "rx s2 = rx s" "quiet s2"
    using s1(2) s2(2) q by (simp_all add: io_eq_def quiet_def)
  let ?s3 = "fail_with EEXIST s2"
  have mk: "fs_mkdir (get_user_root (uuid_unparse L) t) s2 = (-1, ?s3)"
  proof -
    have "\<exists>es. lookup (fs s2) storage_segs = Some (NDir es)"
      using lookup_place [OF f(1)] f2(1) by (simp add: place_def)
    from user_mkdir [OF ut _ this, of t] show ?thesis using f(1) f2 by (simp add: quiet_def)
  qed
  have "tx_quiet (tx_plan ?s3)" "le_of_u64 0 \<noteq> []" "length (le_of_u64 0) < 2 ^ 64"
    using f2(4) length_le_of(1) [of 0] by (auto simp: fail_with_def quiet_def simp del: length_le_of)
  from send_msg_quiet [OF this, of MSGTYPE_UPLOAD_RES] obtain s4 where
    s4: "send_upload_res (le_of_u64 0) 8 ?s3 = Some (0, s4)" "replied MSGTYPE_UPLOAD_RES (le_of_u64 0) ?s3 s4" "tx_step ?s3 s4"
      "tx_quiet (tx_plan s4)" unfolding send_upload_res_def by auto
  have st4: "man s4 = man s2" "objs s4 = objs s2"
    using io_state [OF tx_step_same [OF s4(3)]] by (simp_all add: state_same_def fail_with_def)
  let ?s5 = "set_session x (ss\<lparr>s_state := SSTATE_RUNNING\<rparr>) s4"
  have s5: "quiet ?s5" "incoming ?s5 = w @ rest" "fs ?s5 = fs s" "tx ?s5 = tx s4"
    using f2 s4(3,4) data(4) tx_step_fs [OF s4(3)] quiet_tx_step [OF _ s4(3,4)]
    by (simp_all add: set_session_def quiet_def tx_step_def fail_with_def)
  have r: "resolve ?s5 ?name = Inr (user_place L t b)" "place (fs ?s5) (user_place L t b)"
    using user_place_resolve [OF ut b(2), of ?s5 t es] f(1) s5(3) by simp_all
  have free: "lookup (fs ?s5) (user_place L t b) = None" using f(2) s5(3) by simp
  have cnt: "fi_chunk_count ?info = of_nat ?N" using data(2) by (simp add: strncpy_filename_def)
  from file_recv_new [OF L s5(1) iname r(1) free r(2) data(1) cnt data(3) s5(2)] obtain s6 acks where
    s6: "file_recv (sha256 L) ?info ?s5 = Some (\<lparr>last_chunk_recvd = of_nat ?N, recv_error_code = 0\<rparr>, s6)"
      "tx s6 = tx ?s5 @ acks" "ack_stream ?N acks" "quiet s6" "same_files (user_place L t b) (fs ?s5) (fs s6)"
      "lookup (fs s6) (user_place L t b) = Some (NFile data)" by auto
  have st6: "man s6 = man s2" "objs s6 = objs ?s5"
    using io_state [OF file_recv_io [OF s6(1)]] st4 by (simp_all add: state_same_def set_session_def)
  have at: "session_at (objs s6) x = Some (ss\<lparr>s_state := SSTATE_RUNNING\<rparr>, ?name)"
    "s_type (ss\<lparr>s_state := SSTATE_RUNNING\<rparr>) = SESS_UPLOAD" "users (man s6) user = Some u1"
    using s2(3,4,6,7) st4(2) st6 iname by (simp_all add: session_at_def set_session_def)
  from upload_end_quiet [where n = "of_nat ?N", OF s6(4) at(3,1,2) rm] obtain s8 u2 r2 where
    s8: "upload_end user x ?name \<lparr>last_chunk_recvd = of_nat ?N, recv_error_code = 0\<rparr> s6 = Some s8" "tx s8 = tx s6 @ r2"
      "message MSGTYPE_UPLOAD_FIN (cbytes upload_done) r2" "users (man s8) user = Some u2" "idle u u2" "fs s8 = fs s6" "quiet s8"
      "same_map s6 s8" by blast
  have root: "snprintf_str PATH_MAX (STORAGE_DIR @ ''/'' @ uuid_unparse L t) = get_user_root (uuid_unparse L) t"
    by (simp add: get_user_root_def)
  have "upload_file L user t info name s = Some s8"
    using u(1,5) b(1) root name iname s1(1) s2(1) mk s4(1) s2(5) st4(2) s6(1) s8(1)
    by (simp add: upload_file_def fail_with_def)
  moreover obtain r1 where r1: "message MSGTYPE_UPLOAD_RES (le_of_u64 0) r1" "tx s4 = tx s @ r1"
    using s4(2) f2(2) unfolding replied_message by (auto simp: fail_with_def)
  have "tx s8 = tx s @ r1 @ acks @ r2" "upload_answers ?N (r1 @ acks @ r2)"
    using r1 s8(2,3) s6(2,3) s5(4) unfolding upload_answers_def by auto
  moreover have "same_map s s8" using s1(2) s2(2) st6(1) s8(8) by (simp add: io_eq_def same_map_def)
  ultimately show ?thesis using s6(5,6) s5(3) s8(4-7) by auto
qed

section \<open>The client's side\<close>

lemma resolve_same: "fs c' = fs c \<Longrightarrow> cwd c' = cwd c \<Longrightarrow> resolve c' path = resolve c path"
  by (simp add: resolve_def)

lemma has_token_same: "has_token L E t c \<Longrightarrow> fs c' = fs c \<Longrightarrow> has_token L E t c'"
  by (simp add: has_token_def path_to_def)

lemma uninit_info_out: "out (snd (uninit_info c)) = out (c :: 'a client_scheme)"
  by (simp add: uninit_info_def uninit_def split_beta)

lemma refused_no:
  assumes "hdr_type (hdr msg) = type_code ty" "ty \<noteq> MSGTYPE_AUTH_FAIL" "ty \<noteq> MSGTYPE_ERROR"
  shows "refused prog ty e x msg c = Some None"
proof -
  have "type_code ty \<noteq> type_code MSGTYPE_AUTH_FAIL" "type_code ty \<noteq> type_code MSGTYPE_ERROR"
    using assms(2,3) msgtype_of_code by (metis option.inject)+
  with assms(1) show ?thesis by (simp add: refused_def)
qed

lemma first_byte: "le_of_u64 w ! 0 = of_nat (unat w mod 256)"
proof -
  have "le_bytes 8 n ! 0 = of_nat (n mod 256)" for n using le_bytes.simps(2) [of 7 n] by simp
  then show ?thesis by (simp add: le_of_u64_def)
qed

lemma say_frame [simp]:
  "quiet (say line c) \<longleftrightarrow> quiet c" "rx (say line c) = rx c" "fs (say line c) = fs c" "cwd (say line c) = cwd c" "tx (say line c) = tx c"
  "out (say line c) = out c @ [line]" "resolve (say line c) path = resolve c path"
  by (simp_all add: say_def quiet_def resolve_def)

lemma dec_zero [simp]: "dec 0 = ''0''" "dec_int 0 = ''0''"
  by (simp_all add: dec.simps dec_int_def char_of_def bit_0)

text \<open>The bytes of an upload: the request with the description of the file, and its chunks.\<close>

definition upload_bytes :: "lib \<Rightarrow> uuid \<Rightarrow> string \<Rightarrow> byte list \<Rightarrow> byte list \<Rightarrow> bool" where
  "upload_bytes L t local data w \<longleftrightarrow> (\<exists>info req chunks. w = req @ chunks \<and>
     requested MSGTYPE_UPLOAD_REQ t (enc_info info) req \<and> wf_info info \<and> info_name info = Some local \<and>
     fi_size info = of_nat (length data) \<and> fi_chunk_count info = of_nat (chunk_count_of (length data)) \<and>
     chunk_stream (sha256 L) data 0 (chunk_count_of (length data)) chunks)"

lemma upload_chunks_quiet:
  assumes L: "lib_ok L" and q: "quiet c" and p: "resolve c local = Inr p" "lookup (fs c) p = Some (NFile data)"
    and info: "info_name info = Some local" and size: "length data \<le> 2 ^ 24"
    and inc: "hdr_length (hdr msg) = 8" "incoming c = le_of_u64 0 @ acks @ fin"
      "ack_stream (chunk_count_of (length data)) acks" "message MSGTYPE_UPLOAD_FIN bytes fin"
  shows "\<exists>w c'. upload_chunks L info msg c = Some (0, c') \<and> out c' = out c @ [''seq: 0'', ''upload done: res=0'', ''upload done!''] \<and> tx c' = tx c @ w \<and>
    chunk_stream (sha256 L) data 0 (chunk_count_of (length data)) w \<and> fs c' = fs c"
proof -
  have sha: "\<And>x. length (sha256 L x) = 32" using L by (simp add: lib_ok_def)
  have ne: "le_of_u64 0 \<noteq> []" using length_le_of(1) [of 0] by (auto simp del: length_le_of)
  have l: "hdr_length (hdr msg) = of_nat (length (le_of_u64 0))" "length (le_of_u64 0) \<le> 8192"
    "of_nat (length (le_of_u64 0)) \<le> (8 :: usize)" using inc(1) by simp_all
  from recv_payload_some [OF q ne l inc(2)] obtain c1 where
    c1: "msg_recv_payload 8 msg c = Some (0, msg\<lparr>payload := Some (le_of_u64 0)\<rparr>, c1)" "incoming c1 = acks @ fin"
      "rx_step c c1" "quiet c1" by blast
  have f1: "fs c1 = fs c" "cwd c1 = cwd c" using io_sameD [OF rx_step_same [OF c1(3)]] by auto
  have s0: "ucast (le_of_u64 0 ! 0) = (of_nat 0 :: usize)" by (simp add: first_byte)
  let ?c1 = "say ''seq: 0'' c1"
  have r1: "quiet ?c1" "resolve ?c1 local = Inr p" "lookup (fs ?c1) p = Some (NFile data)" "incoming ?c1 = acks @ fin"
    using resolve_same [OF f1] p f1 c1(2,4) by simp_all
  have size': "length data < 2 ^ 36" using size by simp
  have acks: "ack_stream (chunk_count_of (length data) - 0) acks" using inc(3) by simp
  from file_send_stream [where sha = "sha256 L", OF sha r1(1-3) size' _ acks r1(4)] obtain c2 w where
    c2: "file_send (sha256 L) local (of_nat 0) ?c1 = Some (\<lparr>last_chunk_sent = of_nat (chunk_count_of (length data)), send_error_code = 0\<rparr>, c2)"
      "tx c2 = tx c1 @ w" "chunk_stream (sha256 L) data 0 (chunk_count_of (length data)) w" "incoming c2 = fin @ []"
      "quiet c2" "fs c2 = fs c1" by auto
  let ?c2 = "say ''upload done: res=0'' c2"
  have q2: "quiet ?c2" "incoming ?c2 = fin @ []" using c2(4,5) by simp_all
  have wf: "wf_hdr (hdr (msg_clear (msg\<lparr>payload := Some (le_of_u64 0)\<rparr>)))" by (simp add: msg_clear_def)
  from recv_message_header [OF wf q2(1) inc(4) q2(2)] obtain h c3 ts where
    c3: "msg_recv_header (msg_clear (msg\<lparr>payload := Some (le_of_u64 0)\<rparr>)) ?c2 =
        Some (0, (msg_clear (msg\<lparr>payload := Some (le_of_u64 0)\<rparr>))\<lparr>hdr := h, rcvd_at := ts\<rparr>, c3)"
      "hdr_type h = type_code MSGTYPE_UPLOAD_FIN" "rx_step ?c2 c3" by blast
  have "upload_chunks L info msg c = Some (0, say ''upload done!'' c3)"
    using c1(1) ne s0 info c2(1) c3(1,2) by (simp add: upload_chunks_def handle_recv_error_def)
  moreover have "out c3 = out c @ [''seq: 0'', ''upload done: res=0'']"
    using step_out(2) [OF c1(3)] step_out(2) [OF c3(3)] client_more [of c2 ?c1] io_sameD [OF file_send_same [OF c2(1)]] by simp
  moreover have "tx c3 = tx c @ w" using c2(2) c1(3) c3(3) by (simp add: rx_step_def)
  moreover have "fs c3 = fs c" using rx_step_fs [OF c3(3)] c2(6) f1(1) by simp
  ultimately show ?thesis using c2(3) by (intro exI [of _ w]) (simp add: say_def)
qed

lemma cmd_upload_quiet:
  fixes c :: "'a client_scheme"
  assumes L: "lib_ok L" and q: "quiet c" and tok: "has_token L E t c"
    and p: "resolve c local = Inr p" "lookup (fs c) p = Some (NFile data)" "NUL \<notin> set local" "length data \<le> 2 ^ 24"
    and answers: "upload_answers (chunk_count_of (length data)) (incoming c)"
  shows "\<exists>w c'. cmd_upload L E prog (local # args) c = Some (0, c') \<and> out c' = out c @ [''seq: 0'', ''upload done: res=0'', ''upload done!''] \<and>
    tx c' = tx c @ w \<and> upload_bytes L t local data w \<and> fs c' = fs c"
proof -
  have sha: "\<And>x. length (sha256 L x) = 32" using L by (simp add: lib_ok_def)
  obtain i0 c0 where u: "uninit_info c = (i0, c0)" by fastforce
  have c0: "wf_info i0" "fs c0 = fs c" "quiet c0" "rx c0 = rx c" "tx c0 = tx c" "resolve c0 local = Inr p" "out c0 = out c"
    using uninit_info_frame [of c] u q p(1) uninit_info_out [of c] by auto
  have plan: "fs_plan c0 = []" using c0(3) by (simp add: quiet_def)
  have fl0: "lookup (fs c0) p = Some (NFile data)" using p(2) c0(2) by simp
  from fileinfo_quiet [where sha = "sha256 L", OF sha plan c0(6) fl0 c0(1)] p(3) obtain info where
    i: "fileinfo_from_filename (sha256 L) local i0 c0 = Some (0, info, c0)" "wf_info info"
      "fi_size info = of_nat (length data)" "fi_chunk_count info = of_nat (chunk_count_of (length data))"
      "info_name info = Some local" by blast
  from has_token_load [OF L c0(3) has_token_same [OF tok c0(2)], of "hdr_token (hdr zero_msg)"] obtain c1 where
    c1: "load_token L E (hdr_token (hdr zero_msg)) c0 = Some (0, t, c1)" "io_becomes c0 (fs c0) c1" by blast
  have t: "length t = 16" using tok by (simp add: has_token_def)
  have ne: "enc_info info \<noteq> []" "length (enc_info info) < 2 ^ 64" "length (enc_info info) = FileInfo_size"
    using fi.length_enc [OF i(2)] by (auto simp: FileInfo_size_def PATH_MAX_def)
  from send_request [OF wf_zero_msg t io_becomes_quiet [OF c1(2) c0(3)] _ ne(2), of "Some (enc_info info)" MSGTYPE_UPLOAD_REQ] ne(1)
  obtain m' c2 req where
    c2: "msg_send (msg_init (set_token t zero_msg) MSGTYPE_UPLOAD_REQ (Some (enc_info info)) (of_nat FileInfo_size)) None 0 c1 = Some (0, m', c2)"
      "tx c2 = tx c1 @ req" "requested MSGTYPE_UPLOAD_REQ t (enc_info info) req" "tx_step c1 c2" "quiet c2"
    unfolding ne(3) by blast
  from answers obtain r1 acks fin where a: "message MSGTYPE_UPLOAD_RES (le_of_u64 0) r1"
    "ack_stream (chunk_count_of (length data)) acks" "message MSGTYPE_UPLOAD_FIN (cbytes upload_done) fin"
    "incoming c = r1 @ acks @ fin" by (auto simp: upload_answers_def)
  have inc: "incoming c2 = r1 @ (acks @ fin)"
    using c2(4) io_becomesD [OF c1(2)] c0(4) a(4) by (simp add: tx_step_def)
  have wfc: "wf_hdr (hdr (msg_clear m'))" by (simp add: msg_clear_def)
  from recv_message_header [OF wfc c2(5) a(1) inc] obtain h c3 ts where
    c3: "msg_recv_header (msg_clear m') c2 = Some (0, (msg_clear m')\<lparr>hdr := h, rcvd_at := ts\<rparr>, c3)"
      "hdr_type h = type_code MSGTYPE_UPLOAD_RES" "hdr_length h = of_nat (length (le_of_u64 0))"
      "incoming c3 = le_of_u64 0 @ acks @ fin" "rx_step c2 c3" "quiet c3" by blast
  let ?m = "(msg_clear m')\<lparr>hdr := h, rcvd_at := ts\<rparr>"
  have f3: "fs c3 = fs c" "cwd c3 = cwd c0" "out c3 = out c" "tx c3 = tx c @ req"
    using rx_step_fs [OF c3(5)] tx_step_fs [OF c2(4)] io_becomesD [OF c1(2)] c0 step_out(1) [OF c2(4)] step_out(2) [OF c3(5)]
      io_becomes_out [OF c1(2)] io_sameD [OF rx_step_same [OF c3(5)]] io_sameD [OF tx_step_same [OF c2(4)]] c2(2) c3(5)
    by (simp_all add: rx_step_def)
  have r3: "resolve c3 local = Inr p" "lookup (fs c3) p = Some (NFile data)"
    using resolve_same [of c3 c0 local] f3(1,2) c0(2,6) p(2) by simp_all
  have m: "hdr_type (hdr ?m) = type_code MSGTYPE_UPLOAD_RES" "hdr_length (hdr ?m) = 8" using c3(2,3) by simp_all
  from upload_chunks_quiet [OF L c3(6) r3 i(5) p(4) m(2) c3(4) a(2,3)] obtain chunks c4 where
    c4: "upload_chunks L info ?m c3 = Some (0, c4)" "out c4 = out c3 @ [''seq: 0'', ''upload done: res=0'', ''upload done!'']" "tx c4 = tx c3 @ chunks"
      "chunk_stream (sha256 L) data 0 (chunk_count_of (length data)) chunks" "fs c4 = fs c3" by blast
  obtain str where str: "msg_type_to_str (type_code MSGTYPE_UPLOAD_RES) = Some str" using type_names by blast
  have no: "refused prog MSGTYPE_UPLOAD_RES ''server error: '' ''expected MSGTYPE_UPLOAD_RES, got '' ?m c3 = Some None"
    by (rule refused_no [OF m(1)]) simp_all
  have "cmd_upload L E prog (local # args) c = Some (0, c4)"
    using i(1) c1(1) c2(1) c3(1,2) c4(1) str no by (simp add: cmd_upload_def u handle_recv_error_def)
  moreover have "upload_bytes L t local data (req @ chunks)"
    using c2(3) i c4(4) unfolding upload_bytes_def by blast
  ultimately show ?thesis using c4(2,3,5) f3 by auto
qed

section \<open>The server's side of the request\<close>

text \<open>A user of the server without transfers and with room for a file of this size.\<close>

definition room_for :: "addr \<Rightarrow> nat \<Rightarrow> server \<Rightarrow> bool" where
  "room_for user n s \<longleftrightarrow> (\<exists>u. users (man s) user = Some u \<and> wf_user u \<and> session_list u = [] \<and>
     1 < u_sessions_capacity u \<and> \<not> u_total_space u < u_used_space u + of_nat n)"

text \<open>The user after a transfer: no session is left, and the space used is what it was.\<close>

definition idle_user :: "addr \<Rightarrow> server \<Rightarrow> server \<Rightarrow> bool" where
  "idle_user user s s' \<longleftrightarrow> (\<exists>u u'. users (man s) user = Some u \<and> users (man s') user = Some u' \<and> idle u u')"

lemma on_readable_upload:
  assumes L: "lib_ok L" and q: "quiet s" and k: "knows L t user s" and w: "upload_bytes L t local data w" "incoming s = w @ rest"
    and room: "room_for user (length data) s" and b: "strrchr local CHR ''/'' = Some (CHR ''/'' # b)" "plain_name b"
    and f: "lookup (fs s) (storage_segs @ [uuid_unparse L t]) = Some (NDir es)" "lookup (fs s) (user_place L t b) = None"
    and size: "length data \<le> 2 ^ 24"
  shows "\<exists>s' r. on_readable L fd s = Some s' \<and> tx s' = tx s @ r \<and> upload_answers (chunk_count_of (length data)) r \<and>
    lookup (fs s') (user_place L t b) = Some (NFile data) \<and> same_files (user_place L t b) (fs s) (fs s') \<and>
    idle_user user s s' \<and> open_fds s' fd = None \<and> quiet s' \<and> same_map s s'"
proof -
  from w(1) obtain info req chunks where i: "w = req @ chunks" "requested MSGTYPE_UPLOAD_REQ t (enc_info info) req" "wf_info info"
    "info_name info = Some local" "fi_size info = of_nat (length data)" "fi_chunk_count info = of_nat (chunk_count_of (length data))"
    "chunk_stream (sha256 L) data 0 (chunk_count_of (length data)) chunks" by (auto simp: upload_bytes_def)
  have inc: "incoming s = req @ (chunks @ rest)" using w(2) i(1) by simp
  have ty: "MSGTYPE_UPLOAD_REQ \<in> {MSGTYPE_UPLOAD_REQ, MSGTYPE_DOWNLOAD_REQ, MSGTYPE_LIST_REQ}" by simp
  from on_readable_stream [OF q k i(2) inc ty, of fd] obtain msg s2 where
    m: "taken MSGTYPE_UPLOAD_REQ t (enc_info info) (chunks @ rest) s msg s2" "user \<noteq> NULL" and
    run: "\<And>s3. on_stream_req L MSGTYPE_UPLOAD_REQ fd user msg s2 = Some s3 \<Longrightarrow> on_readable L fd s = Some s3" by blast
  note m' = m(1) [unfolded taken_def]
  have len: "length (enc_info info) = FileInfo_size" by (rule fi.length_enc [OF i(3)])
  then have e: "enc_info info \<noteq> []" "length (enc_info info) \<le> 8192" "of_nat (length (enc_info info)) \<le> (of_nat FileInfo_size :: usize)"
    by (auto simp: FileInfo_size_def PATH_MAX_def)
  from m' have l: "quiet s2" "hdr_length (hdr msg) = of_nat (length (enc_info info))" "incoming s2 = enc_info info @ (chunks @ rest)"
    by simp_all
  from recv_payload_some [OF l(1) e(1) l(2) e(2,3) l(3)] obtain s3 where
    s3: "msg_recv_payload (of_nat FileInfo_size) msg s2 = Some (0, msg\<lparr>payload := Some (enc_info info)\<rparr>, s3)"
      "incoming s3 = chunks @ rest" "rx_step s2 s3" "quiet s3" by blast
  have f3: "fs s3 = fs s" "tx s3 = tx s" "man s3 = man s"
    using rx_step_fs [OF s3(3)] io_state [OF rx_step_same [OF s3(3)]] s3(3) m' by (simp_all add: rx_step_def state_same_def)
  from room f3(3) obtain u where u: "users (man s3) user = Some u" "wf_user u" "session_list u = []" "1 < u_sessions_capacity u"
    "\<not> u_total_space u < u_used_space u + fi_size info" unfolding room_for_def i(5) by auto
  have f': "lookup (fs s3) (storage_segs @ [uuid_unparse L t]) = Some (NDir es)" "lookup (fs s3) (user_place L t b) = None"
    using f f3(1) by simp_all
  from upload_file_quiet [OF L s3(4) u b i(3) f' size i(6,7) s3(2)] obtain s4 r where
    s4: "upload_file L user t info local s3 = Some s4" "tx s4 = tx s3 @ r" "upload_answers (chunk_count_of (length data)) r"
      "lookup (fs s4) (user_place L t b) = Some (NFile data)" "same_files (user_place L t b) (fs s3) (fs s4)"
      "quiet s4" "same_map s3 s4" and
    u': "\<exists>u'. users (man s4) user = Some u' \<and> idle u u'" by blast
  have pi: "payload_info (msg\<lparr>payload := Some (enc_info info)\<rparr>) = Some info"
    using len fi.dec_enc [OF i(3)] by (simp add: payload_info_def)
  have "handle_upload L user msg s2 = Some s4"
    using m(2) s3(1) pi i(4) m' s4(1) by (simp add: handle_upload_def handle_recv_error_def)
  then have "on_readable L fd s = Some (on_client_disconnected fd s4)" by (intro run) (simp add: on_stream_req_def)
  moreover have "idle_user user s (on_client_disconnected fd s4)" "same_map s (on_client_disconnected fd s4)"
    using u(1) u' f3(3) s4(7) by (auto simp: idle_user_def same_map_def)
  ultimately show ?thesis using s4(2-6) f3(1,2) by auto
qed

section \<open>Properties\<close>

text \<open>
  C2. Uploading a file, client and server together. The client with a token describes the file,
  sends the request and, from the first chunk on, all its chunks; the event loop of a server that
  knows the token and has room for the file then holds exactly these bytes under the base name in
  the user's directory and has touched no other file; it answers with the chunk to start from, an
  acknowledgement for each chunk and UPLOAD_FIN, which is what the command needs to report
  "upload done!" and end with status 0; the session is gone and the descriptor is closed.
\<close>

theorem upload_end_to_end:
  fixes c :: "'a client_scheme"
  assumes "lib_ok L" "quiet c" "has_token L E t c" "resolve c local = Inr p" "lookup (fs c) p = Some (NFile data)"
    "NUL \<notin> set local" "length data \<le> 2 ^ 24" "strrchr local CHR ''/'' = Some (CHR ''/'' # b)" "plain_name b"
    "upload_answers (chunk_count_of (length data)) (incoming c)"
  shows "\<exists>w c'. cmd_upload L E prog (local # args) c = Some (0, c') \<and> out c' = out c @ [''seq: 0'', ''upload done: res=0'', ''upload done!''] \<and>
    tx c' = tx c @ w \<and> fs c' = fs c \<and>
    (\<forall>s rest user es. quiet s \<and> incoming s = w @ rest \<and> knows L t user s \<and> room_for user (length data) s \<and>
       lookup (fs s) (storage_segs @ [uuid_unparse L t]) = Some (NDir es) \<and> lookup (fs s) (user_place L t b) = None \<longrightarrow>
       (\<exists>s' r. on_readable L fd s = Some s' \<and> tx s' = tx s @ r \<and> upload_answers (chunk_count_of (length data)) r \<and>
          lookup (fs s') (user_place L t b) = Some (NFile data) \<and> same_files (user_place L t b) (fs s) (fs s') \<and>
          idle_user user s s' \<and> open_fds s' fd = None))"
proof -
  from cmd_upload_quiet [OF assms(1-7,10)] obtain w c' where
    c': "cmd_upload L E prog (local # args) c = Some (0, c')" "out c' = out c @ [''seq: 0'', ''upload done: res=0'', ''upload done!'']" "tx c' = tx c @ w"
      "upload_bytes L t local data w" "fs c' = fs c" by blast
  have "\<exists>s' r. on_readable L fd s = Some s' \<and> tx s' = tx s @ r \<and> upload_answers (chunk_count_of (length data)) r \<and>
      lookup (fs s') (user_place L t b) = Some (NFile data) \<and> same_files (user_place L t b) (fs s) (fs s') \<and>
      idle_user user s s' \<and> open_fds s' fd = None"
    if s: "quiet s" "incoming s = w @ rest" "knows L t user s" "room_for user (length data) s"
      "lookup (fs s) (storage_segs @ [uuid_unparse L t]) = Some (NDir es)" "lookup (fs s) (user_place L t b) = None"
    for s rest user es
    using on_readable_upload [OF assms(1) s(1,3) c'(4) s(2,4) assms(8,9) s(5,6) assms(7)] by blast
  with c' show ?thesis by blast
qed

definition sample_answers :: "byte list" where
  "sample_answers = sample_message MSGTYPE_UPLOAD_RES (le_of_u64 0) @ enc_hdr sample_ok @
     sample_message MSGTYPE_UPLOAD_FIN (cbytes upload_done)"

definition local_dir :: "string \<times> node" where
  "local_dir = (''d'', NDir [(''f'', NFile [1, 2, 3])])"

abbreviation uploader :: client where
  "uploader \<equiv> sample_client [token_dir, local_dir] sample_answers"

lemma sample_upload:
  "resolve uploader ''/d/f'' = Inr [''d'', ''f'']" "lookup (fs uploader) [''d'', ''f''] = Some (NFile [1, 2, 3])"
  "NUL \<notin> set ''/d/f''" "length [1, 2, 3 :: byte] \<le> 2 ^ 24"
  "strrchr ''/d/f'' CHR ''/'' = Some (CHR ''/'' # ''f'')" "plain_name ''f''"
  "upload_answers (chunk_count_of (length [1, 2, 3 :: byte])) (incoming uploader)"
proof -
  have N: "chunk_count_of (length [1, 2, 3 :: byte]) = 1" by (simp add: chunk_count_exact pieces_def)
  show "upload_answers (chunk_count_of (length [1, 2, 3 :: byte])) (incoming uploader)"
    using sample_ack_stream [of 1] sample_message [of MSGTYPE_UPLOAD_RES "le_of_u64 0"]
      sample_message [of MSGTYPE_UPLOAD_FIN "cbytes upload_done"] unfolding N upload_answers_def sample_answers_def by auto
qed (simp_all add: resolve_def path_comps_def PATH_MAX_def token_dir_def local_dir_def NUL_def plain_name_def plain_seg_def seg_ok_def)

text \<open>A server that has just made a user and its directory takes the file.\<close>

lemma sample_room:
  assumes "users (man s) user = Some (user_init (sample_token 0 1) (\<lambda>_. 0) (Some (sample_token 0 1)))"
    "fs s = NDir (sample_storage [])"
  shows "room_for user (length [1, 2, 3 :: byte]) s" "lookup (fs s) (storage_segs @ [sample_uuid True]) = Some (NDir [])"
    "lookup (fs s) (user_place client_lib (sample_token 0 1) ''f'') = None"
proof -
  show "room_for user (length [1, 2, 3 :: byte]) s"
    using assms(1) by (simp add: room_for_def user_init_def wf_user_def session_list_def MAX_USER_SPACE_def)
  show "lookup (fs s) (storage_segs @ [sample_uuid True]) = Some (NDir [])" using sample_top [of "[]"] assms(2) by simp
  then show "lookup (fs s) (user_place client_lib (sample_token 0 1) ''f'') = None"
    unfolding user_place_def using lookup_append [of "fs s" "storage_segs @ [sample_uuid True]" "[''f'']"] by simp
qed

theorem upload_end_to_end_witness:
  "\<exists>w c' s' m. cmd_upload client_lib (sample_env ''/s'') ''minidropbox'' [''/d/f'']
      (sample_client [token_dir, local_dir] sample_answers) = Some (0, c') \<and>
    out c' = [''seq: 0'', ''upload done: res=0'', ''upload done!''] \<and> tx c' = w \<and>
    on_readable client_lib 5 (sample_server (sample_storage []) w m no_objects) = Some s' \<and>
    lookup (fs s') (storage_segs @ [sample_uuid True, ''f'']) = Some (NFile [1, 2, 3])"
proof -
  let ?c = uploader
  have q: "quiet ?c" by simp
  from upload_end_to_end [OF client_lib_ok q sample_has_token sample_upload, where fd = 5 and prog = "''minidropbox''" and args = "[]"]
  obtain w c' where c': "cmd_upload client_lib (sample_env ''/s'') ''minidropbox'' [''/d/f''] ?c = Some (0, c')"
    "out c' = out ?c @ [''seq: 0'', ''upload done: res=0'', ''upload done!'']" "tx c' = tx ?c @ w" and
    server: "\<forall>s rest user es. quiet s \<and> incoming s = w @ rest \<and> knows client_lib (sample_token 0 1) user s \<and>
       room_for user (length [1, 2, 3 :: byte]) s \<and>
       lookup (fs s) (storage_segs @ [uuid_unparse client_lib (sample_token 0 1)]) = Some (NDir es) \<and>
       lookup (fs s) (user_place client_lib (sample_token 0 1) ''f'') = None \<longrightarrow>
       (\<exists>s' r. on_readable client_lib 5 s = Some s' \<and> tx s' = tx s @ r \<and>
          upload_answers (chunk_count_of (length [1, 2, 3 :: byte])) r \<and>
          lookup (fs s') (user_place client_lib (sample_token 0 1) ''f'') = Some (NFile [1, 2, 3]) \<and>
          same_files (user_place client_lib (sample_token 0 1) ''f'') (fs s) (fs s') \<and>
          idle_user user s s' \<and> open_fds s' 5 = None)" by blast
  from sample_known [of "sample_storage []" w] obtain m user where
    k: "knows client_lib (sample_token 0 1) user (sample_server (sample_storage []) w m no_objects)"
      "users m user = Some (user_init (sample_token 0 1) (\<lambda>_. 0) (Some (sample_token 0 1)))" by blast
  let ?s = "sample_server (sample_storage []) w m no_objects"
  have "users (man ?s) user = Some (user_init (sample_token 0 1) (\<lambda>_. 0) (Some (sample_token 0 1)))"
    "fs ?s = NDir (sample_storage [])" using k(2) by simp_all
  note room = sample_room [OF this]
  then obtain s' where s': "on_readable client_lib 5 ?s = Some s'"
    "lookup (fs s') (user_place client_lib (sample_token 0 1) ''f'') = Some (NFile [1, 2, 3])"
    using server [rule_format, of ?s "[]" user "[]"] k(1) by auto
  with c' show ?thesis by (auto simp: user_place_def)
qed

end
