(* ===== verification/Downloads.thy ===== *)
theory Downloads
  imports Transfers
begin

text \<open>
  The download of a file, client and server together: the request, the answer with the description
  of the file, its chunks and their acknowledgements, and the end.
\<close>

section \<open>The path of a plain name\<close>

text \<open>normalize_path leaves a path of plain components as it is.\<close>

lemma component_plain:
  assumes "abs_out st buf" "plain_seg seg" "normalize_component True cap seg buf = Some buf'"
  shows "buf' = render_abs (st @ [seg])"
proof -
  from assms(2) have seg: "seg_ok seg" "seg \<noteq> ''.''" "seg \<noteq> ''..''" by (simp_all add: plain_seg_def)
  with assms(3) obtain o1 where "buf' = o1 @ seg"
    by (auto simp: normalize_component_def out_put_def bind_eq_Some_conv split: if_splits)
  then have "last buf' \<noteq> CHR ''/''" using seg(1) by (auto simp: seg_ok_def dest!: last_in_set)
  moreover have "abs_out (st @ [seg]) buf'"
    using abs_out_component [OF assms(1) seg(1) assms(3)] seg(2,3) by (simp add: abs_step_def)
  ultimately show ?thesis by (auto simp: abs_out_def)
qed

lemma normalize_loop_plain:
  "normalize_loop True cap p buf = Some buf' \<Longrightarrow> buf = render_abs st \<Longrightarrow> \<forall>s \<in> set st. plain_seg s \<Longrightarrow>
   \<forall>s \<in> set (segments p). plain_seg s \<Longrightarrow> buf' = render_abs (st @ segments p)"
proof (induction True cap p buf arbitrary: st rule: normalize_loop.induct)
  case (1 cap buf)
  then show ?case by simp
next
  case (2 cap c p buf)
  show ?case
  proof (cases "c = CHR ''/''")
    case True
    with 2 show ?thesis by simp
  next
    case False
    let ?seg = "c # takeWhile non_slash p"
    from False 2(3) obtain o1 where
      comp: "normalize_component True cap ?seg buf = Some o1" and
      rest: "normalize_loop True cap (dropWhile non_slash p) o1 = Some buf'"
      by (auto simp: bind_eq_Some_conv)
    have segs: "segments (c # p) = ?seg # segments (dropWhile non_slash p)" using False by simp
    have "abs_out st buf" using 2(4,5) by (simp add: abs_out_def)
    from component_plain [OF this _ comp] 2(6) have "o1 = render_abs (st @ [?seg])" unfolding segs by simp
    from 2(2) [OF False comp rest this] 2(5,6) show ?thesis unfolding segs by simp
  qed
qed

lemma normalized_plain:
  assumes "p \<noteq> []" "hd p = CHR ''/''" "\<forall>s \<in> set (segments p). plain_seg s"
  shows "normalized p = render_abs (segments p)"
proof -
  from assms(1,2) normalize_path_runs [of p] obtain buf where
    buf: "normalize_loop True (length p + 2) p ''/'' = Some buf"
      "normalize_path True (Some p) = Some (Some (if buf = [] then ''.'' else buf))" by auto
  have "''/'' = render_abs []" by (simp add: render_abs_def)
  from normalize_loop_plain [OF buf(1) this] assms(3) have "buf = render_abs (segments p)" by simp
  moreover have "render_abs (segments p) \<noteq> []" by (simp add: render_abs_def render_tail_nonempty)
  ultimately show ?thesis using buf(2) by (simp add: normalized_def)
qed

lemma user_path_plain:
  assumes u: "uuid_text (uuid_unparse L)" and b: "plain_name b"
  shows "get_user_path (uuid_unparse L) True b t = Some (Some (render_tail (user_place L t b)))"
proof -
  note p = user_place_path [OF u b, of t]
  have k: "kept_path b = b" using b by (simp add: kept_path_def plain_name_def)
  have ne: "render_tail (user_place L t b) \<noteq> []" "hd (render_tail (user_place L t b)) = CHR ''/''"
    using p(2) by (simp_all add: plain_path_def)
  have "\<forall>s \<in> set (user_place L t b). plain_seg s"
    using p(2) unfolding plain_path_def p(3) by (simp add: plain_name_def)
  then have n: "normalized (render_tail (user_place L t b)) = render_tail (user_place L t b)"
    using normalized_plain [OF ne] unfolding p(3) by (simp add: render_abs_def user_place_def)
  have "prefix (get_user_root (uuid_unparse L) t) (render_tail (user_place L t b))"
    unfolding p(1) [symmetric] by (simp add: prefix_def)
  then show ?thesis
    using get_user_path_eq [OF u, of b t] p(1) n k by (simp add: Let_def)
qed

section \<open>The bytes of a download\<close>

definition download_bytes :: "uuid \<Rightarrow> string \<Rightarrow> nat \<Rightarrow> byte list \<Rightarrow> bool" where
  "download_bytes t remote n w \<longleftrightarrow> (\<exists>info req acks fin. w = req @ acks @ fin \<and>
     requested MSGTYPE_DOWNLOAD_REQ t (enc_info info) req \<and> wf_info info \<and> info_name info = Some remote \<and>
     fi_size info = 0 \<and> ack_stream n acks \<and> message MSGTYPE_DOWNLOAD_FIN [] fin)"

definition download_answers :: "lib \<Rightarrow> byte list \<Rightarrow> byte list \<Rightarrow> bool" where
  "download_answers L data r \<longleftrightarrow> (\<exists>info name r1 chunks. r = r1 @ chunks \<and>
     message MSGTYPE_DOWNLOAD_RES (enc_info info) r1 \<and> wf_info info \<and> info_name info = Some name \<and>
     fi_size info = of_nat (length data) \<and> fi_chunk_count info = of_nat (chunk_count_of (length data)) \<and>
     chunk_stream (sha256 L) data 0 (chunk_count_of (length data)) chunks)"

lemma enc_info_bounds:
  assumes "wf_info info"
  shows "enc_info info \<noteq> []" "length (enc_info info) = FileInfo_size" "length (enc_info info) \<le> 8192"
    "length (enc_info info) < 2 ^ 64" "of_nat (length (enc_info info)) \<le> (of_nat FileInfo_size :: usize)"
    "of_nat (length (enc_info info)) \<le> (8192 :: usize)"
  using fi.length_enc [OF assms] by (auto simp: FileInfo_size_def PATH_MAX_def)

lemma payload_info_enc: "wf_info info \<Longrightarrow> payload_info (m\<lparr>payload := Some (enc_info info)\<rparr>) = Some info"
  using fi.length_enc fi.dec_enc by (simp add: payload_info_def)

section \<open>The server's side\<close>

text \<open>From the answer on, with a session that was just opened.\<close>

lemma download_send_quiet:
  assumes L: "lib_ok L" and q: "quiet s" and info: "wf_info info" "fi_size info = 0"
    and f: "resolve s name = Inr p" "lookup (fs s) p = Some (NFile data)" "NUL \<notin> set name" "length data \<le> 2 ^ 24"
    and acks: "incoming s = acks @ rest" "ack_stream (chunk_count_of (length data)) acks"
    and mem: "users (man s) user = Some u1" "sess (objs s) x = Some ss" "s_file_info ss = a" "s_type ss = SESS_DOWNLOAD"
    and rm: "\<forall>m ss. session_at m x = Some (ss, name) \<and> s_type ss = SESS_DOWNLOAD \<longrightarrow>
      (\<exists>u2. user_remove_session m u1 SESS_DOWNLOAD name = Some (0, u2) \<and> idle u u2)"
  shows "\<exists>s' r. download_send L user x a info name s = Some s' \<and> tx s' = tx s @ r \<and> download_answers L data r \<and>
    fs s' = fs s \<and> (\<exists>u2. users (man s') user = Some u2 \<and> idle u u2)"
proof -
  have sha: "\<And>b. length (sha256 L b) = 32" using L by (simp add: lib_ok_def)
  have plan: "fs_plan s = []" using q by (simp add: quiet_def)
  from fileinfo_quiet [where sha = "sha256 L", OF sha plan f(1,2) info(1)] f(3) obtain i where
    i: "fileinfo_from_filename (sha256 L) name info s = Some (0, i, s)" "wf_info i" "fi_size i = of_nat (length data)"
      "fi_chunk_count i = of_nat (chunk_count_of (length data))" "info_name i = Some name" by blast
  let ?s1 = "set_info a i s"
  have tq: "tx_quiet (tx_plan ?s1)" using q by (simp add: set_info_def quiet_def)
  note e = enc_info_bounds [OF i(2)]
  from send_msg_quiet [OF tq e(1,4), of MSGTYPE_DOWNLOAD_RES] obtain s2 where
    s2: "send_download_res (enc_info i) (of_nat FileInfo_size) ?s1 = Some (0, s2)" "replied MSGTYPE_DOWNLOAD_RES (enc_info i) ?s1 s2"
      "tx_step ?s1 s2" "tx_quiet (tx_plan s2)" unfolding send_download_res_def e(2) by blast
  have q2: "quiet s2" by (rule quiet_tx_step [OF _ s2(3,4)]) (use q in \<open>simp add: set_info_def quiet_def\<close>)
  have f2: "fs s2 = fs s" "cwd s2 = cwd s" "incoming s2 = acks @ rest"
    using io_sameD [OF tx_step_same [OF s2(3)]] s2(3) acks(1) by (auto simp: set_info_def tx_step_def)
  have r2: "resolve s2 name = Inr p" "lookup (fs s2) p = Some (NFile data)" "length data < 2 ^ 36"
    "ack_stream (chunk_count_of (length data) - 0) acks"
    using resolve_same [OF f2(1,2)] f f2(1) acks(2) by simp_all
  from file_send_stream [where sha = "sha256 L", OF sha q2 r2(1-3) _ r2(4) f2(3)] obtain s3 chunks where
    s3: "file_send (sha256 L) name (of_nat 0) s2 = Some (\<lparr>last_chunk_sent = of_nat (chunk_count_of (length data)), send_error_code = 0\<rparr>, s3)"
      "tx s3 = tx s2 @ chunks" "chunk_stream (sha256 L) data 0 (chunk_count_of (length data)) chunks" "fs s3 = fs s2" by auto
  have st: "man s3 = man s" "objs s3 = objs ?s1"
    using io_state [OF tx_step_same [OF s2(3)]] io_state [OF file_send_same [OF s3(1)]]
    by (simp_all add: state_same_def set_info_def)
  have "session_at (objs s3) x = Some (ss, name)"
    using mem(2,3) i(5) st(2) by (simp add: session_at_def set_info_def)
  with mem(4) rm obtain u2 where
    u2: "user_remove_session (objs s3) u1 SESS_DOWNLOAD name = Some (0, u2)" "idle u u2"
    by blast
  have "download_send L user x a info name s = Some (set_user user u2 s3)"
    using i(1,5) info(2) s2(1) s3(1) mem(1) st(1) u2(1) by (simp add: download_send_def close_session_def)
  moreover obtain r1 where "message MSGTYPE_DOWNLOAD_RES (enc_info i) r1" "tx s2 = tx s @ r1"
    using s2(2) unfolding replied_message by (auto simp: set_info_def)
  with s3(2,3) i(2-5) have "tx s3 = tx s @ r1 @ chunks" "download_answers L data (r1 @ chunks)"
    unfolding download_answers_def by auto
  ultimately show ?thesis using u2 s3(4) f2(1) by (intro exI [of _ "set_user user u2 s3"]) (auto simp: set_user_def)
qed

lemma handle_download_quiet:
  assumes L: "lib_ok L" and q: "quiet s" and user: "user \<noteq> NULL" and msg: "hdr_token (hdr msg) = t"
    "hdr_length (hdr msg) = of_nat (length (enc_info info))" "incoming s = enc_info info @ acks @ rest"
    and info: "wf_info info" "info_name info = Some b" "fi_size info = 0" and b: "plain_name b"
    and f: "lookup (fs s) (user_place L t b) = Some (NFile data)" "length data \<le> 2 ^ 24"
    and acks: "ack_stream (chunk_count_of (length data)) acks"
    and u: "users (man s) user = Some u" "wf_user u" "session_list u = []" "1 < u_sessions_capacity u"
  shows "\<exists>s' r. handle_download L user msg s = Some s' \<and> tx s' = tx s @ r \<and> download_answers L data r \<and> fs s' = fs s \<and>
    (\<exists>u2. users (man s') user = Some u2 \<and> idle u u2)"
proof -
  have ut: "uuid_text (uuid_unparse L)" using L by (simp add: lib_ok_def)
  let ?name = "render_tail (user_place L t b)"
  note e = enc_info_bounds [OF info(1)]
  from recv_payload_some [OF q e(1) msg(2) e(3,5) msg(3)] obtain s1 where
    s1: "msg_recv_payload (of_nat FileInfo_size) msg s = Some (0, msg\<lparr>payload := Some (enc_info info)\<rparr>, s1)"
      "incoming s1 = acks @ rest" "rx_step s s1" "quiet s1" by blast
  have f1: "fs s1 = fs s" "man s1 = man s" "tx s1 = tx s"
    using rx_step_fs [OF s1(3)] io_state [OF rx_step_same [OF s1(3)]] s1(3) by (simp_all add: state_same_def rx_step_def)
  have "user_place L t b \<noteq> []" by (simp add: user_place_def)
  from lookup_place [OF f(1) this] obtain es where
    es: "lookup (fs s) (storage_segs @ [uuid_unparse L t]) = Some (NDir es)"
    by (auto simp: place_def user_place_def butlast_append)
  have r: "resolve c ?name = Inr (user_place L t b)" if "fs c = fs s" for c :: server
    using user_place_resolve(1) [OF ut b, of c t es] es that by simp
  let ?s2 = "s1\<lparr>errno := 0\<rparr>"
  have plan: "fs_plan ?s2 = []" using s1(4) by (simp add: quiet_def)
  have ex: "file_exists ?name s1 = (1, ?s2)"
    using r [of ?s2] f(1) f1(1) by (simp add: file_exists_def open_rd_def at_path_quiet [OF plan])
  let ?a = "brk ?s2"
  obtain s3 where s3: "new_info info ?s2 = (?a, s3)" "io_eq ?s2 s3" "man s3 = man s1" "infos (objs s3) ?a = Some info"
    by (auto simp: new_info_def io_eq_def same_map_def)
  from open_session_new [OF _ u(2-4) s3(4), of user SESS_DOWNLOAD ?name] u(1) s3(3) f1(2) obtain x u1 s4 ss where
    s4: "open_session SESS_DOWNLOAD user ?a ?name s3 = Some (0, x, s4)" "io_eq s3 s4" "users (man s4) user = Some u1"
      "sess (objs s4) x = Some ss" "s_type ss = SESS_DOWNLOAD" "s_file_info ss = ?a" and
    rm: "\<forall>m ss. session_at m x = Some (ss, ?name) \<and> s_type ss = SESS_DOWNLOAD \<longrightarrow>
      (\<exists>u2. user_remove_session m u1 SESS_DOWNLOAD ?name = Some (0, u2) \<and> idle u u2)" by auto
  have f4: "fs s4 = fs s" "tx s4 = tx s" "quiet s4" "incoming s4 = acks @ rest"
    using s3(2) s4(2) s1(2,4) f1 by (simp_all add: io_eq_def quiet_def)
  have f': "lookup (fs s4) (user_place L t b) = Some (NFile data)" "NUL \<notin> set ?name"
    using f(1) f4(1) user_place_path(5) [OF ut b, of t] by simp_all
  from download_send_quiet [OF L f4(3) info(1,3) r [OF f4(1)] f' f(2) f4(4) acks s4(3,4,6,5) rm] obtain s5 r5 where
    s5: "download_send L user x ?a info ?name s4 = Some s5" "tx s5 = tx s4 @ r5" "download_answers L data r5" "fs s5 = fs s4" and
    u2: "\<exists>u2. users (man s5) user = Some u2 \<and> idle u u2" by blast
  have "handle_download L user msg s = Some s5"
    using user s1(1) payload_info_enc [OF info(1)] info(2) msg(1) user_path_plain [OF ut b, of t] ex s3(1) s4(1) s5(1)
    by (simp add: handle_download_def handle_recv_error_def)
  with s5(2-4) u2 f4(1,2) show ?thesis by auto
qed

text \<open>A user of the server without transfers.\<close>

definition no_transfers :: "addr \<Rightarrow> server \<Rightarrow> bool" where
  "no_transfers user s \<longleftrightarrow>
     (\<exists>u. users (man s) user = Some u \<and> wf_user u \<and> session_list u = [] \<and> 1 < u_sessions_capacity u)"

lemma on_readable_download:
  assumes L: "lib_ok L" and q: "quiet s" and k: "knows L t user s"
    and w: "download_bytes t b (chunk_count_of (length data)) w" "incoming s = w @ rest"
    and free: "no_transfers user s" and b: "plain_name b"
    and f: "lookup (fs s) (user_place L t b) = Some (NFile data)" "length data \<le> 2 ^ 24"
  shows "\<exists>s' r. on_readable L fd s = Some s' \<and> tx s' = tx s @ r \<and> download_answers L data r \<and> fs s' = fs s \<and>
    idle_user user s s' \<and> open_fds s' fd = None"
proof -
  from w(1) obtain info req acks fin where i: "w = req @ acks @ fin" "requested MSGTYPE_DOWNLOAD_REQ t (enc_info info) req"
    "wf_info info" "info_name info = Some b" "fi_size info = 0" "ack_stream (chunk_count_of (length data)) acks"
    by (auto simp: download_bytes_def)
  have inc: "incoming s = req @ (acks @ fin @ rest)" using w(2) i(1) by simp
  have ty: "MSGTYPE_DOWNLOAD_REQ \<in> {MSGTYPE_UPLOAD_REQ, MSGTYPE_DOWNLOAD_REQ, MSGTYPE_LIST_REQ}" by simp
  from on_readable_stream [OF q k i(2) inc ty, of fd] obtain msg s2 where
    m: "taken MSGTYPE_DOWNLOAD_REQ t (enc_info info) (acks @ fin @ rest) s msg s2" "user \<noteq> NULL" and
    run: "\<And>s3. on_stream_req L MSGTYPE_DOWNLOAD_REQ fd user msg s2 = Some s3 \<Longrightarrow> on_readable L fd s = Some s3" by blast
  from m(1) have m': "quiet s2" "hdr_token (hdr msg) = t" "hdr_length (hdr msg) = of_nat (length (enc_info info))"
    "incoming s2 = enc_info info @ acks @ fin @ rest" "fs s2 = fs s" "tx s2 = tx s" "man s2 = man s" by (simp_all add: taken_def)
  from free m'(7) obtain u where u: "users (man s2) user = Some u" "wf_user u" "session_list u = []" "1 < u_sessions_capacity u"
    unfolding no_transfers_def by auto
  have f': "lookup (fs s2) (user_place L t b) = Some (NFile data)" using f(1) m'(5) by simp
  from handle_download_quiet [OF L m'(1) m(2) m'(2-4) i(3-5) b f' f(2) i(6) u] obtain s4 r where
    s4: "handle_download L user msg s2 = Some s4" "tx s4 = tx s2 @ r" "download_answers L data r" "fs s4 = fs s2" and
    u': "\<exists>u'. users (man s4) user = Some u' \<and> idle u u'" by blast
  have "on_readable L fd s = Some (on_client_disconnected fd s4)" by (intro run) (simp add: on_stream_req_def s4(1))
  moreover have "idle_user user s (on_client_disconnected fd s4)" using u(1) u' m'(7) by (auto simp: idle_user_def)
  ultimately show ?thesis using s4(2-4) m'(5,6) by auto
qed

section \<open>The client's side\<close>

lemma wf_zero_info: "wf_info zero_info"
  by (simp add: wf_info_def zero_info_def)

lemma download_request_new:
  assumes "fs_plan c = []" "resolve c local = Inr p" "lookup (fs c) p = None" "NUL \<notin> set remote" "length remote < PATH_MAX"
  shows "\<exists>info. download_request E remote local c = Some (info, fail_with ENOENT c) \<and> wf_info info \<and>
    info_name info = Some remote \<and> fi_size info = 0"
proof -
  obtain i where i: "set_filename remote zero_info = Some i" using assms(5) by (simp add: set_filename_def zero_info_def)
  have "lstat local c = (None, fail_with ENOENT c)"
    using assms(2,3) by (simp add: lstat_def at_path_quiet [OF assms(1)])
  moreover have "fi_size i = 0" using i by (auto simp: set_filename_def zero_info_def split: if_splits)
  ultimately show ?thesis
    using i wf_set_filename [OF i wf_zero_info] set_filename_name [OF i assms(4)] by (simp add: download_request_def)
qed

lemma download_chunks_quiet:
  fixes c :: "'a client_scheme"
  assumes L: "lib_ok L" and q: "quiet c" and p: "resolve c local = Inr p" "lookup (fs c) p = None" "NUL \<notin> set local"
    and size: "length data \<le> 2 ^ 24" and info: "wf_info info" "info_name info = Some name"
      "fi_chunk_count info = of_nat (chunk_count_of (length data))"
    and msg: "hdr_length (hdr msg) = of_nat (length (enc_info info))" "wf_hdr (hdr msg)"
    and inc: "incoming c = enc_info info @ chunks" "chunk_stream (sha256 L) data 0 (chunk_count_of (length data)) chunks"
  shows "\<exists>acks fin c'. download_chunks L local msg c = Some (0, c') \<and> out c' = out c @ [''download done: res=0''] \<and>
    tx c' = tx c @ acks @ fin \<and> ack_stream (chunk_count_of (length data)) acks \<and> message MSGTYPE_DOWNLOAD_FIN [] fin \<and>
    lookup (fs c') p = Some (NFile data) \<and> same_files p (fs c) (fs c')"
proof -
  let ?N = "chunk_count_of (length data)"
  note e = enc_info_bounds [OF info(1)]
  from recv_payload_some [OF q e(1) msg(1) e(3,6) inc(1)] obtain c1 where
    c1: "msg_recv_payload 8192 msg c = Some (0, msg\<lparr>payload := Some (enc_info info)\<rparr>, c1)" "incoming c1 = chunks @ []"
      "rx_step c c1" "quiet c1" by auto
  have f1: "fs c1 = fs c" "cwd c1 = cwd c" "tx c1 = tx c" "out c1 = out c"
    using io_sameD [OF rx_step_same [OF c1(3)]] c1(3) step_out(2) [OF c1(3)] by (auto simp: rx_step_def)
  have r1: "resolve c1 local = Inr p" using resolve_same [OF f1(1,2)] p(1) by simp
  have "length local < length (fi_filename info)" using resolve_length [OF p(1)] info(1) by (simp add: wf_info_def)
  then obtain i where i: "set_filename local info = Some i" by (simp add: set_filename_def)
  have iname: "info_name i = Some local" by (rule set_filename_name [OF i p(3)])
  have cnt: "fi_chunk_count i = of_nat ?N" using i info(3) by (auto simp: set_filename_def split: if_splits)
  have free: "lookup (fs c1) p = None" "place (fs c1) p" using resolve_place [OF p(1,2)] p(2) f1(1) by simp_all
  from file_recv_new [OF L c1(4) iname r1 free size cnt inc(2) c1(2)] obtain c2 acks where
    c2: "file_recv (sha256 L) i c1 = Some (\<lparr>last_chunk_recvd = of_nat ?N, recv_error_code = 0\<rparr>, c2)"
      "tx c2 = tx c1 @ acks" "ack_stream ?N acks" "quiet c2" "same_files p (fs c1) (fs c2)"
      "lookup (fs c2) p = Some (NFile data)" by auto
  have o2: "out c2 = out c1" by (rule client_more) (use file_recv_io [OF c2(1)] in \<open>simp add: io_rel_def\<close>)
  let ?c3 = "say ''download done: res=0'' c2" and ?m = "msg\<lparr>payload := Some (enc_info info)\<rparr>"
  have tq: "tx_quiet (tx_plan ?c3)" using c2(4) by (simp add: say_def quiet_def)
  have wf: "wf_hdr (hdr ?m)" using msg(2) by simp
  from msg_send_reply [OF wf tq, of "[]" None MSGTYPE_DOWNLOAD_FIN] obtain m' c4 where
    c4: "msg_send (msg_init ?m MSGTYPE_DOWNLOAD_FIN None 0) None 0 ?c3 = Some (0, m', c4)"
      "replied MSGTYPE_DOWNLOAD_FIN [] ?c3 c4" "tx_step ?c3 c4" by auto
  obtain fin where fin: "message MSGTYPE_DOWNLOAD_FIN [] fin" "tx c4 = tx c2 @ fin"
    using c4(2) unfolding replied_message by auto
  have "download_chunks L local msg c = Some (0, c4)"
    using c1(1) payload_info_enc [OF info(1)] info(2) i c2(1) c4(1)
    by (simp add: download_chunks_def handle_recv_error_def)
  moreover have "fs c4 = fs c2" "out c4 = out c @ [''download done: res=0'']"
    using tx_step_fs [OF c4(3)] step_out(1) [OF c4(3)] o2 f1(4) by simp_all
  ultimately show ?thesis using fin c2(2,3,5,6) f1(1,3) by (intro exI [of _ acks] exI [of _ fin] exI [of _ c4]) simp
qed

lemma uninit_msg_out: "out (snd (uninit_msg c)) = out (c :: 'a client_scheme)"
  by (rule step_out(2)) (rule uninit_msg_frame)

lemma uninit_msg_quiet:
  fixes c :: "'a client_scheme"
  assumes "uninit_msg c = (m0, c0)" "quiet c"
  shows "wf_hdr (hdr m0)" "fs c0 = fs c" "cwd c0 = cwd c" "quiet c0" "rx c0 = rx c" "tx c0 = tx c" "out c0 = out c"
proof -
  have "rx_step c c0" "rx c0 = rx c" using uninit_msg_frame [of c] assms(1) by simp_all
  with assms(2) quiet_rx_step [of c c0] show "quiet c0" by (simp add: quiet_def)
qed (use assms(1) wf_uninit_msg [of c] uninit_msg_frame [of c] uninit_msg_out [of c] io_sameD [OF uninit_msg_same [OF assms(1)]] in simp_all)

text \<open>A request with a payload, from the token file to the last byte.\<close>

lemma command_request:
  fixes c :: "'a client_scheme"
  assumes L: "lib_ok L" and q: "quiet c" and tok: "has_token L E t c" and u: "uninit_msg c = (m0, c0)"
    and bytes: "bytes \<noteq> []" "length bytes < 2 ^ 64"
  shows "\<exists>c1 m c2 w. load_token L E (hdr_token (hdr m0)) c0 = Some (0, t, c1) \<and>
    msg_send (msg_init (set_token t m0) ty (Some bytes) (of_nat (length bytes))) None 0 c1 = Some (0, m, c2) \<and>
    tx c2 = tx c @ w \<and> requested ty t bytes w \<and> quiet c2 \<and> wf_hdr (hdr m) \<and> incoming c2 = incoming c \<and>
    out c2 = out c \<and> fs c2 = fs c"
proof -
  note m0 = uninit_msg_quiet(1) [OF u q] and c0 = uninit_msg_quiet(2-) [OF u q]
  from has_token_load [OF L c0(3) has_token_same [OF tok c0(1)], of "hdr_token (hdr m0)"] obtain c1 where
    c1: "load_token L E (hdr_token (hdr m0)) c0 = Some (0, t, c1)" "io_becomes c0 (fs c0) c1" by blast
  have t: "length t = 16" using tok by (simp add: has_token_def)
  have pl: "bytes = [] \<and> Some bytes = None \<or> bytes \<noteq> [] \<and> Some bytes = Some bytes" using bytes(1) by simp
  from send_request [OF m0 t io_becomes_quiet [OF c1(2) c0(3)] pl bytes(2), of ty] obtain m c2 w where
    c2: "msg_send (msg_init (set_token t m0) ty (Some bytes) (of_nat (length bytes))) None 0 c1 = Some (0, m, c2)"
      "tx c2 = tx c1 @ w" "requested ty t bytes w" "tx_step c1 c2" "quiet c2" "wf_hdr (hdr m)" by blast
  have "incoming c2 = incoming c" using c2(4) io_becomesD [OF c1(2)] c0(4) by (simp add: tx_step_def)
  moreover have "out c2 = out c" "tx c2 = tx c @ w" "fs c2 = fs c"
    using step_out(1) [OF c2(4)] io_becomes_out [OF c1(2)] c2(2) io_becomesD [OF c1(2)] c0 tx_step_fs [OF c2(4)] by simp_all
  ultimately show ?thesis using c1(1) c2(1,3,5,6) by blast
qed

lemma fail_with_frame:
  "quiet (fail_with e c) \<longleftrightarrow> quiet c" "resolve (fail_with e c) path = resolve c path" "out (fail_with e d) = out d"
  by (simp_all add: fail_with_def quiet_def resolve_def)

lemma cmd_download_quiet:
  fixes c :: "'a client_scheme"
  assumes L: "lib_ok L" and q: "quiet c" and tok: "has_token L E t c"
    and p: "resolve c local = Inr p" "lookup (fs c) p = None" "NUL \<notin> set local"
    and remote: "NUL \<notin> set remote" "length remote < PATH_MAX" and size: "length data \<le> 2 ^ 24"
    and answers: "download_answers L data (incoming c)"
  shows "\<exists>w c'. cmd_download L E prog [remote, local] c = Some (0, c') \<and> out c' = out c @ [''download done: res=0''] \<and>
    tx c' = tx c @ w \<and> download_bytes t remote (chunk_count_of (length data)) w \<and>
    lookup (fs c') p = Some (NFile data) \<and> same_files p (fs c) (fs c')"
proof -
  obtain m0 c0 where u: "uninit_msg c = (m0, c0)" by fastforce
  note m0 = uninit_msg_quiet(1) [OF u q] and c0 = uninit_msg_quiet(2-) [OF u q]
  from has_token_load [OF L c0(3) has_token_same [OF tok c0(1)], of "hdr_token (hdr m0)"] obtain c1 where
    c1: "load_token L E (hdr_token (hdr m0)) c0 = Some (0, t, c1)" "io_becomes c0 (fs c0) c1" by blast
  note b1 = io_becomesD [OF c1(2)]
  have q1: "quiet c1" by (rule io_becomes_quiet [OF c1(2) c0(3)])
  have r1: "fs_plan c1 = []" "resolve c1 local = Inr p" "lookup (fs c1) p = None"
    using q1 resolve_same [of c1 c local] b1 c0(1,2) p(1,2) by (simp_all add: quiet_def)
  from download_request_new [OF r1 remote] obtain info where
    i: "download_request E remote local c1 = Some (info, fail_with ENOENT c1)" "wf_info info" "info_name info = Some remote"
      "fi_size info = 0" by blast
  let ?c1 = "fail_with ENOENT c1"
  have t: "length t = 16" using tok by (simp add: has_token_def)
  note e = enc_info_bounds [OF i(2)]
  have q1': "quiet ?c1" using q1 by (simp add: fail_with_frame)
  have pl: "enc_info info = [] \<and> Some (enc_info info) = None \<or> enc_info info \<noteq> [] \<and> Some (enc_info info) = Some (enc_info info)"
    using e(1) by simp
  from send_request [OF m0 t q1' pl e(4), of MSGTYPE_DOWNLOAD_REQ, unfolded e(2)] obtain m' c2 req where
    c2: "msg_send (msg_init (set_token t m0) MSGTYPE_DOWNLOAD_REQ (Some (enc_info info)) (of_nat FileInfo_size)) None 0 ?c1 = Some (0, m', c2)"
      "tx c2 = tx ?c1 @ req" "requested MSGTYPE_DOWNLOAD_REQ t (enc_info info) req" "tx_step ?c1 c2" "quiet c2" by blast
  from answers obtain ri name r1 chunks where a: "message MSGTYPE_DOWNLOAD_RES (enc_info ri) r1" "wf_info ri"
    "info_name ri = Some name" "fi_chunk_count ri = of_nat (chunk_count_of (length data))"
    "chunk_stream (sha256 L) data 0 (chunk_count_of (length data)) chunks" "incoming c = r1 @ chunks"
    by (auto simp: download_answers_def)
  have inc: "incoming c2 = r1 @ chunks" using c2(4) b1 c0(4) a(6) by (simp add: tx_step_def fail_with_def)
  have wfc: "wf_hdr (hdr (msg_clear m'))" by (simp add: msg_clear_def)
  from recv_message_header [OF wfc c2(5) a(1) inc] obtain h c3 ts where
    c3: "msg_recv_header (msg_clear m') c2 = Some (0, (msg_clear m')\<lparr>hdr := h, rcvd_at := ts\<rparr>, c3)" "wf_hdr h"
      "hdr_type h = type_code MSGTYPE_DOWNLOAD_RES" "hdr_length h = of_nat (length (enc_info ri))"
      "incoming c3 = enc_info ri @ chunks" "rx_step c2 c3" "quiet c3" by blast
  let ?m = "(msg_clear m')\<lparr>hdr := h, rcvd_at := ts\<rparr>"
  have f3: "fs c3 = fs c" "cwd c3 = cwd c" "out c3 = out c" "tx c3 = tx c @ req"
    using rx_step_fs [OF c3(6)] tx_step_fs [OF c2(4)] b1 c0 step_out(1) [OF c2(4)] step_out(2) [OF c3(6)]
      io_becomes_out [OF c1(2)] io_sameD [OF rx_step_same [OF c3(6)]] io_sameD [OF tx_step_same [OF c2(4)]] c2(2) c3(6)
    by (simp_all add: rx_step_def fail_with_def)
  have r3: "resolve c3 local = Inr p" "lookup (fs c3) p = None"
    using resolve_same [OF f3(1,2)] f3(1) p(1,2) by simp_all
  have m: "hdr_type (hdr ?m) = type_code MSGTYPE_DOWNLOAD_RES" "hdr_length (hdr ?m) = of_nat (length (enc_info ri))" "wf_hdr (hdr ?m)"
    using c3(2-4) by simp_all
  from download_chunks_quiet [OF L c3(7) r3 p(3) size a(2,3,4) m(2,3) c3(5) a(5)] obtain acks fin c4 where
    c4: "download_chunks L local ?m c3 = Some (0, c4)" "out c4 = out c3 @ [''download done: res=0'']" "tx c4 = tx c3 @ acks @ fin"
      "ack_stream (chunk_count_of (length data)) acks" "message MSGTYPE_DOWNLOAD_FIN [] fin" "lookup (fs c4) p = Some (NFile data)"
      "same_files p (fs c3) (fs c4)" by blast
  obtain str where str: "msg_type_to_str (type_code MSGTYPE_DOWNLOAD_RES) = Some str" using type_names by blast
  have no: "refused prog MSGTYPE_DOWNLOAD_RES ''download error: '' ''expected DOWNLOAD_RES, got '' ?m c3 = Some None"
    by (rule refused_no [OF m(1)]) simp_all
  have "cmd_download L E prog [remote, local] c = Some (0, c4)"
    using u c1(1) i(1) c2(1) c3(1,3) c4(1) str no by (simp add: cmd_download_def handle_recv_error_def)
  moreover have "download_bytes t remote (chunk_count_of (length data)) (req @ acks @ fin)"
    using c2(3) i(2-4) c4(4,5) unfolding download_bytes_def by blast
  ultimately show ?thesis using c4(2,3,6,7) f3 by auto
qed

section \<open>Properties\<close>

text \<open>
  C3. Downloading a file, client and server together: what upload has put into the user's directory
  under a plain name comes back. The client with a token asks for the name; the event loop of a
  server that knows the token answers with the description of the file and its chunks, changes no
  file, and frees the session; and with these answers the command makes the local file with exactly
  the same bytes, touches no other file, sends the acknowledgements the server waits for and ends
  with status 0.
\<close>

theorem download_end_to_end:
  fixes c :: "'a client_scheme"
  assumes "lib_ok L" "quiet c" "has_token L E t c" "resolve c local = Inr p" "lookup (fs c) p = None" "NUL \<notin> set local"
    "plain_name b" "length data \<le> 2 ^ 24" "download_answers L data (incoming c)"
  shows "\<exists>w c'. cmd_download L E prog [b, local] c = Some (0, c') \<and> out c' = out c @ [''download done: res=0''] \<and>
    tx c' = tx c @ w \<and> lookup (fs c') p = Some (NFile data) \<and> same_files p (fs c) (fs c') \<and>
    (\<forall>s rest user. quiet s \<and> incoming s = w @ rest \<and> knows L t user s \<and> no_transfers user s \<and>
       lookup (fs s) (user_place L t b) = Some (NFile data) \<longrightarrow>
       (\<exists>s' r. on_readable L fd s = Some s' \<and> tx s' = tx s @ r \<and> download_answers L data r \<and> fs s' = fs s \<and>
          idle_user user s s' \<and> open_fds s' fd = None))"
proof -
  have b: "NUL \<notin> set b" "length b < PATH_MAX" using assms(7) by (auto simp: plain_name_def PATH_MAX_def)
  from cmd_download_quiet [OF assms(1-6) b assms(8,9)] obtain w c' where
    c': "cmd_download L E prog [b, local] c = Some (0, c')" "out c' = out c @ [''download done: res=0'']" "tx c' = tx c @ w"
      "download_bytes t b (chunk_count_of (length data)) w" "lookup (fs c') p = Some (NFile data)" "same_files p (fs c) (fs c')"
    by blast
  have "\<exists>s' r. on_readable L fd s = Some s' \<and> tx s' = tx s @ r \<and> download_answers L data r \<and> fs s' = fs s \<and>
      idle_user user s s' \<and> open_fds s' fd = None"
    if s: "quiet s" "incoming s = w @ rest" "knows L t user s" "no_transfers user s"
      "lookup (fs s) (user_place L t b) = Some (NFile data)" for s rest user
    by (rule on_readable_download [OF assms(1) s(1,3) c'(4) s(2,4) assms(7) s(5) assms(8)])
  with c' show ?thesis by blast
qed

lemma sample_chunks: "\<exists>chunks. chunk_stream (sha256 client_lib) [1, 2, 3] 0 (chunk_count_of (length [1, 2, 3 :: byte])) chunks"
proof -
  let ?c = "sample_io [(''f'', NFile [1, 2, 3])] (enc_hdr sample_ok)"
  have N: "chunk_count_of (length [1, 2, 3 :: byte]) = 1" by (simp add: chunk_count_exact pieces_def)
  have a: "ack_stream (chunk_count_of (length [1, 2, 3 :: byte]) - 0) (incoming ?c)"
    using sample_ack_stream [of 1] unfolding N by simp
  have f: "resolve ?c ''/f'' = Inr [''f'']" "lookup (fs ?c) [''f''] = Some (NFile [1, 2, 3])" by simp_all
  from file_send_stream [where sha = sample_sha and c = ?c and acks = "incoming ?c" and rest = "[]" and s = 0,
      OF length_sample_sha _ f _ _ a] show ?thesis by auto
qed

lemma sample_download_answers: "\<exists>inc. download_answers client_lib [1, 2, 3] inc"
proof -
  let ?data = "[1, 2, 3] :: byte list"
  obtain chunks where ch: "chunk_stream (sha256 client_lib) ?data 0 (chunk_count_of (length ?data)) chunks"
    using sample_chunks by blast
  obtain info where info: "set_filename ''/f'' (zero_info\<lparr>fi_size := 3, fi_chunk_count := of_nat (chunk_count_of (length ?data))\<rparr>) = Some info"
    by (simp add: set_filename_def zero_info_def PATH_MAX_def)
  have "wf_info info" "info_name info = Some ''/f''" "fi_size info = of_nat (length ?data)"
    "fi_chunk_count info = of_nat (chunk_count_of (length ?data))"
    using wf_set_filename [OF info] set_filename_name [OF info] wf_zero_info info
    by (auto simp: wf_info_def NUL_def set_filename_def split: if_splits)
  with ch sample_message [of MSGTYPE_DOWNLOAD_RES "enc_info info"] show ?thesis unfolding download_answers_def by blast
qed

lemma sample_download:
  "resolve (sample_client [token_dir] inc) ''/g'' = Inr [''g'']" "lookup (fs (sample_client [token_dir] inc)) [''g''] = None"
  "NUL \<notin> set ''/g''"
  by (simp_all add: resolve_def path_comps_def PATH_MAX_def token_dir_def NUL_def)

theorem download_end_to_end_witness:
  "\<exists>inc w c' s' m. cmd_download client_lib (sample_env ''/s'') ''minidropbox'' [''f'', ''/g'']
      (sample_client [token_dir] inc) = Some (0, c') \<and>
    lookup (fs c') [''g''] = Some (NFile [1, 2, 3]) \<and> tx c' = w \<and>
    on_readable client_lib 5 (sample_server (sample_storage [(''f'', NFile [1, 2, 3])]) w m no_objects) = Some s' \<and>
    download_answers client_lib [1, 2, 3] (tx s')"
proof -
  let ?data = "[1, 2, 3] :: byte list"
  obtain inc where inc: "download_answers client_lib ?data inc" using sample_download_answers by blast
  let ?c = "sample_client [token_dir] inc"
  have q: "quiet ?c" by simp
  have a: "download_answers client_lib ?data (incoming ?c)" using inc by simp
  have b: "plain_name ''f''" "length ?data \<le> 2 ^ 24" by (simp_all add: plain_name_def plain_seg_def seg_ok_def NUL_def)
  from download_end_to_end [OF client_lib_ok q sample_has_token sample_download b a, where fd = 5 and prog = "''minidropbox''"]
  obtain w c' where c': "cmd_download client_lib (sample_env ''/s'') ''minidropbox'' [''f'', ''/g''] ?c = Some (0, c')"
    "tx c' = tx ?c @ w" "lookup (fs c') [''g''] = Some (NFile ?data)" and
    server: "\<forall>s rest user. quiet s \<and> incoming s = w @ rest \<and> knows client_lib (sample_token 0 1) user s \<and> no_transfers user s \<and>
       lookup (fs s) (user_place client_lib (sample_token 0 1) ''f'') = Some (NFile ?data) \<longrightarrow>
       (\<exists>s' r. on_readable client_lib 5 s = Some s' \<and> tx s' = tx s @ r \<and> download_answers client_lib ?data r \<and> fs s' = fs s \<and>
          idle_user user s s' \<and> open_fds s' 5 = None)" by blast
  from sample_known [of "sample_storage [(''f'', NFile ?data)]" w] obtain m user where
    k: "knows client_lib (sample_token 0 1) user (sample_server (sample_storage [(''f'', NFile ?data)]) w m no_objects)"
      "users m user = Some (user_init (sample_token 0 1) (\<lambda>_. 0) (Some (sample_token 0 1)))" by blast
  let ?s = "sample_server (sample_storage [(''f'', NFile ?data)]) w m no_objects"
  have "no_transfers user ?s" using k(2) by (simp add: no_transfers_def user_init_def wf_user_def session_list_def)
  moreover have "lookup (fs ?s) (user_place client_lib (sample_token 0 1) ''f'') = Some (NFile ?data)"
    by (simp add: user_place_def storage_segs_def sample_storage_def)
  ultimately obtain s' where s': "on_readable client_lib 5 ?s = Some s'" "download_answers client_lib ?data (tx s')"
    using server [rule_format, of ?s "[]" user] k(1) by auto
  have "tx c' = w" using c'(2) by simp
  with s' c'(1,3) show ?thesis by blast
qed

end
