(* ===== verification/Listing.thy ===== *)
theory Listing
  imports Downloads
begin

text \<open>
  ls, client and server together. The server lists a directory as a stream of descriptions
  that ends with a message of another type, and the client prints a line for each.
\<close>

section \<open>The path of a directory\<close>

text \<open>A path of plain components is kept below the user's directory as it is.\<close>

lemma user_path_segs:
  assumes u: "uuid_text (uuid_unparse L)" and p: "\<forall>x \<in> set (segments path). plain_seg x" "length path < 4045"
  shows "get_user_path (uuid_unparse L) True path t =
    Some (Some (render_tail (storage_segs @ uuid_unparse L t # segments path)))"
proof -
  let ?root = "get_user_root (uuid_unparse L) t" and ?segs = "storage_segs @ uuid_unparse L t # segments path"
  have k: "kept_path path = path" using p(2) by (simp add: kept_path_def)
  have s: "segments (?root @ ''/'' @ path) = ?segs"
    using segments_append_slash [of ?root path] by (simp add: segments_get_user_root [OF u])
  have ne: "?root @ ''/'' @ path \<noteq> []" "hd (?root @ ''/'' @ path) = CHR ''/''"
    by (auto simp: get_user_root_eq [OF u] STORAGE_DIR_def)
  have "\<forall>x \<in> set ?segs. plain_seg x" using uuid_text_seg(1) [OF u, of t] storage_segs_ok p(1) by auto
  then have n: "normalized (?root @ ''/'' @ path) = render_tail ?segs"
    using normalized_plain [OF ne] unfolding s by (simp add: render_abs_def)
  have "render_tail ?segs = ?root @ render_tail (segments path)"
    unfolding get_user_root_render [OF u] by (simp add: render_tail_def)
  then have "prefix ?root (render_tail ?segs)" by simp
  with get_user_path_eq [OF u, of path t] n k show ?thesis by (simp add: Let_def)
qed

section \<open>The listing as messages\<close>

text \<open>The size the server sends for an entry: the length of a file, 0 for anything else.\<close>

fun entry_size :: "node \<Rightarrow> nat" where
  "entry_size (NFile bs) = length bs"
| "entry_size _ = 0"

definition entry_line :: "string \<times> node \<Rightarrow> string" where
  "entry_line e = dec (entry_size (snd e)) @ [CHR 0x09] @ fst e"

definition entry_message :: "string \<times> node \<Rightarrow> byte list \<Rightarrow> bool" where
  "entry_message e w \<longleftrightarrow> (\<exists>info. message MSGTYPE_FILEINFO (enc_info info) w \<and> wf_info info \<and>
     info_name info = Some (fst e) \<and> fi_size info = of_nat (entry_size (snd e)))"

text \<open>The whole answer: a message for each entry, and the end.\<close>

fun listing :: "(string \<times> node) list \<Rightarrow> byte list \<Rightarrow> bool" where
  "listing [] r \<longleftrightarrow> message MSGTYPE_NONE [] r"
| "listing (e # es) r \<longleftrightarrow> (\<exists>w r'. r = w @ r' \<and> entry_message e w \<and> listing es r')"

section \<open>The client's side\<close>

lemma recv_message:
  assumes "wf_hdr (hdr m)" "quiet c" "message ty bytes w" "length bytes \<le> 8192" "of_nat (length bytes) \<le> maxlen"
    "incoming c = w @ rest"
  shows "\<exists>m' c'. msg_recv maxlen m c = Some (0, m', c') \<and> hdr_type (hdr m') = type_code ty \<and> wf_hdr (hdr m') \<and>
    incoming c' = rest \<and> rx_step c c' \<and> quiet c' \<and> (bytes \<noteq> [] \<longrightarrow> received m' = Some bytes)"
proof -
  have rq: "rx_quiet (rx c)" using assms(2) by (simp add: quiet_def)
  from assms(3) obtain h where h: "wf_hdr h" "hdr_type h = type_code ty" "hdr_length h = of_nat (length bytes)"
    "w = enc_hdr h @ bytes" by (auto simp: message_def)
  have inc: "incoming c = enc_hdr h @ bytes @ rest" using assms(6) h(4) by simp
  have len: "length bytes = unat (hdr_length h)" "hdr_length h \<le> maxlen"
    using assms(4,5) h(3) by (simp_all add: unat_of_nat)
  from msg_recv_quiet [OF assms(1) rq inc h(1) len] obtain c' ts where
    c': "msg_recv maxlen m c = Some (0, if bytes = [] then m\<lparr>hdr := h, rcvd_at := ts\<rparr>
        else m\<lparr>hdr := h, rcvd_at := ts, payload := Some bytes\<rparr>, c')" "incoming c' = rest" "rx_step c c'" "rx_quiet (rx c')"
    by (auto split: if_splits)
  have "bytes \<noteq> [] \<Longrightarrow> hdr_length h \<noteq> 0" using len(1) by auto
  with c' h(1,2) quiet_rx_step [OF assms(2) c'(3,4)] show ?thesis by (auto simp: received_def)
qed

lemma list_loop_quiet:
  fixes c :: "'a client_scheme"
  shows "wf_hdr (hdr m) \<Longrightarrow> quiet c \<Longrightarrow> listing es w \<Longrightarrow> incoming c = w @ rest \<Longrightarrow> \<forall>e \<in> set es. entry_size (snd e) < 2 ^ 64 \<Longrightarrow>
    \<exists>m' c'. list_loop m c = Some (True, m', c') \<and> hdr_type (hdr m') = type_code MSGTYPE_NONE \<and>
      out c' = out c @ map entry_line es \<and> tx c' = tx c \<and> fs c' = fs c"
proof (induction es arbitrary: m c w)
  case Nil
  then have msg: "message MSGTYPE_NONE [] w" by simp
  from recv_message [OF Nil.prems(1,2) msg _ _ Nil.prems(4), of "of_nat FileInfo_size"] obtain m' c' where
    r: "msg_recv (of_nat FileInfo_size) m c = Some (0, m', c')" "hdr_type (hdr m') = type_code MSGTYPE_NONE" "rx_step c c'"
    by auto
  have ty: "type_code MSGTYPE_NONE \<noteq> type_code MSGTYPE_FILEINFO" by (simp add: type_code_def MSGTYPES_def)
  have "list_loop m c = Some (True, m', c')"
    using r(1,2) ty by (simp add: list_loop.simps [of m c] handle_recv_error_def)
  with r(2,3) step_out(2) [OF r(3)] rx_step_fs [OF r(3)] show ?case by (simp add: rx_step_def)
next
  case (Cons e es)
  from Cons.prems(3) obtain w1 w2 info where w: "w = w1 @ w2" "listing es w2" "message MSGTYPE_FILEINFO (enc_info info) w1"
    "wf_info info" "info_name info = Some (fst e)" "fi_size info = of_nat (entry_size (snd e))"
    by (auto simp: entry_message_def)
  note b = enc_info_bounds [OF w(4)]
  have inc: "incoming c = w1 @ (w2 @ rest)" using Cons.prems(4) w(1) by simp
  from recv_message [OF Cons.prems(1,2) w(3) b(3,5) inc] b(1) obtain m1 c1 where
    r: "msg_recv (of_nat FileInfo_size) m c = Some (0, m1, c1)" "hdr_type (hdr m1) = type_code MSGTYPE_FILEINFO"
      "wf_hdr (hdr m1)" "incoming c1 = w2 @ rest" "rx_step c c1" "quiet c1" "received m1 = Some (enc_info info)" by blast
  have ri: "received_info m1 = Some info"
    using r(7) payload_info_enc [OF w(4), of m1] by (simp add: received_info_def)
  have "unat (fi_size info) = entry_size (snd e)" using w(6) Cons.prems(5) by (simp add: unat_of_nat)
  then have line: "dec (unat (fi_size info)) @ [CHR 0x09] @ fst e = entry_line e" by (simp add: entry_line_def)
  let ?c1 = "say (entry_line e) c1"
  have q: "quiet ?c1" "incoming ?c1 = w2 @ rest" "\<forall>e \<in> set es. entry_size (snd e) < 2 ^ 64"
    using r(4,6) Cons.prems(5) by simp_all
  from Cons.IH [OF r(3) q(1) w(2) q(2,3)] obtain m' c' where
    l: "list_loop m1 ?c1 = Some (True, m', c')" "hdr_type (hdr m') = type_code MSGTYPE_NONE"
      "out c' = out ?c1 @ map entry_line es" "tx c' = tx ?c1" "fs c' = fs ?c1" by blast
  have "list_loop m c = Some (True, m', c')"
    using r(1,2) ri w(5) l(1) line by (simp add: list_loop.simps [of m c] handle_recv_error_def)
  with l(2-5) step_out(2) [OF r(5)] rx_step_fs [OF r(5)] r(5) show ?case by (simp add: rx_step_def)
qed

lemma cmd_list_quiet:
  fixes c :: "'a client_scheme"
  assumes L: "lib_ok L" and q: "quiet c" and tok: "has_token L E t c" and path: "length path < 4045"
    and answers: "listing es (incoming c)" "\<forall>e \<in> set es. entry_size (snd e) < 2 ^ 64"
  shows "\<exists>w c'. cmd_list L E prog [path] c = Some (0, c') \<and> out c' = out c @ map entry_line es @ [''listing done''] \<and>
    tx c' = tx c @ w \<and> requested MSGTYPE_LIST_REQ t (cbytes path) w"
proof -
  obtain m0 c0 where u: "uninit_msg c = (m0, c0)" by fastforce
  have len: "cbytes path \<noteq> []" "length (cbytes path) < 2 ^ 64" using path by (simp_all add: cbytes_def)
  from command_request [OF L q tok u len, of MSGTYPE_LIST_REQ] obtain c1 m' c2 w where
    c2: "load_token L E (hdr_token (hdr m0)) c0 = Some (0, t, c1)"
      "msg_send (msg_init (set_token t m0) MSGTYPE_LIST_REQ (Some (cbytes path)) (of_nat (length (cbytes path)))) None 0 c1 = Some (0, m', c2)"
      "tx c2 = tx c @ w" "requested MSGTYPE_LIST_REQ t (cbytes path) w" "quiet c2" "wf_hdr (hdr m')" "incoming c2 = incoming c"
      "out c2 = out c" by blast
  have inc: "incoming c2 = incoming c @ []" using c2(7) by simp
  from list_loop_quiet [OF c2(6,5) answers(1) inc answers(2)] obtain m3 c3 where
    c3: "list_loop m' c2 = Some (True, m3, c3)" "hdr_type (hdr m3) = type_code MSGTYPE_NONE"
      "out c3 = out c2 @ map entry_line es" "tx c3 = tx c2" by blast
  have ty: "type_code MSGTYPE_NONE \<noteq> type_code MSGTYPE_ERROR" by (simp add: type_code_def MSGTYPES_def)
  have "cmd_list L E prog [path] c = Some (0, say ''listing done'' c3)"
    using u c2(1,2) c3(1,2) ty by (simp add: cmd_list_def)
  with c2(3,4,8) c3(3,4) show ?thesis by (intro exI [of _ w]) simp
qed

section \<open>The server's side\<close>

text \<open>The messages for a list of entries, without the end.\<close>

fun entry_messages :: "(string \<times> node) list \<Rightarrow> byte list \<Rightarrow> bool" where
  "entry_messages [] r \<longleftrightarrow> r = []"
| "entry_messages (e # es) r \<longleftrightarrow> (\<exists>w r'. r = w @ r' \<and> entry_message e w \<and> entry_messages es r')"

lemma listing_end: "entry_messages es r \<Longrightarrow> message MSGTYPE_NONE [] w \<Longrightarrow> listing es (r @ w)"
  by (induction es arbitrary: r) (auto, blast)

text \<open>What a directory has to be for its entries to be found by their names.\<close>

definition listed :: "node \<Rightarrow> string list \<Rightarrow> (string \<times> node) list \<Rightarrow> bool" where
  "listed tree p es \<longleftrightarrow> (\<forall>e \<in> set es. plain_name (fst e) \<and> lookup tree (p @ [fst e]) = Some (snd e) \<and>
     length (render_tail p) + length (fst e) + 1 < PATH_MAX)"

lemma entry_info:
  assumes L: "lib_ok L" and q: "quiet c" and e: "listed (fs c) p [(d, n)]" and p: "\<forall>x \<in> set p. plain_name x" "p \<noteq> []"
  shows "\<exists>info info'. (case n of
        NFile _ \<Rightarrow> do { (_, info, c) \<leftarrow> fileinfo_from_filename (sha256 L) (render_tail p @ CHR ''/'' # d) zero_info c; Some (info, c) }
      | _ \<Rightarrow> Some (zero_info, c)) = Some (info, c) \<and>
    set_filename d info = Some info' \<and> wf_info info' \<and> info_name info' = Some d \<and> fi_size info' = of_nat (entry_size n)"
proof -
  have sha: "\<And>b. length (sha256 L b) = 32" using L by (simp add: lib_ok_def)
  have d: "plain_name d" "lookup (fs c) (p @ [d]) = Some n" "length (render_tail p) + length d + 1 < PATH_MAX"
    using e by (simp_all add: listed_def)
  have name: "\<exists>info'. set_filename d info = Some info' \<and> wf_info info' \<and> info_name info' = Some d \<and> fi_size info' = fi_size info"
    if "wf_info info" for info
  proof -
    from d(1) that obtain i where i: "set_filename d info = Some i"
      by (auto simp: set_filename_def wf_info_def plain_name_def PATH_MAX_def)
    have "NUL \<notin> set d" using d(1) by (simp add: plain_name_def)
    from set_filename_name [OF i this] wf_set_filename [OF i that] i show ?thesis
      by (auto simp: set_filename_def split: if_splits)
  qed
  show ?thesis
  proof (cases n)
    case (NFile bs)
    let ?path = "render_tail (p @ [d])"
    have path: "render_tail p @ CHR ''/'' # d = ?path" by (simp add: render_tail_snoc)
    have ok: "\<forall>x \<in> set (p @ [d]). plain_name x" "p @ [d] \<noteq> []" using p(1) d(1) by simp_all
    note r = render_plain_path [OF ok]
    have "place (fs c) (p @ [d])" using lookup_place [OF d(2)] by simp
    then have "resolve c ?path = Inr (p @ [d])"
      using r d(3) by (intro resolve_exists) (simp_all add: render_tail_snoc)
    moreover have "fs_plan c = []" "lookup (fs c) (p @ [d]) = Some (NFile bs)" using q d(2) NFile by (simp_all add: quiet_def)
    ultimately obtain info where "fileinfo_from_filename (sha256 L) ?path zero_info c = Some (0, info, c)" "wf_info info"
      "fi_size info = of_nat (length bs)"
      using fileinfo_quiet [where sha = "sha256 L" and c = c and out = zero_info, OF sha _ _ _ wf_zero_info] by blast
    with name NFile show ?thesis unfolding path by fastforce
  next
    case (NDir es)
    with name [OF wf_zero_info] show ?thesis by (auto simp: zero_info_def)
  next
    case NOther
    with name [OF wf_zero_info] show ?thesis by (auto simp: zero_info_def)
  qed
qed

lemma list_entries_quiet:
  assumes L: "lib_ok L" and p: "\<forall>x \<in> set p. plain_name x" "p \<noteq> []"
  shows "quiet c \<Longrightarrow> wf_hdr (hdr m) \<Longrightarrow> listed (fs c) p es \<Longrightarrow>
    \<exists>m' c' r. list_entries L (render_tail p) es m c = Some (m', c') \<and> tx c' = tx c @ r \<and> entry_messages es r \<and>
      tx_step c c' \<and> quiet c' \<and> wf_hdr (hdr m')"
proof (induction es arbitrary: m c)
  case Nil
  then show ?case by (auto simp: tx_step_refl)
next
  case (Cons e es)
  obtain d n where e: "e = (d, n)" by (cases e)
  have ed: "listed (fs c) p [(d, n)]" "listed (fs c) p es" "plain_name d" using Cons.prems(3) e by (simp_all add: listed_def)
  have dots': "\<not> (d = ''.'' \<or> d = ''..'')" using ed(3) by (auto simp: plain_name_def plain_seg_def)
  have path: "snprintf_str PATH_MAX (render_tail p @ CHR ''/'' # d) = render_tail p @ CHR ''/'' # d"
    using Cons.prems(3) e by (intro snprintf_str_id) (simp add: listed_def)
  from entry_info [OF L Cons.prems(1) ed(1) p] obtain info info' where
    i: "(case n of
        NFile _ \<Rightarrow> do { (_, info, c) \<leftarrow> fileinfo_from_filename (sha256 L) (render_tail p @ CHR ''/'' # d) zero_info c; Some (info, c) }
      | _ \<Rightarrow> Some (zero_info, c)) = Some (info, c)"
      "set_filename d info = Some info'" "wf_info info'" "info_name info' = Some d" "fi_size info' = of_nat (entry_size n)" by blast
  note b = enc_info_bounds [OF i(3)]
  have tq: "tx_quiet (tx_plan c)" using Cons.prems(1) by (simp add: quiet_def)
  have pl: "enc_info info' = [] \<and> Some (enc_info info') = None \<or> enc_info info' \<noteq> [] \<and> Some (enc_info info') = Some (enc_info info')"
    using b(1) by simp
  have init: "(msg_init m MSGTYPE_FILEINFO None (of_nat FileInfo_size))\<lparr>payload := Some (enc_info info')\<rparr> =
      msg_init m MSGTYPE_FILEINFO (Some (enc_info info')) (of_nat FileInfo_size)" by (simp add: msg_init_def)
  from msg_send_reply [OF Cons.prems(2) tq pl b(4), of MSGTYPE_FILEINFO, unfolded b(2)] obtain m1 c1 where
    s: "msg_send (msg_init m MSGTYPE_FILEINFO (Some (enc_info info')) (of_nat FileInfo_size)) None 0 c = Some (0, m1, c1)"
      "replied MSGTYPE_FILEINFO (enc_info info') c c1" "tx_step c c1" "tx_quiet (tx_plan c1)" "wf_hdr (hdr m1)" by blast
  have q1: "quiet c1" by (rule quiet_tx_step [OF Cons.prems(1) s(3,4)])
  obtain w where w: "message MSGTYPE_FILEINFO (enc_info info') w" "tx c1 = tx c @ w"
    using s(2) unfolding replied_message by blast
  have "listed (fs c1) p es" using ed(2) tx_step_fs [OF s(3)] by simp
  from Cons.IH [OF q1 s(5) this] obtain m' c' r where
    r: "list_entries L (render_tail p) es m1 c1 = Some (m', c')" "tx c' = tx c1 @ r" "entry_messages es r" "tx_step c1 c'"
      "quiet c'" "wf_hdr (hdr m')" by blast
  have "list_entries L (render_tail p) (e # es) m c = Some (m', c')"
    using dots' i(2) s(1) r(1) unfolding e by (simp add: i(1) path init Let_def)
  moreover have "entry_message e w" using w(1) i(3-5) e by (auto simp: entry_message_def)
  ultimately show ?case using r w(2) tx_step_trans [OF s(3) r(4)] by (intro exI [of _ m'] exI [of _ c'] exI [of _ "w @ r"]) auto
qed

text \<open>The directory a path of the user's means, and what its entries have to be for it to be listed.\<close>

definition dir_place :: "lib \<Rightarrow> byte list \<Rightarrow> string \<Rightarrow> string list" where
  "dir_place L t path = storage_segs @ uuid_unparse L t # segments path"

definition listable :: "node \<Rightarrow> string list \<Rightarrow> (string \<times> node) list \<Rightarrow> bool" where
  "listable tree p es \<longleftrightarrow> lookup tree p = Some (NDir es) \<and> distinct (map fst es) \<and>
     (\<forall>e \<in> set es. plain_name (fst e) \<and> length (render_tail p) + length (fst e) + 1 < PATH_MAX)"

lemma listable_listed: "listable tree p es \<Longrightarrow> listed tree p es"
  by (auto simp: listable_def listed_def lookup_append)

lemma dir_place_plain:
  assumes "uuid_text (uuid_unparse L)" "\<forall>x \<in> set (segments path). plain_name x"
  shows "\<forall>x \<in> set (dir_place L t path). plain_name x" "dir_place L t path \<noteq> []"
  using assms(2) uuid_text_seg [OF assms(1), of t] storage_segs_ok
  by (auto simp: dir_place_def plain_name_def storage_segs_def plain_seg_def seg_ok_def NUL_def)

lemma handle_list_quiet:
  assumes L: "lib_ok L" and q: "quiet s" and user: "user \<noteq> NULL" and msg: "wf_hdr (hdr msg)" "hdr_token (hdr msg) = t"
    "hdr_length (hdr msg) = of_nat (length (cbytes path))" "incoming s = cbytes path @ rest"
    and path: "length path < 4045" "NUL \<notin> set path" "\<forall>x \<in> set (segments path). plain_name x"
    and es: "listable (fs s) (dir_place L t path) es" "length (render_tail (dir_place L t path)) < PATH_MAX"
  shows "\<exists>s' r. handle_list L user msg s = Some s' \<and> tx s' = tx s @ r \<and> listing es r \<and> io_same s s'"
proof -
  have u: "uuid_text (uuid_unparse L)" using L by (simp add: lib_ok_def)
  let ?p = "dir_place L t path"
  note dp = dir_place_plain [OF u path(3), of t] and r = render_plain_path [OF dir_place_plain [OF u path(3), of t]]
  have len: "length (cbytes path) \<le> 8192" "of_nat (length (cbytes path)) \<le> (of_nat PATH_MAX :: usize)"
    using path(1) by (simp_all add: word_le_nat_alt unat_of_nat PATH_MAX_def del: of_nat_add of_nat_Suc)
  have ne: "cbytes path \<noteq> []" by (simp add: cbytes_def)
  from recv_payload_some [OF q ne msg(3) len msg(4)] obtain s1 where
    s1: "msg_recv_payload (of_nat PATH_MAX) msg s = Some (0, msg\<lparr>payload := Some (cbytes path)\<rparr>, s1)" "rx_step s s1" "quiet s1"
    by blast
  let ?m = "msg\<lparr>payload := Some (cbytes path)\<rparr>"
  have f1: "fs s1 = fs s" "tx s1 = tx s" using rx_step_fs [OF s1(2)] s1(2) by (simp_all add: rx_step_def)
  have name: "payload_string ?m = Some path" using cstr_cbytes [OF path(2), of "[]"] by (simp add: payload_string_def)
  have "\<forall>x \<in> set (segments path). plain_seg x" using path(3) by (simp add: plain_name_def)
  from user_path_segs [OF u this path(1), of t] msg(2) have
    up: "get_user_path (uuid_unparse L) True path (hdr_token (hdr ?m)) = Some (Some (render_tail ?p))" by (simp add: dir_place_def)
  have l: "lookup (fs s1) ?p = Some (NDir es)" using es(1) f1(1) by (simp add: listable_def)
  have "place (fs s1) ?p" by (rule lookup_place [OF l dp(2)])
  with r es(2) have "resolve s1 (render_tail ?p) = Inr ?p" by (intro resolve_exists) auto
  moreover have "fs_plan s1 = []" using s1(3) by (simp add: quiet_def)
  ultimately have od: "opendir (render_tail ?p) s1 = (Some ((''.'', NDir []) # (''..'', NDir []) # es), s1)"
    using l by (simp add: opendir_def at_path_quiet)
  have wf: "wf_hdr (hdr ?m)" using msg(1) by simp
  have ls: "listed (fs s1) ?p es" using listable_listed [OF es(1)] f1(1) by simp
  from list_entries_quiet [OF L dp s1(3) wf ls] obtain m2 s2 w where
    s2: "list_entries L (render_tail ?p) es ?m s1 = Some (m2, s2)" "tx s2 = tx s1 @ w" "entry_messages es w"
      "tx_step s1 s2" "quiet s2" "wf_hdr (hdr m2)" by blast
  have tq: "tx_quiet (tx_plan s2)" using s2(5) by (simp add: quiet_def)
  from msg_send_reply [OF s2(6) tq, of "[]" None MSGTYPE_NONE] obtain m3 s3 where
    s3: "msg_send (msg_init m2 MSGTYPE_NONE None 0) None 0 s2 = Some (0, m3, s3)" "replied MSGTYPE_NONE [] s2 s3" "tx_step s2 s3" by auto
  obtain v where v: "message MSGTYPE_NONE [] v" "tx s3 = tx s2 @ v" using s3(2) unfolding replied_message by blast
  have "handle_list L user msg s = Some s3"
    using user s1(1) name up od s2(1) s3(1) by (simp add: handle_list_def)
  moreover have "io_same s s3"
    using io_same_trans [OF rx_step_same [OF s1(2)] io_same_trans [OF tx_step_same [OF s2(4)] tx_step_same [OF s3(3)]]] .
  ultimately show ?thesis using listing_end [OF s2(3) v(1)] v(2) s2(2) f1(2) by auto
qed

lemma on_readable_list:
  assumes L: "lib_ok L" and q: "quiet s" and k: "knows L t user s"
    and w: "requested MSGTYPE_LIST_REQ t (cbytes path) w" "incoming s = w @ rest"
    and path: "length path < 4045" "NUL \<notin> set path" "\<forall>x \<in> set (segments path). plain_name x"
    and es: "listable (fs s) (dir_place L t path) es" "length (render_tail (dir_place L t path)) < PATH_MAX"
  shows "\<exists>s' r. on_readable L fd s = Some s' \<and> tx s' = tx s @ r \<and> listing es r \<and> fs s' = fs s \<and> man s' = man s \<and>
    open_fds s' fd = None"
proof -
  have ty: "MSGTYPE_LIST_REQ \<in> {MSGTYPE_UPLOAD_REQ, MSGTYPE_DOWNLOAD_REQ, MSGTYPE_LIST_REQ}" by simp
  from on_readable_stream [OF q k w ty, of fd] obtain msg s2 where
    m: "taken MSGTYPE_LIST_REQ t (cbytes path) rest s msg s2" "user \<noteq> NULL" and
    run: "\<And>s3. on_stream_req L MSGTYPE_LIST_REQ fd user msg s2 = Some s3 \<Longrightarrow> on_readable L fd s = Some s3" by blast
  note m' = m(1) [unfolded taken_def]
  from handle_list_quiet [OF L _ m(2) _ _ _ _ path _ es(2), of s2 msg rest es] m' es(1) obtain s4 r where
    s4: "handle_list L user msg s2 = Some s4" "tx s4 = tx s2 @ r" "listing es r" "io_same s2 s4" by auto
  have "on_readable L fd s = Some (on_client_disconnected fd s4)" by (intro run) (simp add: on_stream_req_def s4(1))
  with s4(2,3) m' io_sameD [OF s4(4)] io_state [OF s4(4)] show ?thesis by (auto simp: state_same_def)
qed

section \<open>Properties\<close>

text \<open>
  C4. ls, client and server together. The client with a token asks for a directory of plain
  components; the event loop of a server that knows the token, and where the directory is below the
  user's, answers with a description of every entry in the directory's order and the message that
  ends the list, changes no file and no user, and closes the connection; and with such an answer the
  command prints for every entry its size (of a file its length, 0 for anything else) and its name,
  in the same order, and ends with status 0.
\<close>

theorem list_end_to_end:
  fixes c :: "'a client_scheme"
  assumes "lib_ok L" "quiet c" "has_token L E t c" "length path < 4045" "NUL \<notin> set path"
    "\<forall>x \<in> set (segments path). plain_name x" "listing es (incoming c)" "\<forall>e \<in> set es. entry_size (snd e) < 2 ^ 64"
  shows "\<exists>w c'. cmd_list L E prog [path] c = Some (0, c') \<and> out c' = out c @ map entry_line es @ [''listing done''] \<and>
    tx c' = tx c @ w \<and>
    (\<forall>s rest user. quiet s \<and> incoming s = w @ rest \<and> knows L t user s \<and> listable (fs s) (dir_place L t path) es \<and>
       length (render_tail (dir_place L t path)) < PATH_MAX \<longrightarrow>
       (\<exists>s' r. on_readable L fd s = Some s' \<and> tx s' = tx s @ r \<and> listing es r \<and> fs s' = fs s \<and> man s' = man s \<and>
          open_fds s' fd = None))"
proof -
  from cmd_list_quiet [OF assms(1-4,7,8)] obtain w c' where
    c': "cmd_list L E prog [path] c = Some (0, c')" "out c' = out c @ map entry_line es @ [''listing done'']" "tx c' = tx c @ w"
      "requested MSGTYPE_LIST_REQ t (cbytes path) w" by blast
  have "\<exists>s' r. on_readable L fd s = Some s' \<and> tx s' = tx s @ r \<and> listing es r \<and> fs s' = fs s \<and> man s' = man s \<and>
      open_fds s' fd = None"
    if s: "quiet s" "incoming s = w @ rest" "knows L t user s" "listable (fs s) (dir_place L t path) es"
      "length (render_tail (dir_place L t path)) < PATH_MAX" for s rest user
    by (rule on_readable_list [OF assms(1) s(1,3) c'(4) s(2) assms(4-6) s(4,5)])
  with c' show ?thesis by blast
qed

text \<open>A directory with a file and an empty directory, and an answer that lists it.\<close>

definition sample_entries :: "(string \<times> node) list" where
  "sample_entries = [(''f'', NFile [1, 2, 3]), (''d'', NDir [])]"

lemma sample_listable: "listable (NDir (sample_storage sample_entries)) (dir_place client_lib (sample_token 0 1) ''/'') sample_entries"
  "length (render_tail (dir_place client_lib (sample_token 0 1) ''/'')) < PATH_MAX"
  by (simp_all add: listable_def dir_place_def sample_entries_def storage_segs_def sample_storage_def plain_name_def
      plain_seg_def seg_ok_def NUL_def render_tail_def PATH_MAX_def sample_uuid_def)

lemma sample_listing: "\<exists>inc. listing sample_entries inc"
proof -
  let ?c = "sample_io (sample_storage sample_entries) []" and ?p = "dir_place client_lib (sample_token 0 1) ''/''"
  have u: "uuid_text (uuid_unparse client_lib)" using client_lib_ok by (simp add: lib_ok_def)
  have seg: "\<forall>x \<in> set (segments ''/''). plain_name x" by simp
  have q: "quiet ?c" "wf_hdr (hdr zero_msg)" by simp_all
  have "listed (fs ?c) ?p sample_entries" using listable_listed [OF sample_listable(1)] by simp
  from list_entries_quiet [OF client_lib_ok dir_place_plain [OF u seg] q this] obtain r where "entry_messages sample_entries r" by blast
  from listing_end [OF this sample_message] show ?thesis by blast
qed

theorem list_end_to_end_witness:
  "\<exists>inc w c' s' m. cmd_list client_lib (sample_env ''/s'') ''minidropbox'' [''/''] (sample_client [token_dir] inc) = Some (0, c') \<and>
    out c' = [''3'' @ [CHR 0x09] @ ''f'', ''0'' @ [CHR 0x09] @ ''d'', ''listing done''] \<and> tx c' = w \<and>
    on_readable client_lib 5 (sample_server (sample_storage sample_entries) w m no_objects) = Some s' \<and>
    listing sample_entries (tx s')"
proof -
  obtain inc where inc: "listing sample_entries inc" using sample_listing by blast
  let ?c = "sample_client [token_dir] inc" and ?t = "sample_token 0 1"
  have q: "quiet ?c" by simp
  have path: "length ''/'' < 4045" "NUL \<notin> set ''/''" "\<forall>x \<in> set (segments ''/''). plain_name x" by (simp_all add: NUL_def)
  have a: "listing sample_entries (incoming ?c)" "\<forall>e \<in> set sample_entries. entry_size (snd e) < 2 ^ 64"
    using inc by (simp_all add: sample_entries_def)
  from list_end_to_end [OF client_lib_ok q sample_has_token path a, where fd = 5 and prog = "''minidropbox''"]
  obtain w c' where c': "cmd_list client_lib (sample_env ''/s'') ''minidropbox'' [''/''] ?c = Some (0, c')"
    "out c' = out ?c @ map entry_line sample_entries @ [''listing done'']" "tx c' = tx ?c @ w" and
    server: "\<forall>s rest user. quiet s \<and> incoming s = w @ rest \<and> knows client_lib ?t user s \<and>
       listable (fs s) (dir_place client_lib ?t ''/'') sample_entries \<and>
       length (render_tail (dir_place client_lib ?t ''/'')) < PATH_MAX \<longrightarrow>
       (\<exists>s' r. on_readable client_lib 5 s = Some s' \<and> tx s' = tx s @ r \<and> listing sample_entries r \<and> fs s' = fs s \<and>
          man s' = man s \<and> open_fds s' 5 = None)" by blast
  from sample_known [of "sample_storage sample_entries" w] obtain m user where
    k: "knows client_lib ?t user (sample_server (sample_storage sample_entries) w m no_objects)" by blast
  let ?s = "sample_server (sample_storage sample_entries) w m no_objects"
  obtain s' where s': "on_readable client_lib 5 ?s = Some s'" "listing sample_entries (tx s')"
    using server [rule_format, of ?s "[]" user] k sample_listable by auto
  have "char_of (51 :: nat) = CHR ''3''" "char_of (48 :: nat) = CHR ''0''" by code_simp+
  then have "map entry_line sample_entries = [''3'' @ [CHR 0x09] @ ''f'', ''0'' @ [CHR 0x09] @ ''d'']"
    by (simp add: entry_line_def sample_entries_def dec.simps)
  with c'(2,3) have "out c' = [''3'' @ [CHR 0x09] @ ''f'', ''0'' @ [CHR 0x09] @ ''d'', ''listing done'']" "tx c' = w" by simp_all
  with s' c'(1) show ?thesis by blast
qed

end
