(* ===== verification/Removal.thy ===== *)
theory Removal
  imports Listing
begin

text \<open>
  rm, client and server together: the client names a file or directory of the user's, the server
  removes the whole tree below it and answers with its description, and the client prints the name.
\<close>

section \<open>The client's side\<close>

text \<open>The answer to REMOVE_REQ: a description with the name that was removed.\<close>

definition removed :: "string \<Rightarrow> byte list \<Rightarrow> bool" where
  "removed name w \<longleftrightarrow> (\<exists>info. message MSGTYPE_REMOVE_RES (enc_info info) w \<and> wf_info info \<and> info_name info = Some name)"

lemma cmd_rm_quiet:
  fixes c :: "'a client_scheme"
  assumes L: "lib_ok L" and q: "quiet c" and tok: "has_token L E t c" and path: "length path < 4045"
    and answers: "removed name (incoming c)"
  shows "\<exists>w c'. cmd_rm L E prog [path] c = Some (0, c') \<and> out c' = out c @ [''deleted file: '' @ name] \<and>
    tx c' = tx c @ w \<and> requested MSGTYPE_REMOVE_REQ t (cbytes path) w"
proof -
  obtain m0 c0 where u: "uninit_msg c = (m0, c0)" by fastforce
  have len: "cbytes path \<noteq> []" "length (cbytes path) < 2 ^ 64" using path by (simp_all add: cbytes_def)
  from command_request [OF L q tok u len, of MSGTYPE_REMOVE_REQ] obtain c1 m' c2 w where
    c2: "load_token L E (hdr_token (hdr m0)) c0 = Some (0, t, c1)"
      "msg_send (msg_init (set_token t m0) MSGTYPE_REMOVE_REQ (Some (cbytes path)) (of_nat (length (cbytes path)))) None 0 c1 = Some (0, m', c2)"
      "tx c2 = tx c @ w" "requested MSGTYPE_REMOVE_REQ t (cbytes path) w" "quiet c2" "wf_hdr (hdr m')" "incoming c2 = incoming c"
      "out c2 = out c" by blast
  from answers obtain info where i: "message MSGTYPE_REMOVE_RES (enc_info info) (incoming c)" "wf_info info"
    "info_name info = Some name" by (auto simp: removed_def)
  note b = enc_info_bounds [OF i(2)]
  have inc: "incoming c2 = incoming c @ []" using c2(7) by simp
  from recv_message_header [OF c2(6,5) i(1) inc] obtain h c3 ts where
    c3: "msg_recv_header m' c2 = Some (0, m'\<lparr>hdr := h, rcvd_at := ts\<rparr>, c3)" "hdr_type h = type_code MSGTYPE_REMOVE_RES"
      "hdr_length h = of_nat (length (enc_info info))" "incoming c3 = enc_info info @ []" "rx_step c2 c3" "quiet c3" by blast
  let ?m = "m'\<lparr>hdr := h, rcvd_at := ts\<rparr>"
  have hl: "hdr_length (hdr ?m) = of_nat (length (enc_info info))" "of_nat (length (enc_info info)) \<le> (8192 :: usize)"
    using c3(3) b(2) by (simp_all add: FileInfo_size_def PATH_MAX_def)
  from recv_payload_some [OF c3(6) b(1) hl(1) b(3) hl(2) c3(4)] obtain c4 where
    c4: "msg_recv_payload 8192 ?m c3 = Some (0, ?m\<lparr>payload := Some (enc_info info)\<rparr>, c4)" "rx_step c3 c4" by blast
  have "hdr_length h \<noteq> 0" using c3(3) b(2) by (simp add: FileInfo_size_def PATH_MAX_def)
  then have ri: "received_info (?m\<lparr>payload := Some (enc_info info)\<rparr>) = Some info"
    using payload_info_enc [OF i(2), of "?m"] by (simp add: received_info_def received_def)
  have ty: "type_code MSGTYPE_REMOVE_RES \<noteq> type_code MSGTYPE_ERROR" by (simp add: type_code_def MSGTYPES_def)
  have "cmd_rm L E prog [path] c = Some (0, say (''deleted file: '' @ name) c4)"
    using u c2(1,2) c3(1,2) c4(1) ri i(3) ty by (simp add: cmd_rm_def handle_recv_error_def)
  moreover have "out c4 = out c" "tx c4 = tx c @ w"
    using step_out(2) [OF c3(5)] step_out(2) [OF c4(2)] c2(3,8) c3(5) c4(2) by (simp_all add: rx_step_def)
  ultimately show ?thesis using c2(4) by (intro exI [of _ w]) (simp add: say_def)
qed

section \<open>The server's side\<close>

text \<open>The description handle_remove answers with, of a file, a directory or anything else.\<close>

lemma removal_info:
  assumes L: "lib_ok L" and plan: "fs_plan c = []" and r: "resolve c path = Inr p" "lookup (fs c) p = Some n" "NUL \<notin> set path"
  shows "\<exists>ret info info'. fileinfo_from_filename (sha256 L) path zero_info c = Some (ret, info, c) \<and> (ret = 0 \<or> ret = -2) \<and>
    (if ret = -2 then set_filename path info else Some info) = Some info' \<and> wf_info info' \<and> info_name info' = Some path"
proof (cases "\<exists>bs. n = NFile bs")
  case True
  have sha: "\<And>b. length (sha256 L b) = 32" using L by (simp add: lib_ok_def)
  from True r(2) obtain bs where l: "lookup (fs c) p = Some (NFile bs)" by blast
  from fileinfo_quiet [where sha = "sha256 L" and c = c and out = zero_info, OF sha plan r(1) l wf_zero_info] r(3)
  show ?thesis by fastforce
next
  case False
  have "length path < PATH_MAX" using resolve_length [OF r(1)] .
  then obtain i where i: "set_filename path zero_info = Some i" by (simp add: set_filename_def zero_info_def)
  have "lstat path c = (Some n, c)" using r(1,2) by (simp add: lstat_def at_path_quiet [OF plan])
  then have "fileinfo_from_filename (sha256 L) path zero_info c = Some (-2, zero_info, c)"
    using False by (cases n) (auto simp: fileinfo_from_filename_def)
  with i wf_set_filename [OF i wf_zero_info] set_filename_name [OF i r(3)] show ?thesis by fastforce
qed

lemma handle_remove_quiet:
  assumes L: "lib_ok L" and q: "quiet s" and user: "user \<noteq> NULL" and msg: "wf_hdr (hdr msg)" "hdr_token (hdr msg) = t"
    "hdr_length (hdr msg) = of_nat (length (cbytes path))" "incoming s = cbytes path @ rest"
    and path: "length path < 4045" "NUL \<notin> set path" "\<forall>x \<in> set (segments path). plain_name x"
    and n: "lookup (fs s) (dir_place L t path) = Some n" "fits (fs s) (render_tail (dir_place L t path))"
  shows "\<exists>s' r. handle_remove L user msg s = Some s' \<and> tx s' = tx s @ r \<and> removed (render_tail (dir_place L t path)) r \<and>
    fs s' = put_node (fs s) (dir_place L t path) None \<and> man s' = man s"
proof -
  have u: "uuid_text (uuid_unparse L)" using L by (simp add: lib_ok_def)
  let ?p = "dir_place L t path" and ?f = "render_tail (dir_place L t path)"
  note dp = dir_place_plain [OF u path(3), of t] and r = render_plain_path [OF dir_place_plain [OF u path(3), of t]]
  have len: "length (cbytes path) \<le> 8192" "of_nat (length (cbytes path)) \<le> (8192 :: usize)"
    using path(1) by (simp_all add: word_le_nat_alt unat_of_nat del: of_nat_add of_nat_Suc)
  have ne: "cbytes path \<noteq> []" by (simp add: cbytes_def)
  from recv_payload_some [OF q ne msg(3) len msg(4)] obtain s1 where
    s1: "msg_recv_payload 8192 msg s = Some (0, msg\<lparr>payload := Some (cbytes path)\<rparr>, s1)" "rx_step s s1" "quiet s1"
    by blast
  let ?m = "msg\<lparr>payload := Some (cbytes path)\<rparr>"
  have f1: "fs s1 = fs s" "tx s1 = tx s" "man s1 = man s"
    using rx_step_fs [OF s1(2)] io_state [OF rx_step_same [OF s1(2)]] s1(2) by (simp_all add: rx_step_def state_same_def)
  have name: "payload_string ?m = Some path" using cstr_cbytes [OF path(2), of "[]"] by (simp add: payload_string_def)
  have "\<forall>x \<in> set (segments path). plain_seg x" using path(3) by (simp add: plain_name_def)
  from user_path_segs [OF u this path(1), of t] msg(2) have
    up: "get_user_path (uuid_unparse L) True path (hdr_token (hdr ?m)) = Some (Some ?f)" by (simp add: dir_place_def)
  have l: "lookup (fs s1) ?p = Some n" using n(1) f1(1) by simp
  have "lookup (fs s) (segments ?f @ []) \<noteq> None" using n(1) r(2) by simp
  with n(2) have "length ?f + length (render_tail []) < PATH_MAX" unfolding fits_def by blast
  then have short: "length ?f < PATH_MAX" by simp
  have to: "path_to ?f ?p s1" using r dp short by (simp add: path_to_def)
  have plan: "fs_plan s1 = []" "calm s1" using s1(3) by (simp_all add: quiet_def calm_def)
  from removal_info [OF L plan(1) path_to_resolve [OF to lookup_place [OF l dp(2)]] l r(4)] obtain ret info info' where
    i: "fileinfo_from_filename (sha256 L) ?f zero_info s1 = Some (ret, info, s1)" "ret = 0 \<or> ret = -2"
      "(if ret = -2 then set_filename ?f info else Some info) = Some info'" "wf_info info'" "info_name info' = Some ?f" by blast
  have "fits (fs s1) ?f" using n(2) f1(1) by simp
  from rm_r_tree [OF plan(2) to l this, of rm_fuel] obtain s2 where
    s2: "rm_r rm_fuel (Some ?f) s1 = Some (0, s2)" "fs_becomes s1 (put_node (fs s) ?p None) s2" using f1(1) by (auto simp: rm_fuel_def)
  have f2: "fs s2 = put_node (fs s) ?p None" "man s2 = man s" "tx s2 = tx s" "tx_quiet (tx_plan s2)"
    using s2(2) fs_becomes_conn [OF s2(2)] f1 s1(3) by (auto simp: fs_becomes_def quiet_def)
  note b = enc_info_bounds [OF i(4)]
  have pl: "enc_info info' = [] \<and> Some (enc_info info') = None \<or> enc_info info' \<noteq> [] \<and> Some (enc_info info') = Some (enc_info info')"
    using b(1) by simp
  have wf: "wf_hdr (hdr ?m)" using msg(1) by simp
  from msg_send_reply [OF wf f2(4) pl b(4), of MSGTYPE_REMOVE_RES, unfolded b(2)] obtain m3 s3 where
    s3: "msg_send (msg_init ?m MSGTYPE_REMOVE_RES (Some (enc_info info')) (of_nat FileInfo_size)) None 0 s2 = Some (0, m3, s3)"
      "replied MSGTYPE_REMOVE_RES (enc_info info') s2 s3" "tx_step s2 s3" by blast
  obtain w where w: "message MSGTYPE_REMOVE_RES (enc_info info') w" "tx s3 = tx s2 @ w" using s3(2) unfolding replied_message by blast
  have "handle_remove L user msg s = Some s3"
    using user s1(1) name up i(1-3) s2(1) s3(1) by (auto simp: handle_remove_def remove_path_def)
  moreover have "fs s3 = fs s2" "man s3 = man s2"
    using tx_step_fs [OF s3(3)] io_state [OF tx_step_same [OF s3(3)]] by (simp_all add: state_same_def)
  ultimately show ?thesis using w i(4,5) f2(1-3) unfolding removed_def by (intro exI [of _ s3] exI [of _ w]) auto
qed

lemma on_readable_remove:
  assumes L: "lib_ok L" and q: "quiet s" and k: "knows L t user s"
    and w: "requested MSGTYPE_REMOVE_REQ t (cbytes path) w" "incoming s = w @ rest"
    and path: "length path < 4045" "NUL \<notin> set path" "\<forall>x \<in> set (segments path). plain_name x"
    and n: "lookup (fs s) (dir_place L t path) = Some n" "fits (fs s) (render_tail (dir_place L t path))"
  shows "\<exists>s' r. on_readable L fd s = Some s' \<and> tx s' = tx s @ r \<and> removed (render_tail (dir_place L t path)) r \<and>
    fs s' = put_node (fs s) (dir_place L t path) None \<and> man s' = man s"
proof -
  have ty: "MSGTYPE_REMOVE_REQ \<in> {MSGTYPE_AUTH_REQ, MSGTYPE_REMOVE_REQ, MSGTYPE_MKDIR_REQ}" by simp
  from on_readable_oneshot [OF q k w ty, of fd] obtain msg s1 where
    m: "taken MSGTYPE_REMOVE_REQ t (cbytes path) rest s msg s1" "user \<noteq> NULL" and
    run: "\<And>s2. on_oneshot_req L MSGTYPE_REMOVE_REQ user msg s1 = Some s2 \<Longrightarrow> on_readable L fd s = Some s2" by blast
  note m' = m(1) [unfolded taken_def]
  from handle_remove_quiet [OF L _ m(2) _ _ _ _ path, of s1 msg t rest n] m' n obtain s2 r where
    s2: "handle_remove L user msg s1 = Some s2" "tx s2 = tx s1 @ r" "removed (render_tail (dir_place L t path)) r"
      "fs s2 = put_node (fs s) (dir_place L t path) None" "man s2 = man s" by auto
  with run [of s2] m' show ?thesis by (auto simp: on_oneshot_req_def)
qed

section \<open>Properties\<close>

text \<open>
  C5. rm, client and server together. The client with a token names a file or directory by plain
  components; the event loop of a server that knows the token, and where it exists below the user's
  directory with paths short enough for the buffers, removes it with everything below it, changes
  nothing else of the tree and no user, and answers with the server's own path of it; and with such
  an answer the command prints that path and ends with status 0. With no component at all the user's
  own directory goes.
\<close>

theorem rm_end_to_end:
  fixes c :: "'a client_scheme"
  assumes "lib_ok L" "quiet c" "has_token L E t c" "length path < 4045" "NUL \<notin> set path"
    "\<forall>x \<in> set (segments path). plain_name x" "removed (render_tail (dir_place L t path)) (incoming c)"
  shows "\<exists>w c'. cmd_rm L E prog [path] c = Some (0, c') \<and>
    out c' = out c @ [''deleted file: '' @ render_tail (dir_place L t path)] \<and> tx c' = tx c @ w \<and>
    (\<forall>s rest user n. quiet s \<and> incoming s = w @ rest \<and> knows L t user s \<and>
       lookup (fs s) (dir_place L t path) = Some n \<and> fits (fs s) (render_tail (dir_place L t path)) \<longrightarrow>
       (\<exists>s' r. on_readable L fd s = Some s' \<and> tx s' = tx s @ r \<and> removed (render_tail (dir_place L t path)) r \<and>
          fs s' = put_node (fs s) (dir_place L t path) None \<and> man s' = man s))"
proof -
  from cmd_rm_quiet [OF assms(1-4,7)] obtain w c' where
    c': "cmd_rm L E prog [path] c = Some (0, c')" "out c' = out c @ [''deleted file: '' @ render_tail (dir_place L t path)]"
      "tx c' = tx c @ w" "requested MSGTYPE_REMOVE_REQ t (cbytes path) w" by blast
  have "\<exists>s' r. on_readable L fd s = Some s' \<and> tx s' = tx s @ r \<and> removed (render_tail (dir_place L t path)) r \<and>
      fs s' = put_node (fs s) (dir_place L t path) None \<and> man s' = man s"
    if s: "quiet s" "incoming s = w @ rest" "knows L t user s" "lookup (fs s) (dir_place L t path) = Some n"
      "fits (fs s) (render_tail (dir_place L t path))" for s rest user n
    by (rule on_readable_remove [OF assms(1) s(1,3) c'(4) s(2) assms(4-6) s(4,5)])
  with c' show ?thesis by blast
qed

lemma sample_removed: "\<exists>inc. removed (render_tail (dir_place client_lib (sample_token 0 1) ''d'')) inc"
proof -
  let ?name = "render_tail (dir_place client_lib (sample_token 0 1) ''d'')"
  have "length ?name < PATH_MAX" "NUL \<notin> set ?name"
    by (simp_all add: dir_place_def storage_segs_def render_tail_def PATH_MAX_def sample_uuid_def NUL_def)
  moreover then obtain i where "set_filename ?name zero_info = Some i" by (simp add: set_filename_def zero_info_def)
  ultimately have "removed ?name (sample_message MSGTYPE_REMOVE_RES (enc_info i))"
    using wf_set_filename [OF _ wf_zero_info] set_filename_name sample_message unfolding removed_def by blast
  then show ?thesis by blast
qed

lemma sample_removable:
  "fits (NDir (sample_storage sample_entries)) (render_tail (dir_place client_lib (sample_token 0 1) ''d''))"
proof -
  let ?p = "dir_place client_lib (sample_token 0 1) ''d''"
  have u: "uuid_text (uuid_unparse client_lib)" using client_lib_ok by (simp add: lib_ok_def)
  have d: "\<forall>x \<in> set (segments ''d''). plain_name x" by (simp add: plain_name_def plain_seg_def seg_ok_def NUL_def)
  have s: "segments (render_tail ?p) = ?p" by (rule render_plain_path(2) [OF dir_place_plain [OF u d]])
  have l: "lookup (NDir (sample_storage sample_entries)) ?p = Some (NDir [])"
    by (simp add: dir_place_def storage_segs_def sample_storage_def sample_entries_def)
  have "length (render_tail ?p) < PATH_MAX"
    by (simp add: dir_place_def storage_segs_def render_tail_def PATH_MAX_def sample_uuid_def)
  moreover have "q = []" if "lookup (NDir (sample_storage sample_entries)) (?p @ q) \<noteq> None" for q
    using that l by (cases q) (simp_all add: lookup_append)
  ultimately show ?thesis unfolding fits_def s by fastforce
qed

theorem rm_end_to_end_witness:
  "\<exists>inc w c' s' m. cmd_rm client_lib (sample_env ''/s'') ''minidropbox'' [''d''] (sample_client [token_dir] inc) = Some (0, c') \<and>
    tx c' = w \<and> on_readable client_lib 5 (sample_server (sample_storage sample_entries) w m no_objects) = Some s' \<and>
    lookup (fs s') (storage_segs @ [sample_uuid True, ''d'']) = None \<and>
    lookup (fs s') (storage_segs @ [sample_uuid True, ''f'']) = Some (NFile [1, 2, 3])"
proof -
  let ?t = "sample_token 0 1" and ?p = "dir_place client_lib (sample_token 0 1) ''d''"
  obtain inc where inc: "removed (render_tail ?p) inc" using sample_removed by blast
  let ?c = "sample_client [token_dir] inc"
  have q: "quiet ?c" by simp
  have path: "length ''d'' < 4045" "NUL \<notin> set ''d''" "\<forall>x \<in> set (segments ''d''). plain_name x"
    by (simp_all add: plain_name_def plain_seg_def seg_ok_def NUL_def)
  have a: "removed (render_tail ?p) (incoming ?c)" using inc by simp
  from rm_end_to_end [OF client_lib_ok q sample_has_token path a, where fd = 5 and prog = "''minidropbox''"]
  obtain w c' where c': "cmd_rm client_lib (sample_env ''/s'') ''minidropbox'' [''d''] ?c = Some (0, c')" "tx c' = tx ?c @ w" and
    server: "\<forall>s rest user n. quiet s \<and> incoming s = w @ rest \<and> knows client_lib ?t user s \<and>
       lookup (fs s) ?p = Some n \<and> fits (fs s) (render_tail ?p) \<longrightarrow>
       (\<exists>s' r. on_readable client_lib 5 s = Some s' \<and> tx s' = tx s @ r \<and> removed (render_tail ?p) r \<and>
          fs s' = put_node (fs s) ?p None \<and> man s' = man s)" by blast
  from sample_known [of "sample_storage sample_entries" w] obtain m user where
    k: "knows client_lib ?t user (sample_server (sample_storage sample_entries) w m no_objects)" by blast
  let ?s = "sample_server (sample_storage sample_entries) w m no_objects"
  have l: "lookup (fs ?s) ?p = Some (NDir [])"
    by (simp add: dir_place_def storage_segs_def sample_storage_def sample_entries_def)
  obtain s' where s': "on_readable client_lib 5 ?s = Some s'" "fs s' = put_node (fs ?s) ?p None"
    using server [rule_format, of ?s "[]" user] k l sample_removable by auto
  have "lookup (fs s') (storage_segs @ [sample_uuid True, ''d'']) = None"
    "lookup (fs s') (storage_segs @ [sample_uuid True, ''f'']) = Some (NFile [1, 2, 3])"
    unfolding s'(2) by (simp_all add: dir_place_def storage_segs_def sample_storage_def sample_entries_def)
  with s'(1) c' show ?thesis by auto
qed

end
