(* ===== verification/Sharing.thy ===== *)
theory Sharing
  imports Removal
begin

text \<open>
  Two connections of one user: what one client uploads, another client downloads, with the requests
  taken by the event loop one after the other.
\<close>

section \<open>One event of the loop\<close>

text \<open>The socket under a descriptor, ready to be read: these bytes come first, and sending succeeds;
  and what has been sent on it.\<close>

definition ready :: "server \<Rightarrow> nat \<Rightarrow> byte list \<Rightarrow> bool" where
  "ready s fd w \<longleftrightarrow> (\<exists>so rest. open_fds s fd = Some so \<and> quiet (focus so s) \<and> incoming (focus so s) = w @ rest)"

definition sent :: "server \<Rightarrow> nat \<Rightarrow> byte list" where
  "sent s fd = (case open_fds s fd of None \<Rightarrow> [] | Some so \<Rightarrow> so_tx so)"

lemma tx_focus: "open_fds s fd = Some so \<Longrightarrow> tx (focus so s) = sent s fd"
  by (simp add: sent_def focus_def)

lemma loop_reads:
  assumes "open_fds s fd = Some so" "on_readable L fd (focus so s) = Some s'" "open_fds s' fd = None"
  shows "loop_step L (s, Readable fd # evs) (s', evs)" "open_fds s' = (open_fds s)(fd := None)"
proof -
  have "on_event L (AcceptErr 0) (Readable fd) s = Some s'" using assms by (simp add: unfocus_def)
  then show "loop_step L (s, Readable fd # evs) (s', evs)" by (intro next_event [where acc = "AcceptErr 0"]) simp_all
  from on_readable_fds [OF assms(2)] assms(1,3) show "open_fds s' = (open_fds s)(fd := None)"
    by (auto simp: fd_step_def focus_def fun_eq_iff)
qed

lemma focus_frame [simp]:
  "fs (focus so s) = fs s" "man (focus so s) = man s" "objs (focus so s) = objs s" "open_fds (focus so s) = open_fds s"
  "knows L t user (focus so s) = knows L t user s" "room_for user n (focus so s) = room_for user n s"
  by (simp_all add: focus_def knows_def room_for_def)

text \<open>A socket that was ready stays so while other descriptors are served.\<close>

lemma ready_other:
  assumes "ready s fd w" "open_fds s' fd = open_fds s fd" "fs_plan s' = []"
  shows "ready s' fd w"
  using assms by (auto simp: ready_def focus_def quiet_def)

section \<open>Properties\<close>

text \<open>
  C1. What is uploaded is downloaded. A client uploads a file, and then a client of the same user,
  perhaps another machine, downloads its base name. When the event loop is told of both requests,
  in this order, it takes both; the answers it sends are those the two commands need; and both
  commands end with status 0, the second with a local file of exactly the bytes of the first.
\<close>

theorem upload_then_download:
  fixes c1 :: "'a client_scheme" and c2 :: "'b client_scheme"
  assumes "lib_ok L"
    "quiet c1" "has_token L E1 t c1" "resolve c1 source = Inr p1" "lookup (fs c1) p1 = Some (NFile data)" "NUL \<notin> set source"
    "length data \<le> 2 ^ 24" "strrchr source CHR ''/'' = Some (CHR ''/'' # b)" "plain_name b"
    "upload_answers (chunk_count_of (length data)) (incoming c1)"
    "quiet c2" "has_token L E2 t c2" "resolve c2 local = Inr p2" "lookup (fs c2) p2 = None" "NUL \<notin> set local"
    "download_answers L data (incoming c2)"
  shows "\<exists>w1 w2 c1' c2'. cmd_upload L E1 prog (source # args) c1 = Some (0, c1') \<and> tx c1' = tx c1 @ w1 \<and>
    cmd_download L E2 prog [b, local] c2 = Some (0, c2') \<and> tx c2' = tx c2 @ w2 \<and> lookup (fs c2') p2 = Some (NFile data) \<and>
    (\<forall>s fd1 fd2 user es. ready s fd1 w1 \<and> ready s fd2 w2 \<and> fd1 \<noteq> fd2 \<and> knows L t user s \<and> room_for user (length data) s \<and>
       lookup (fs s) (storage_segs @ [uuid_unparse L t]) = Some (NDir es) \<and> lookup (fs s) (user_place L t b) = None \<longrightarrow>
       (\<exists>s1 s2 r1 r2. loop_step L (s, [Readable fd1, Readable fd2]) (s1, [Readable fd2]) \<and>
          tx s1 = sent s fd1 @ r1 \<and> upload_answers (chunk_count_of (length data)) r1 \<and> lookup (fs s1) (user_place L t b) = Some (NFile data) \<and>
          loop_step L (s1, [Readable fd2]) (s2, []) \<and> tx s2 = sent s1 fd2 @ r2 \<and> download_answers L data r2 \<and>
          open_fds s2 = (open_fds s)(fd1 := None, fd2 := None) \<and> fs s2 = fs s1))"
proof -
  from cmd_upload_quiet [OF assms(1-7,10)] obtain w1 c1' where
    c1: "cmd_upload L E1 prog (source # args) c1 = Some (0, c1')" "tx c1' = tx c1 @ w1" "upload_bytes L t source data w1" by blast
  have b: "NUL \<notin> set b" "length b < PATH_MAX" using assms(9) by (auto simp: plain_name_def PATH_MAX_def)
  from cmd_download_quiet [OF assms(1,11-15) b assms(7,16)] obtain w2 c2' where
    c2: "cmd_download L E2 prog [b, local] c2 = Some (0, c2')" "tx c2' = tx c2 @ w2"
      "download_bytes t b (chunk_count_of (length data)) w2" "lookup (fs c2') p2 = Some (NFile data)" by blast
  have "\<exists>s1 s2 r1 r2. loop_step L (s, [Readable fd1, Readable fd2]) (s1, [Readable fd2]) \<and>
      tx s1 = sent s fd1 @ r1 \<and> upload_answers (chunk_count_of (length data)) r1 \<and> lookup (fs s1) (user_place L t b) = Some (NFile data) \<and>
      loop_step L (s1, [Readable fd2]) (s2, []) \<and> tx s2 = sent s1 fd2 @ r2 \<and> download_answers L data r2 \<and>
      open_fds s2 = (open_fds s)(fd1 := None, fd2 := None) \<and> fs s2 = fs s1"
    if s: "ready s fd1 w1" "ready s fd2 w2" "fd1 \<noteq> fd2" and k: "knows L t user s" "room_for user (length data) s"
      and f: "lookup (fs s) (storage_segs @ [uuid_unparse L t]) = Some (NDir es)" "lookup (fs s) (user_place L t b) = None"
    for s fd1 fd2 user es
  proof -
    from s(1) obtain so1 rest1 where so1: "open_fds s fd1 = Some so1" "quiet (focus so1 s)" "incoming (focus so1 s) = w1 @ rest1"
      by (auto simp: ready_def)
    from on_readable_upload [OF assms(1) so1(2) _ c1(3) so1(3) _ assms(8,9) _ _ assms(7), of user es fd1] k f obtain s1 r1 where
      s1: "on_readable L fd1 (focus so1 s) = Some s1" "tx s1 = tx (focus so1 s) @ r1" "upload_answers (chunk_count_of (length data)) r1"
        "lookup (fs s1) (user_place L t b) = Some (NFile data)" "idle_user user (focus so1 s) s1" "open_fds s1 fd1 = None"
        "quiet s1" "same_map (focus so1 s) s1" by auto
    note l1 = loop_reads [OF so1(1) s1(1,6)]
    have "ready s1 fd2 w2" by (rule ready_other [OF s(2)]) (use l1(2) s(3) s1(7) in \<open>simp_all add: quiet_def\<close>)
    then obtain so2 rest2 where so2: "open_fds s1 fd2 = Some so2" "quiet (focus so2 s1)" "incoming (focus so2 s1) = w2 @ rest2"
      by (auto simp: ready_def)
    have "knows L t user (focus so2 s1)" "no_transfers user (focus so2 s1)"
      using k same_map_knows [OF s1(8)] s1(5) by (auto simp: room_for_def no_transfers_def idle_user_def idle_def)
    from on_readable_download [OF assms(1) so2(2) this(1) c2(3) so2(3) this(2) assms(9) _ assms(7), of fd2] s1(4) obtain s2 r2 where
      s2: "on_readable L fd2 (focus so2 s1) = Some s2" "tx s2 = tx (focus so2 s1) @ r2" "download_answers L data r2"
        "fs s2 = fs s1" "open_fds s2 fd2 = None" by auto
    note l2 = loop_reads [OF so2(1) s2(1,5)]
    show ?thesis using l1 l2 s1(2-4) s2(2-4) tx_focus [OF so1(1)] tx_focus [OF so2(1)] by metis
  qed
  with c1(1,2) c2(1,2,4) show ?thesis by blast
qed

text \<open>A server that knows one user, with two connections.\<close>

definition two_sockets :: "byte list \<Rightarrow> byte list \<Rightarrow> uman \<Rightarrow> server" where
  "two_sockets w1 w2 m = (sample_server (sample_storage []) [] m no_objects)\<lparr>open_fds :=
     [5 \<mapsto> \<lparr>so_rx = [RxData w1], so_tx_plan = [], so_tx = []\<rparr>, 6 \<mapsto> \<lparr>so_rx = [RxData w2], so_tx_plan = [], so_tx = []\<rparr>]\<rparr>"

lemma two_sockets_ready: "ready (two_sockets w1 w2 m) 5 w1" "ready (two_sockets w1 w2 m) 6 w2"
  by (simp_all add: ready_def two_sockets_def focus_def quiet_def sample_server_def)

theorem upload_then_download_witness:
  "\<exists>inc w1 w2 m c1' c2' s1 s2.
    cmd_upload client_lib (sample_env ''/s'') ''minidropbox'' [''/d/f''] (sample_client [token_dir, local_dir] sample_answers) = Some (0, c1') \<and>
    cmd_download client_lib (sample_env ''/s'') ''minidropbox'' [''f'', ''/g''] (sample_client [token_dir] inc) = Some (0, c2') \<and>
    tx c1' = w1 \<and> tx c2' = w2 \<and> lookup (fs c2') [''g''] = Some (NFile [1, 2, 3]) \<and>
    loop_step client_lib (two_sockets w1 w2 m, [Readable 5, Readable 6]) (s1, [Readable 6]) \<and>
    loop_step client_lib (s1, [Readable 6]) (s2, [])"
proof -
  let ?data = "[1, 2, 3] :: byte list" and ?t = "sample_token 0 1"
  obtain inc where inc: "download_answers client_lib ?data inc" using sample_download_answers by blast
  let ?c2 = "sample_client [token_dir] inc"
  have q: "quiet uploader" "quiet ?c2" by simp_all
  have a: "download_answers client_lib ?data (incoming ?c2)" using inc by simp
  from upload_then_download [OF client_lib_ok q(1) sample_has_token sample_upload q(2) sample_has_token sample_download a,
      where prog = "''minidropbox''" and args = "[]"]
  obtain w1 w2 c1' c2' where
    c: "cmd_upload client_lib (sample_env ''/s'') ''minidropbox'' [''/d/f''] uploader = Some (0, c1')" "tx c1' = tx uploader @ w1"
      "cmd_download client_lib (sample_env ''/s'') ''minidropbox'' [''f'', ''/g''] ?c2 = Some (0, c2')" "tx c2' = tx ?c2 @ w2"
      "lookup (fs c2') [''g''] = Some (NFile ?data)" and
    server: "\<forall>s fd1 fd2 user es. ready s fd1 w1 \<and> ready s fd2 w2 \<and> fd1 \<noteq> fd2 \<and> knows client_lib ?t user s \<and>
        room_for user (length ?data) s \<and> lookup (fs s) (storage_segs @ [uuid_unparse client_lib ?t]) = Some (NDir es) \<and>
        lookup (fs s) (user_place client_lib ?t ''f'') = None \<longrightarrow>
      (\<exists>s1 s2 r1 r2. loop_step client_lib (s, [Readable fd1, Readable fd2]) (s1, [Readable fd2]) \<and>
         tx s1 = sent s fd1 @ r1 \<and> upload_answers (chunk_count_of (length ?data)) r1 \<and>
         lookup (fs s1) (user_place client_lib ?t ''f'') = Some (NFile ?data) \<and>
         loop_step client_lib (s1, [Readable fd2]) (s2, []) \<and> tx s2 = sent s1 fd2 @ r2 \<and> download_answers client_lib ?data r2 \<and>
         open_fds s2 = (open_fds s)(fd1 := None, fd2 := None) \<and> fs s2 = fs s1)" by blast
  from sample_known [of "sample_storage []" "[]"] obtain m user where
    k: "knows client_lib ?t user (sample_server (sample_storage []) [] m no_objects)"
      "users m user = Some (user_init ?t (\<lambda>_. 0) (Some ?t))" by blast
  let ?s = "two_sockets w1 w2 m"
  have s: "users (man ?s) user = Some (user_init ?t (\<lambda>_. 0) (Some ?t))" "fs ?s = NDir (sample_storage [])"
    "knows client_lib ?t user ?s" using k by (simp_all add: two_sockets_def knows_def)
  from server [rule_format, of ?s 5 6 user "[]"] two_sockets_ready s(3) sample_room [OF s(1,2)] obtain s1 s2 where
    "loop_step client_lib (?s, [Readable 5, Readable 6]) (s1, [Readable 6])" "loop_step client_lib (s1, [Readable 6]) (s2, [])"
    by auto
  moreover have "tx c1' = w1" "tx c2' = w2" using c(2,4) by simp_all
  ultimately show ?thesis using c(1,3,5) by blast
qed

end
