(* ===== verification/Exposure.thy ===== *)
theory Exposure
  imports Listing
begin

text \<open>
  What handle_download lets a user read. It checks the path that get_user_path makes of the name of
  the request, but sends the file whose name is in the description; fileinfo_from_filename puts the
  checked path there only when that is a regular file.
\<close>

section \<open>The session of a transfer that is not removed\<close>

lemma open_session_kept:
  assumes u: "users (man s) user = Some u" "wf_user u" "session_list u = []" "1 < u_sessions_capacity u"
    and i: "infos (objs s) a = Some i"
  shows "\<exists>x u1 s' ss. open_session ty user a f s = Some (0, x, s') \<and> io_eq s s' \<and> users (man s') user = Some u1 \<and>
    infos (objs s') a = Some i \<and> sess (objs s') x = Some ss \<and> s_type ss = ty \<and> s_file_info ss = a \<and>
    wf_user u1 \<and> session_list u1 = [x]"
proof -
  let ?x = "brk s" and ?now = "clock s 0"
  have get: "user_get_session (objs s) u ty f = Some NULL" using transfer_session [OF u(2-4)] by blast
  have "u_sessions_count u < u_sessions_capacity u"
    using u(2-4) length_session_list [OF u(2)] by (simp add: word_less_nat_alt)
  from user_add_session_list [OF u(2) this, of ?x] u(3) obtain u1 where
    u1: "user_add_session u ?x = Some (0, u1)" "session_list u1 = [?x]" "wf_user u1" by auto
  let ?s' = "set_user user u1 (set_session ?x (session_init a ty ?now) (snd (clock_gettime (s\<lparr>brk := ?x + 1\<rparr>))))"
  have "open_session ty user a f s = Some (0, ?x, ?s')"
    using u(1) get u1(1) by (simp add: open_session_def clock_gettime_def Let_def)
  moreover have "io_eq s ?s'" by (simp add: io_eq_def same_map_def set_user_def set_session_def clock_gettime_def)
  moreover have "users (man ?s') user = Some u1" "infos (objs ?s') a = Some i"
    "sess (objs ?s') ?x = Some (session_init a ty ?now)"
    using i by (simp_all add: set_user_def set_session_def clock_gettime_def)
  moreover have "s_type (session_init a ty ?now) = ty" "s_file_info (session_init a ty ?now) = a"
    by (simp_all add: session_init_def)
  ultimately show ?thesis using u1(2,3) by blast
qed

lemma remove_session_other:
  assumes "wf_user u" "session_list u = [x]" "session_at m x = Some (ss, name)" "name \<noteq> f"
  shows "user_remove_session m u ty f = Some (-1, u)"
  using assms by (intro user_remove_session_absent) (simp_all add: readable_def is_for_def)

section \<open>The answer to a request for a directory\<close>

text \<open>The description goes out as it came, and the file it names is sent.\<close>

definition exposes :: "lib \<Rightarrow> string \<Rightarrow> byte list \<Rightarrow> byte list \<Rightarrow> bool" where
  "exposes L path data r \<longleftrightarrow> (\<exists>info r1 chunks. r = r1 @ chunks \<and> message MSGTYPE_DOWNLOAD_RES (enc_info info) r1 \<and>
     wf_info info \<and> info_name info = Some path \<and> chunk_stream (sha256 L) data 0 (chunk_count_of (length data)) chunks)"

lemma download_send_exposes:
  assumes L: "lib_ok L" and q: "quiet s" and info: "wf_info info" "fi_size info = 0" "info_name info = Some path"
    and d: "resolve s filename = Inr dp" "lookup (fs s) dp = Some (NDir es)" "path \<noteq> filename"
    and f: "resolve s path = Inr p" "lookup (fs s) p = Some (NFile data)" "length data \<le> 2 ^ 24"
    and acks: "incoming s = acks @ rest" "ack_stream (chunk_count_of (length data)) acks"
    and mem: "users (man s) user = Some u1" "sess (objs s) x = Some ss" "s_file_info ss = a" "wf_user u1" "session_list u1 = [x]"
  shows "\<exists>s' r. download_send L user x a info filename s = Some s' \<and> tx s' = tx s @ r \<and> exposes L path data r \<and>
    fs s' = fs s \<and> users (man s') user = Some u1"
proof -
  have sha: "\<And>b. length (sha256 L b) = 32" using L by (simp add: lib_ok_def)
  have plan: "fs_plan s = []" using q by (simp add: quiet_def)
  have dir: "fileinfo_from_filename (sha256 L) filename info s = Some (-2, info, s)"
    using d by (simp add: fileinfo_from_filename_def lstat_def at_path_quiet [OF plan])
  let ?s1 = "set_info a info s"
  have tq: "tx_quiet (tx_plan ?s1)" using q by (simp add: set_info_def quiet_def)
  note e = enc_info_bounds [OF info(1)]
  from send_msg_quiet [OF tq e(1,4), of MSGTYPE_DOWNLOAD_RES] obtain s2 where
    s2: "send_download_res (enc_info info) (of_nat FileInfo_size) ?s1 = Some (0, s2)"
      "replied MSGTYPE_DOWNLOAD_RES (enc_info info) ?s1 s2" "tx_step ?s1 s2" "tx_quiet (tx_plan s2)"
    unfolding send_download_res_def e(2) by blast
  have q2: "quiet s2" by (rule quiet_tx_step [OF _ s2(3,4)]) (use q in \<open>simp add: set_info_def quiet_def\<close>)
  have f2: "fs s2 = fs s" "cwd s2 = cwd s" "incoming s2 = acks @ rest"
    using io_sameD [OF tx_step_same [OF s2(3)]] s2(3) acks(1) by (auto simp: set_info_def tx_step_def)
  have r2: "resolve s2 path = Inr p" "lookup (fs s2) p = Some (NFile data)" "length data < 2 ^ 36"
    "ack_stream (chunk_count_of (length data) - 0) acks"
    using resolve_same [OF f2(1,2)] f f2(1) acks(2) by simp_all
  from file_send_stream [where sha = "sha256 L", OF sha q2 r2(1-3) _ r2(4) f2(3)] obtain s3 chunks where
    s3: "file_send (sha256 L) path (of_nat 0) s2 = Some (\<lparr>last_chunk_sent = of_nat (chunk_count_of (length data)), send_error_code = 0\<rparr>, s3)"
      "tx s3 = tx s2 @ chunks" "chunk_stream (sha256 L) data 0 (chunk_count_of (length data)) chunks" "fs s3 = fs s2" by auto
  have st: "man s3 = man s" "objs s3 = objs ?s1"
    using io_state [OF tx_step_same [OF s2(3)]] io_state [OF file_send_same [OF s3(1)]]
    by (simp_all add: state_same_def set_info_def)
  have "session_at (objs s3) x = Some (ss, path)"
    using mem(2,3) info(3) st(2) by (simp add: session_at_def set_info_def)
  from remove_session_other [OF mem(4,5) this d(3)]
  have rm: "user_remove_session (objs s3) u1 SESS_DOWNLOAD filename = Some (-1, u1)" .
  have "download_send L user x a info filename s = Some (set_user user u1 s3)"
    using dir info(2,3) s2(1) s3(1) mem(1) st(1) rm by (simp add: download_send_def close_session_def)
  moreover obtain r1 where r1: "message MSGTYPE_DOWNLOAD_RES (enc_info info) r1" "tx s2 = tx s @ r1"
    using s2(2) unfolding replied_message by (auto simp: set_info_def)
  moreover have "exposes L path data (r1 @ chunks)" using r1(1) info s3(3) unfolding exposes_def by blast
  ultimately show ?thesis using s3(2,4) f2(1)
    by (intro exI [of _ "set_user user u1 s3"] exI [of _ "r1 @ chunks"]) (simp add: set_user_def)
qed

text \<open>The two paths: the one that is checked, and the one in the request.\<close>

lemma exposed_paths:
  fixes L :: lib and c :: server
  assumes u: "uuid_text (uuid_unparse L)" and p: "\<forall>x \<in> set p. plain_name x" "p \<noteq> []" "length (render_tail p) < 4045"
  shows "get_user_path (uuid_unparse L) True (render_tail p) t = Some (Some (render_tail (storage_segs @ uuid_unparse L t # p)))"
    "lookup (fs c) (storage_segs @ uuid_unparse L t # p) = Some n \<Longrightarrow>
      resolve c (render_tail (storage_segs @ uuid_unparse L t # p)) = Inr (storage_segs @ uuid_unparse L t # p)"
    "lookup (fs c) p = Some n \<Longrightarrow> resolve c (render_tail p) = Inr p"
    "render_tail p \<noteq> render_tail (storage_segs @ uuid_unparse L t # p)"
proof -
  note r = render_plain_path [OF p(1,2)]
  have p': "\<forall>x \<in> set (segments (render_tail p)). plain_name x" "\<forall>x \<in> set (segments (render_tail p)). plain_seg x"
    using p(1) unfolding r(2) by (simp_all add: plain_name_def)
  from user_path_segs [OF u p'(2) p(3), of t, unfolded r(2)]
  show "get_user_path (uuid_unparse L) True (render_tail p) t = Some (Some (render_tail (storage_segs @ uuid_unparse L t # p)))" .
  note dp = dir_place_plain [OF u p'(1), of t, unfolded dir_place_def r(2)]
  note rd = render_plain_path [OF dp]
  have "render_tail (storage_segs @ uuid_unparse L t # p) = get_user_root (uuid_unparse L) t @ render_tail p"
    unfolding get_user_root_render [OF u] by (simp add: render_tail_def)
  then have len: "length (render_tail (storage_segs @ uuid_unparse L t # p)) = 49 + length (render_tail p)"
    by (simp add: length_get_user_root [OF u])
  show "render_tail p \<noteq> render_tail (storage_segs @ uuid_unparse L t # p)"
  proof
    assume "render_tail p = render_tail (storage_segs @ uuid_unparse L t # p)"
    then have "length (render_tail p) = length (render_tail (storage_segs @ uuid_unparse L t # p))" by (rule arg_cong)
    with len show False by simp
  qed
  show "resolve c (render_tail (storage_segs @ uuid_unparse L t # p)) = Inr (storage_segs @ uuid_unparse L t # p)"
    if "lookup (fs c) (storage_segs @ uuid_unparse L t # p) = Some n"
    by (rule resolve_exists [OF rd(1)]) (use len p(3) rd(2,3) lookup_place [OF that] dp(2) in \<open>simp_all add: PATH_MAX_def\<close>)
  show "resolve c (render_tail p) = Inr p" if "lookup (fs c) p = Some n"
    by (rule resolve_exists [OF r(1)]) (use p(2,3) r(2,3) lookup_place [OF that] in \<open>simp_all add: PATH_MAX_def\<close>)
qed

lemma handle_download_exposes:
  assumes L: "lib_ok L" and q: "quiet s" and user: "user \<noteq> NULL" and msg: "hdr_token (hdr msg) = t"
    "hdr_length (hdr msg) = of_nat (length (enc_info info))" "incoming s = enc_info info @ acks @ rest"
    and info: "wf_info info" "info_name info = Some (render_tail p)" "fi_size info = 0"
    and p: "\<forall>x \<in> set p. plain_name x" "p \<noteq> []" "length (render_tail p) < 4045"
    and f: "lookup (fs s) (storage_segs @ uuid_unparse L t # p) = Some (NDir es)" "lookup (fs s) p = Some (NFile data)"
      "length data \<le> 2 ^ 24"
    and acks: "ack_stream (chunk_count_of (length data)) acks"
    and u: "users (man s) user = Some u" "wf_user u" "session_list u = []" "1 < u_sessions_capacity u"
  shows "\<exists>s' r u1 x. handle_download L user msg s = Some s' \<and> tx s' = tx s @ r \<and> exposes L (render_tail p) data r \<and>
    fs s' = fs s \<and> users (man s') user = Some u1 \<and> session_list u1 = [x]"
proof -
  have ut: "uuid_text (uuid_unparse L)" using L by (simp add: lib_ok_def)
  note paths = exposed_paths [OF ut p]
  let ?dp = "storage_segs @ uuid_unparse L t # p"
  let ?name = "render_tail ?dp"
  note e = enc_info_bounds [OF info(1)]
  from recv_payload_some [OF q e(1) msg(2) e(3,5) msg(3)] obtain s1 where
    s1: "msg_recv_payload (of_nat FileInfo_size) msg s = Some (0, msg\<lparr>payload := Some (enc_info info)\<rparr>, s1)"
      "incoming s1 = acks @ rest" "rx_step s s1" "quiet s1" by blast
  have f1: "fs s1 = fs s" "man s1 = man s" "tx s1 = tx s"
    using rx_step_fs [OF s1(3)] io_state [OF rx_step_same [OF s1(3)]] s1(3) by (simp_all add: state_same_def rx_step_def)
  let ?s2 = "s1\<lparr>errno := 0\<rparr>"
  have plan: "fs_plan ?s2 = []" using s1(4) by (simp add: quiet_def)
  have d2: "lookup (fs ?s2) ?dp = Some (NDir es)" using f(1) f1(1) by simp
  have ex: "file_exists ?name s1 = (1, ?s2)"
    using paths(2) [OF d2] d2 by (simp add: file_exists_def open_rd_def at_path_quiet [OF plan])
  let ?a = "brk ?s2"
  obtain s3 where s3: "new_info info ?s2 = (?a, s3)" "io_eq ?s2 s3" "man s3 = man s1" "infos (objs s3) ?a = Some info"
    by (auto simp: new_info_def io_eq_def same_map_def)
  from open_session_kept [OF _ u(2-4) s3(4), of user SESS_DOWNLOAD ?name] u(1) s3(3) f1(2) obtain x u1 s4 ss where
    s4: "open_session SESS_DOWNLOAD user ?a ?name s3 = Some (0, x, s4)" "io_eq s3 s4" "users (man s4) user = Some u1"
      "sess (objs s4) x = Some ss" "s_file_info ss = ?a" "wf_user u1" "session_list u1 = [x]" by auto
  have f4: "fs s4 = fs s" "tx s4 = tx s" "quiet s4" "incoming s4 = acks @ rest"
    using s3(2) s4(2) s1(2,4) f1 by (simp_all add: io_eq_def quiet_def)
  have l4: "lookup (fs s4) ?dp = Some (NDir es)" "lookup (fs s4) p = Some (NFile data)" using f f4(1) by simp_all
  from download_send_exposes [OF L f4(3) info(1,3,2) paths(2) [OF l4(1)] l4(1) paths(4) paths(3) [OF l4(2)] l4(2) f(3)
      f4(4) acks s4(3-7)] obtain s5 r5 where
    s5: "download_send L user x ?a info ?name s4 = Some s5" "tx s5 = tx s4 @ r5" "exposes L (render_tail p) data r5"
      "fs s5 = fs s4" "users (man s5) user = Some u1" by blast
  have "handle_download L user msg s = Some s5"
    using user s1(1) payload_info_enc [OF info(1)] info(2) msg(1) paths(1) ex s3(1) s4(1) s5(1)
    by (simp add: handle_download_def handle_recv_error_def)
  with s5(2-5) s4(7) f4(1,2) show ?thesis by auto
qed

section \<open>Properties\<close>

text \<open>
  C7. Any file the server can open can be read. A user who has made a directory below the user's root
  with the same path as the file, for /etc/passwd the directory etc/passwd, asks for a download of
  that path: the path that is checked is the directory's, but the file that the server describes and
  sends, byte for byte, is the one with the path that came from the client, wherever it lies. The
  session of the transfer is not found when it is to be removed, and stays.
\<close>

theorem download_reads_anything:
  assumes "lib_ok L" "quiet s" "knows L t user s" "no_transfers user s"
    "\<forall>x \<in> set p. plain_name x" "p \<noteq> []" "length (render_tail p) < 4045"
    "lookup (fs s) (storage_segs @ uuid_unparse L t # p) = Some (NDir es)"
    "lookup (fs s) p = Some (NFile data)" "length data \<le> 2 ^ 24"
    "download_bytes t (render_tail p) (chunk_count_of (length data)) w" "incoming s = w @ rest"
  shows "\<exists>s' r u x. on_readable L fd s = Some s' \<and> tx s' = tx s @ r \<and> exposes L (render_tail p) data r \<and> fs s' = fs s \<and>
    users (man s') user = Some u \<and> session_list u = [x]"
proof -
  from assms(11) obtain info req acks fin where i: "w = req @ acks @ fin"
    "requested MSGTYPE_DOWNLOAD_REQ t (enc_info info) req" "wf_info info" "info_name info = Some (render_tail p)"
    "fi_size info = 0" "ack_stream (chunk_count_of (length data)) acks"
    by (auto simp: download_bytes_def)
  have inc: "incoming s = req @ (acks @ fin @ rest)" using assms(12) i(1) by simp
  have ty: "MSGTYPE_DOWNLOAD_REQ \<in> {MSGTYPE_UPLOAD_REQ, MSGTYPE_DOWNLOAD_REQ, MSGTYPE_LIST_REQ}" by simp
  from on_readable_stream [OF assms(2,3) i(2) inc ty, of fd] obtain msg s2 where
    m: "taken MSGTYPE_DOWNLOAD_REQ t (enc_info info) (acks @ fin @ rest) s msg s2" "user \<noteq> NULL" and
    run: "\<And>s3. on_stream_req L MSGTYPE_DOWNLOAD_REQ fd user msg s2 = Some s3 \<Longrightarrow> on_readable L fd s = Some s3" by blast
  from m(1) have m': "quiet s2" "hdr_token (hdr msg) = t" "hdr_length (hdr msg) = of_nat (length (enc_info info))"
    "incoming s2 = enc_info info @ acks @ fin @ rest" "fs s2 = fs s" "tx s2 = tx s" "man s2 = man s" by (simp_all add: taken_def)
  from assms(4) m'(7) obtain u where u: "users (man s2) user = Some u" "wf_user u" "session_list u = []" "1 < u_sessions_capacity u"
    unfolding no_transfers_def by auto
  have f: "lookup (fs s2) (storage_segs @ uuid_unparse L t # p) = Some (NDir es)" "lookup (fs s2) p = Some (NFile data)"
    using assms(8,9) m'(5) by simp_all
  from handle_download_exposes [OF assms(1) m'(1) m(2) m'(2-4) i(3-5) assms(5-7) f assms(10) i(6) u] obtain s4 r u1 x where
    s4: "handle_download L user msg s2 = Some s4" "tx s4 = tx s2 @ r" "exposes L (render_tail p) data r" "fs s4 = fs s2"
      "users (man s4) user = Some u1" "session_list u1 = [x]" by blast
  have "on_readable L fd s = Some (on_client_disconnected fd s4)" by (intro run) (simp add: on_stream_req_def s4(1))
  then show ?thesis using s4(2-6) m'(5,6) by (intro exI [of _ "on_client_disconnected fd s4"]) auto
qed

text \<open>A file /e beside the storage, and the directory e of a user.\<close>

definition sample_secret :: "(string \<times> node) list" where
  "sample_secret = (''e'', NFile [1, 2, 3]) # sample_storage [(''e'', NDir [])]"

theorem download_reads_anything_witness:
  "\<exists>w m s'. on_readable client_lib 5 (sample_server sample_secret w m no_objects) = Some s' \<and>
     exposes client_lib ''/e'' [1, 2, 3] (tx s')"
proof -
  let ?data = "[1, 2, 3] :: byte list" and ?t = "sample_token 0 1"
  obtain inc where inc: "download_answers client_lib ?data inc" using sample_download_answers by blast
  let ?c = "sample_client [token_dir] inc"
  have q: "quiet ?c" by simp
  have a: "download_answers client_lib ?data (incoming ?c)" "NUL \<notin> set ''/e''" "length ''/e'' < PATH_MAX" "length ?data \<le> 2 ^ 24"
    using inc by (simp_all add: NUL_def PATH_MAX_def)
  from cmd_download_quiet [OF client_lib_ok q sample_has_token sample_download a(2-4,1)] obtain w where
    w: "download_bytes ?t ''/e'' (chunk_count_of (length ?data)) w" by blast
  have n: "\<forall>x \<in> set [''e'']. plain_name x" "[''e''] \<noteq> []" "length (render_tail [''e'']) < 4045"
    by (simp_all add: plain_name_def plain_seg_def seg_ok_def NUL_def render_tail_def)
  have e: "render_tail [''e''] = ''/e''" by (simp add: render_tail_def)
  from sample_known [of sample_secret w] obtain m user where
    k: "knows client_lib ?t user (sample_server sample_secret w m no_objects)"
      "users m user = Some (user_init ?t (\<lambda>_. 0) (Some ?t))" by blast
  let ?s = "sample_server sample_secret w m no_objects"
  have s: "quiet ?s" "incoming ?s = w @ []" "no_transfers user ?s"
    using k(2) by (simp_all add: no_transfers_def user_init_def wf_user_def session_list_def)
  have f: "lookup (fs ?s) (storage_segs @ uuid_unparse client_lib ?t # [''e'']) = Some (NDir [])" "lookup (fs ?s) [''e''] = Some (NFile ?data)"
    by (simp_all add: storage_segs_def sample_storage_def sample_secret_def)
  from download_reads_anything [OF client_lib_ok s(1) k(1) s(3) n f a(4), unfolded e, OF w s(2), of 5] show ?thesis by auto
qed

end
