(* ===== verification/ServerTypes.thy ===== *)
theory ServerTypes
  imports EndToEnd
begin

text \<open>
  The memory of the server is well typed: every user the manager knows has a session table within
  its array, every pointer of the table leads to a session whose file description has a name, and
  no request of any client, whatever it holds, and no answer of the system calls, breaks that.
\<close>

section \<open>Well-typed memory\<close>

definition user_ok :: "objects \<Rightarrow> User \<Rightarrow> bool" where
  "user_ok m u \<longleftrightarrow> wf_user u \<and> readable m u \<and> u_sessions_capacity u = 10 \<and> u_used_space u = 0"

definition typed :: "server \<Rightarrow> bool" where
  "typed s \<longleftrightarrow> (\<forall>a u. users (man s) a = Some u \<longrightarrow> user_ok (objs s) u)"

definition keeps_typed :: "server \<Rightarrow> server \<Rightarrow> bool" where
  "keeps_typed s s' \<longleftrightarrow> (typed s \<longrightarrow> typed s')"

lemma keeps_typed_refl: "keeps_typed s s"
  by (simp add: keeps_typed_def)

lemma keeps_typed_trans [trans]: "keeps_typed a b \<Longrightarrow> keeps_typed b c \<Longrightarrow> keeps_typed a c"
  by (simp add: keeps_typed_def)

lemma keeps_typed_same: "state_same s s' \<Longrightarrow> keeps_typed s s'"
  by (simp add: keeps_typed_def typed_def state_same_def)

lemma keeps_typed_io: "io_rel R s s' \<Longrightarrow> keeps_typed s s'"
  by (rule keeps_typed_same) (rule io_state)

text \<open>Memory where what was a session with a named file still is one.\<close>

definition sessions_stay :: "objects \<Rightarrow> objects \<Rightarrow> bool" where
  "sessions_stay m m' \<longleftrightarrow> (\<forall>x. session_at m x \<noteq> None \<longrightarrow> session_at m' x \<noteq> None)"

lemma keeps_typed_stay: "man s' = man s \<Longrightarrow> sessions_stay (objs s) (objs s') \<Longrightarrow> keeps_typed s s'"
  by (auto simp: keeps_typed_def typed_def user_ok_def readable_def sessions_stay_def)

lemma session_at_iff:
  "session_at m x \<noteq> None \<longleftrightarrow> (\<exists>ss i. sess m x = Some ss \<and> infos m (s_file_info ss) = Some i \<and> info_name i \<noteq> None)"
  by (auto simp: session_at_def bind_eq_None_conv split: option.splits)

lemma info_stays:
  "info_name i \<noteq> None \<Longrightarrow> sessions_stay m (m\<lparr>infos := (infos m)(a \<mapsto> i)\<rparr>)"
  unfolding sessions_stay_def session_at_iff by auto

lemma new_info_typed: "info_name i \<noteq> None \<Longrightarrow> new_info i s = (a, s') \<Longrightarrow> keeps_typed s s' \<and> infos (objs s') a = Some i"
  by (auto simp: new_info_def intro!: keeps_typed_stay info_stays)

lemma set_info_typed: "info_name i \<noteq> None \<Longrightarrow> keeps_typed s (set_info a i s)"
  by (auto simp: set_info_def intro!: keeps_typed_stay info_stays)

text \<open>A store to a session that keeps its file description.\<close>

lemma set_session_typed:
  assumes "sess (objs s) x = Some ss" "s_file_info ss' = s_file_info ss"
  shows "keeps_typed s (set_session x ss' s)"
proof (rule keeps_typed_stay)
  show "sessions_stay (objs s) (objs (set_session x ss' s))"
    unfolding sessions_stay_def session_at_iff using assms by (auto simp: set_session_def)
qed (simp add: set_session_def)

lemma typed_user: "typed s \<Longrightarrow> users (man s) user = Some u \<Longrightarrow> user_ok (objs s) u"
  by (simp add: typed_def)

lemma set_user_typed: "typed s \<Longrightarrow> user_ok (objs s) u \<Longrightarrow> typed (set_user a u s)"
  by (simp add: typed_def set_user_def)

section \<open>The session table\<close>

lemma user_add_session_ok:
  assumes "user_ok m u" "session_at m a \<noteq> None" "user_add_session u a = Some (r, u')"
  shows "user_ok m u'"
proof (cases "u_sessions_count u < u_sessions_capacity u")
  case True
  have "u_sessions_capacity u' = u_sessions_capacity u"
    using assms(3) by (auto simp: user_add_session_def bind_eq_Some_conv split: if_splits)
  moreover from True assms user_add_session_list [of u a] have
    "session_list u' = session_list u @ [a]" "wf_user u'" "u_used_space u' = u_used_space u"
    by (auto simp: user_ok_def)
  ultimately show ?thesis using assms(1,2) by (simp add: user_ok_def readable_def)
next
  case False
  then have "u_sessions_capacity u \<le> u_sessions_count u" by (simp add: not_less)
  with assms(1,3) show ?thesis by (simp add: user_add_session_def)
qed

lemma remove_session_from_kept:
  "remove_session_from m u t f i = Some (r, u') \<Longrightarrow>
     u_sessions_capacity u' = u_sessions_capacity u \<and> u_used_space u' = u_used_space u"
proof (induction m u t f i rule: remove_session_from.induct)
  case (1 m u t f i)
  from 1(2) show ?case
    by (subst (asm) remove_session_from.simps) (auto simp: bind_eq_Some_conv split: if_splits dest: 1(1))
qed

lemma user_remove_session_ok:
  assumes "user_ok m u" "user_remove_session m u t f = Some (r, u')"
  shows "user_ok m u'"
proof (cases "\<exists>x \<in> set (session_list u). is_for m t f x")
  case True
  then obtain xs a ys where c: "session_list u = xs @ a # ys" "\<forall>x \<in> set xs. \<not> is_for m t f x" "is_for m t f a"
    using split_list_first_propE by metis
  have u: "wf_user u" "readable m u" using assms(1) by (simp_all add: user_ok_def)
  from user_remove_session_found [OF u c] assms(2) have "session_list u' = xs @ ys" "wf_user u'"
    by (auto split: if_splits)
  with assms c(1) remove_session_from_kept [of m u t f 0 r u'] show ?thesis
    by (simp add: user_ok_def readable_def user_remove_session_def)
next
  case False
  with assms user_remove_session_absent [of u m t f] show ?thesis by (simp add: user_ok_def)
qed

section \<open>The transfers\<close>

lemma open_session_typed:
  assumes run: "open_session ty user a f s = Some (seq, x, s')" and i: "infos (objs s) a = Some i" "info_name i \<noteq> None"
  shows "keeps_typed s s'"
  unfolding keeps_typed_def
proof
  assume ok: "typed s"
  from run obtain u y where u: "users (man s) user = Some u" "user_get_session (objs s) u ty f = Some y"
    by (auto simp: open_session_def bind_eq_Some_conv)
  show "typed s'"
  proof (cases "y = NULL")
    case False
    with run u have "s' = s" by (auto simp: open_session_def bind_eq_Some_conv)
    with ok show ?thesis by simp
  next
    case True
    let ?x = "brk s"
    obtain now s1 where c: "clock_gettime (s\<lparr>brk := ?x + 1\<rparr>) = (now, s1)" by fastforce
    let ?s2 = "set_session ?x (session_init a ty now) s1"
    have s1: "man s1 = man s" "objs s1 = objs s" using c by (auto simp: clock_gettime_def Let_def)
    from run u True c obtain r u' where add: "user_add_session u ?x = Some (r, u')" "s' = set_user user u' ?s2"
      by (auto simp: open_session_def bind_eq_Some_conv Let_def)
    have new: "session_at (objs ?s2) ?x \<noteq> None"
      unfolding session_at_iff using i s1(2) by (simp add: set_session_def session_init_def)
    have "sessions_stay (objs s) (objs ?s2)"
      unfolding sessions_stay_def session_at_iff using i s1(2) by (auto simp: set_session_def session_init_def)
    then have ok2: "typed ?s2"
      using keeps_typed_stay [of ?s2 s] ok s1(1) by (simp add: keeps_typed_def set_session_def)
    then have "user_ok (objs ?s2) u" using u(1) s1(1) by (intro typed_user) (simp_all add: set_session_def)
    from set_user_typed [OF ok2 user_add_session_ok [OF this new add(1)]] show ?thesis by (simp add: add(2))
  qed
qed

lemma interrupt_session_typed: "interrupt_session x n s = Some s' \<Longrightarrow> keeps_typed s s'"
  by (auto simp: interrupt_session_def bind_eq_Some_conv intro!: set_session_typed)

lemma close_session_typed: "close_session ty user f s = Some s' \<Longrightarrow> keeps_typed s s'"
  by (auto simp: close_session_def bind_eq_Some_conv keeps_typed_def intro: set_user_typed user_remove_session_ok typed_user)

text \<open>The functions that only use the connection and the files leave the memory alone.\<close>

lemmas io_typed = answer_error_same [THEN keeps_typed_io] send_msg_same [THEN keeps_typed_io]
  send_res_same [THEN keeps_typed_io] msg_send_same [THEN keeps_typed_io] fileinfo_same [THEN keeps_typed_io]
  file_send_same [THEN keeps_typed_io] file_recv_io [THEN keeps_typed_io] msg_recv_payload_same [THEN keeps_typed_io]
  file_exists_same [THEN keeps_typed_io] uninit_msg_same [THEN keeps_typed_io] handle_remove_any [THEN keeps_typed_io]

lemma upload_end_typed:
  assumes run: "upload_end user x f st s = Some s'"
  shows "keeps_typed s s'"
proof -
  from run obtain s1 where i: "(if recv_error_code st < 0 then interrupt_session x (last_chunk_recvd st) s else Some s) = Some s1"
    by (auto simp: upload_end_def bind_eq_Some_conv)
  have e: "(\<exists>text. answer_error text s1 = Some s') \<or> s' = s1 \<or>
      (\<exists>bs n r s2. send_msg MSGTYPE_UPLOAD_FIN bs n s1 = Some (r, s2) \<and> close_session SESS_UPLOAD user f s2 = Some s')"
    using run i by (auto simp: upload_end_def Let_def bind_eq_Some_conv split: if_splits)
  have "keeps_typed s s1" using i by (auto split: if_splits dest: interrupt_session_typed intro: keeps_typed_refl)
  also have "keeps_typed s1 s'"
    using e by (auto dest!: io_typed close_session_typed intro: keeps_typed_trans keeps_typed_refl)
  finally show ?thesis .
qed

lemma upload_file_typed:
  assumes run: "upload_file L user token info name s = Some s'"
  shows "keeps_typed s s'"
proof -
  let ?root = "snprintf_str PATH_MAX (STORAGE_DIR @ ''/'' @ uuid_unparse L token)"
  from run obtain u where u: "users (man s) user = Some u" by (auto simp: upload_file_def bind_eq_Some_conv)
  show ?thesis
  proof (cases "u_total_space u < u_used_space u + fi_size info")
    case True
    with run u show ?thesis by (auto simp: upload_file_def dest: io_typed)
  next
    case space: False
    from run u space obtain base where base: "strrchr name CHR ''/'' = Some base"
      by (auto simp: upload_file_def Let_def bind_eq_Some_conv)
    let ?i = "strncpy_filename (snprintf_str (PATH_MAX * 2) (?root @ base)) info"
    from run u space base obtain nm where nm: "info_name ?i = Some nm"
      by (auto simp: upload_file_def Let_def bind_eq_Some_conv simp del: append_assoc)
    obtain a s1 where a: "new_info ?i s = (a, s1)" by fastforce
    from new_info_typed [OF _ a] nm have s1: "keeps_typed s s1" "infos (objs s1) a = Some ?i" by auto
    from run u space base nm a obtain seq x s2 where o: "open_session SESS_UPLOAD user a nm s1 = Some (seq, x, s2)"
      by (auto simp: upload_file_def Let_def bind_eq_Some_conv simp del: append_assoc)
    obtain ret s3 where m: "fs_mkdir ?root s2 = (ret, s3)" by fastforce
    have "keeps_typed s1 s2" by (rule open_session_typed [OF o s1(2)]) (use nm in auto)
    also have "keeps_typed s2 s3" by (rule keeps_typed_io [OF conjunct2 [OF fs_mkdir_files [OF m]]])
    finally have s3: "keeps_typed s s3" using s1(1) keeps_typed_trans by blast
    show ?thesis
    proof (cases "ret = -1 \<and> errno s3 \<noteq> EEXIST")
      case True
      with run u space base nm a o m have "answer_error ''failed to create user directory'' s3 = Some s'"
        by (auto simp: upload_file_def Let_def simp del: append_assoc)
      with s3 show ?thesis by (blast dest: io_typed intro: keeps_typed_trans)
    next
      case ok: False
      then have ok': "(ret = -1 \<and> errno s3 \<noteq> EEXIST) = False" by simp
      from run u space base nm a o m obtain r4 s4 y st s6 where
        r: "send_upload_res (le_of_u64 seq) 8 s3 = Some (r4, s4)" and y: "sess (objs s4) x = Some y" and
        f: "file_recv (sha256 L) ?i (set_session x (y\<lparr>s_state := SSTATE_RUNNING\<rparr>) s4) = Some (st, s6)" and
        e: "upload_end user x nm st s6 = Some s'"
        by (auto simp: upload_file_def Let_def bind_eq_Some_conv ok' simp del: append_assoc)
      from io_typed(3) [OF r] s3 have "keeps_typed s s4" by (blast intro: keeps_typed_trans)
      also have "keeps_typed s4 (set_session x (y\<lparr>s_state := SSTATE_RUNNING\<rparr>) s4)"
        by (rule set_session_typed [OF y]) simp
      also have "keeps_typed \<dots> s6" by (rule keeps_typed_io [OF file_recv_io [OF f]])
      also have "keeps_typed s6 s'" by (rule upload_end_typed [OF e])
      finally show ?thesis .
    qed
  qed
qed

lemma download_send_typed:
  assumes run: "download_send L user x a info f s = Some s'"
  shows "keeps_typed s s'"
proof -
  from run obtain r i1 s1 nm where f: "fileinfo_from_filename (sha256 L) f info s = Some (r, i1, s1)"
    and n: "info_name i1 = Some nm"
    by (auto simp: download_send_def Let_def bind_eq_Some_conv)
  let ?t = "set_info a i1 s1" and ?start = "if 0 < fi_size info then size_to_int (fi_chunk_count info) else 0"
  from run f n obtain r2 s2 where d: "send_download_res (enc_info i1) (of_nat FileInfo_size) ?t = Some (r2, s2)"
    by (auto simp: download_send_def Let_def bind_eq_Some_conv)
  from run f n d obtain st s3 where g: "file_send (sha256 L) nm ?start s2 = Some (st, s3)"
    by (auto simp: download_send_def Let_def bind_eq_Some_conv)
  have e: "(\<exists>s4 n text. interrupt_session x n s3 = Some s4 \<and> answer_error text s4 = Some s') \<or>
      close_session SESS_DOWNLOAD user f s3 = Some s'"
    using run f n d g by (auto simp: download_send_def Let_def bind_eq_Some_conv split: if_splits)
  have "keeps_typed s s1" by (rule keeps_typed_io [OF fileinfo_same [OF f]])
  also have "keeps_typed s1 ?t" by (rule set_info_typed) (simp add: n)
  also have "keeps_typed ?t s2" by (rule keeps_typed_io [OF send_res_same(2) [OF d]])
  also have "keeps_typed s2 s3" by (rule keeps_typed_io [OF file_send_same [OF g]])
  also have "keeps_typed s3 s'"
    using e by (auto dest!: interrupt_session_typed io_typed(1) close_session_typed intro: keeps_typed_trans)
  finally show ?thesis .
qed

section \<open>The handlers\<close>

lemma handle_upload_typed: "handle_upload L user msg s = Some s' \<Longrightarrow> keeps_typed s s'"
proof (cases "user = NULL")
  case True
  assume "handle_upload L user msg s = Some s'"
  with True show ?thesis by (auto simp: handle_upload_def dest: io_typed)
next
  case False
  assume run: "handle_upload L user msg s = Some s'"
  with False obtain ret m1 s1 where p: "msg_recv_payload (of_nat FileInfo_size) msg s = Some (ret, m1, s1)"
    by (auto simp: handle_upload_def bind_eq_Some_conv)
  have "s' = s1 \<or> (\<exists>info name. upload_file L user (hdr_token (hdr m1)) info name s1 = Some s')"
    using run False p by (auto simp: handle_upload_def bind_eq_Some_conv split: if_splits)
  with keeps_typed_io [OF msg_recv_payload_same [OF p]] show ?thesis
    by (auto dest: upload_file_typed intro: keeps_typed_trans)
qed

lemma handle_download_typed: "handle_download L user msg s = Some s' \<Longrightarrow> keeps_typed s s'"
proof (cases "user = NULL")
  case True
  assume "handle_download L user msg s = Some s'"
  with True show ?thesis by (auto simp: handle_download_def dest: io_typed)
next
  case False
  assume run: "handle_download L user msg s = Some s'"
  with False obtain ret m1 s1 where p: "msg_recv_payload (of_nat FileInfo_size) msg s = Some (ret, m1, s1)"
    by (auto simp: handle_download_def bind_eq_Some_conv)
  have s1: "keeps_typed s s1" by (rule keeps_typed_io [OF msg_recv_payload_same [OF p]])
  show ?thesis
  proof (cases "handle_recv_error ret")
    case False
    with run \<open>user \<noteq> NULL\<close> p s1 show ?thesis by (auto simp: handle_download_def)
  next
    case True
    with run False p obtain info name pth where
      n: "payload_info m1 = Some info" "info_name info = Some name"
        "get_user_path (uuid_unparse L) True name (hdr_token (hdr m1)) = Some pth"
      by (auto simp: handle_download_def bind_eq_Some_conv)
    show ?thesis
    proof (cases pth)
      case None
      with run False p True n have "answer_error ''failed to get user path'' s1 = Some s'"
        by (simp add: handle_download_def)
      with s1 show ?thesis by (blast dest: io_typed intro: keeps_typed_trans)
    next
      case (Some path)
      obtain found s2 where o: "file_exists path s1 = (found, s2)" by fastforce
      have s2: "keeps_typed s s2" using s1 keeps_typed_io [OF file_exists_same [OF o]] by (rule keeps_typed_trans)
      obtain a s3 where i: "new_info info s2 = (a, s3)" by fastforce
      from new_info_typed [OF _ i] n(2) have s3: "keeps_typed s2 s3" "infos (objs s3) a = Some info" by auto
      have "(\<exists>text. answer_error text s2 = Some s') \<or>
          (\<exists>q x s4. open_session SESS_DOWNLOAD user a path s3 = Some (q, x, s4) \<and>
             download_send L user x a info path s4 = Some s')"
        using run False p True n Some o i
        by (auto simp: handle_download_def Let_def bind_eq_Some_conv split: if_splits)
      then show ?thesis
      proof (elim disjE exE conjE)
        fix text'
        assume "answer_error text' s2 = Some s'"
        with s2 show ?thesis by (blast dest: io_typed intro: keeps_typed_trans)
      next
        fix q x s4
        assume c: "open_session SESS_DOWNLOAD user a path s3 = Some (q, x, s4)" "download_send L user x a info path s4 = Some s'"
        have "keeps_typed s3 s4" by (rule open_session_typed [OF c(1) s3(2)]) (simp add: n(2))
        with s2 s3(1) download_send_typed [OF c(2)] show ?thesis by (blast intro: keeps_typed_trans)
      qed
    qed
  qed
qed

text \<open>Registering a user: the new one has an empty table.\<close>

lemma user_init_ok: "user_ok m (user_init g array t)"
  by (simp add: user_ok_def user_init_def wf_user_def readable_def session_list_def)

lemma register_ok:
  assumes "\<forall>a u. users g a = Some u \<longrightarrow> user_ok m u" "uman_register_user cmp fresh t g = Some g'"
  shows "\<forall>a u. users g' a = Some u \<longrightarrow> user_ok m u"
proof -
  from assms(2) obtain array where "users g' = (users g)(users_brk g \<mapsto> user_init fresh array (Some t))"
    by (auto simp: uman_register_user_def bind_eq_Some_conv Let_def)
  with assms(1) show ?thesis by (auto simp: user_init_ok)
qed

lemma register_typed: "typed s \<Longrightarrow> uman_register_user cmp fresh t (man s) = Some m \<Longrightarrow> typed (s\<lparr>man := m\<rparr>)"
  unfolding typed_def using register_ok [of "man s"] by simp

lemma uman_load_ok:
  "\<forall>a u. users g a = Some u \<longrightarrow> user_ok m u \<Longrightarrow> uman_load cmp fresh parse stack names g = Some g' \<Longrightarrow>
     \<forall>a u. users g' a = Some u \<longrightarrow> user_ok m u"
proof (induction names arbitrary: stack g)
  case (Cons n names)
  show ?case
  proof (cases "n = ''.'' \<or> n = ''..''")
    case False
    with Cons.prems(2) obtain t g1 where r: "uman_register_user cmp fresh t g = Some g1"
      "uman_load cmp fresh parse (\<lambda>i. stack (Suc i)) names g1 = Some g'"
      by (auto simp: bind_eq_Some_conv)
    from Cons.IH [OF register_ok [OF Cons.prems(1) r(1)] r(2)] show ?thesis .
  qed (use Cons in \<open>simp split: if_splits\<close>)
qed simp

lemma handle_auth_typed: "handle_auth L msg s = Some s' \<Longrightarrow> keeps_typed s s'"
proof -
  assume run: "handle_auth L msg s = Some s'"
  let ?dir = "snprintf_str PATH_MAX (STORAGE_DIR @ ''/'' @ uuid_unparse L (hdr_token (hdr msg)))"
  obtain ret s1 where m: "fs_mkdir ?dir s = (ret, s1)" by fastforce
  obtain res s2 where u: "uninit_msg s1 = (res, s2)" by fastforce
  from run m u obtain mm r m' s3 g where s: "msg_send mm None 0 s2 = Some (r, m', s3)" and
    g: "uman_register_user (uuid_compare L) (uuid_generate L) (hdr_token (hdr msg)) (man s3) = Some g" "s' = s3\<lparr>man := g\<rparr>"
    by (auto simp: handle_auth_def Let_def bind_eq_Some_conv split: if_splits)
  have "keeps_typed s s1" by (rule keeps_typed_io [OF conjunct2 [OF fs_mkdir_files [OF m]]])
  also have "keeps_typed s1 s2" by (rule keeps_typed_io [OF uninit_msg_same [OF u]])
  also have "keeps_typed s2 s3" by (rule keeps_typed_io [OF msg_send_same [OF s]])
  also have "keeps_typed s3 s'" using register_typed [OF _ g(1)] g(2) by (simp add: keeps_typed_def)
  finally show ?thesis .
qed

lemma oneshot_typed: "on_oneshot_req L ty user msg s = Some s' \<Longrightarrow> keeps_typed s s'"
proof -
  assume run: "on_oneshot_req L ty user msg s = Some s'"
  consider "handle_auth L msg s = Some s'" | "handle_remove L user msg s = Some s'"
    | "handle_mkdir L user msg s = Some s'" | "s' = s"
    using run by (cases ty) (auto simp: on_oneshot_req_def)
  then show ?thesis
  proof cases
    case 3
    from handle_mkdir_effect [OF 3] show ?thesis by (blast intro: keeps_typed_same)
  qed (auto dest: handle_auth_typed io_typed intro: keeps_typed_refl)
qed

text \<open>The sockets are no part of the users and their sessions.\<close>

lemma typed_fds [simp]:
  "typed (set_blocking fd b s) \<longleftrightarrow> typed s" "typed (epoll_del fd s) \<longleftrightarrow> typed s" "typed (close_fd fd s) \<longleftrightarrow> typed s"
  "typed (focus so s) \<longleftrightarrow> typed s" "typed (unfocus fd s) \<longleftrightarrow> typed s" "typed (s\<lparr>errno := e\<rparr>) \<longleftrightarrow> typed s"
  "typed (s\<lparr>open_fds := os\<rparr>) \<longleftrightarrow> typed s" "typed (s\<lparr>epoll := es\<rparr>) \<longleftrightarrow> typed s"
  by (simp_all add: typed_def set_blocking_def epoll_del_def close_fd_def focus_def unfocus_def)

lemma stream_typed: "on_stream_req L ty fd user msg s = Some s' \<Longrightarrow> keeps_typed s s'"
proof -
  assume run: "on_stream_req L ty fd user msg s = Some s'"
  then obtain s1 where c: "s' = on_client_disconnected fd s1"
    "handle_upload L user msg s = Some s1 \<or> handle_download L user msg s = Some s1 \<or> handle_list L user msg s = Some s1 \<or> s1 = s"
    by (cases ty) (auto simp: on_stream_req_def bind_eq_Some_conv)
  have "keeps_typed s s1"
    using c(2) handle_list_effect keeps_typed_same
    by (auto dest: handle_upload_typed handle_download_typed intro: keeps_typed_refl)
  then show ?thesis by (simp add: c(1) keeps_typed_def on_client_disconnected_def)
qed

lemma dispatch_typed:
  assumes run: "on_client_message_received L fd msg s = Some (ret, s')" and ok: "typed s"
  shows "typed s'"
proof -
  let ?t = "set_blocking fd True (epoll_del fd s)"
  from run obtain ty where ty: "msgtype_of (hdr_type (hdr msg)) = Some ty"
    by (auto simp: on_client_message_received_eq bind_eq_Some_conv)
  have "(\<exists>m r m'. msg_send m None 0 s = Some (r, m', s')) \<or> s' = s \<or>
      (\<exists>user. on_oneshot_req L ty user msg s = Some s') \<or> (\<exists>user. on_stream_req L ty fd user msg ?t = Some s')"
    using run ty by (auto simp: on_client_message_received_eq bind_eq_Some_conv split: if_splits)
  then show ?thesis
  proof (elim disjE exE)
    fix user
    assume "on_stream_req L ty fd user msg ?t = Some s'"
    from stream_typed [OF this] ok show ?thesis by (simp add: keeps_typed_def)
  qed (use ok in \<open>auto dest!: io_typed(5) oneshot_typed simp: keeps_typed_def\<close>)
qed

section \<open>The event loop\<close>

lemma on_readable_typed:
  assumes run: "on_readable L fd s = Some s'" and ok: "typed s"
  shows "typed s'"
proof -
  obtain m0 s0 where u: "uninit_msg s = (m0, s0)" by fastforce
  have wf: "wf_hdr (hdr m0)" using wf_uninit_msg [of s] u by simp
  from run u obtain ret m s1 where h: "msg_recv_header m0 s0 = Some (ret, m, s1)"
    by (auto simp: on_readable_def bind_eq_Some_conv)
  have s1: "typed s1"
    using ok keeps_typed_io [OF uninit_msg_same [OF u]] keeps_typed_io [OF msg_recv_header_same [OF wf h]]
    by (simp add: keeps_typed_def)
  have "(\<exists>r t. on_client_message_received L fd m s1 = Some (r, t) \<and> (s' = t \<or> s' = drop_client fd t)) \<or>
      s' = s1 \<or> s' = drop_client fd s1"
    using run u h by (auto simp: on_readable_def bind_eq_Some_conv split: if_splits)
  with s1 dispatch_typed show ?thesis by (auto simp: drop_client_close)
qed

lemma on_event_typed: "on_event L acc ev s = Some s' \<Longrightarrow> typed s \<Longrightarrow> typed s'"
proof (cases ev)
  case Listening
  assume "on_event L acc ev s = Some s'" "typed s"
  with Listening show ?thesis by (cases acc) (auto simp: Let_def)
next
  case (Readable fd)
  assume "on_event L acc ev s = Some s'" "typed s"
  with Readable show ?thesis
    using on_readable_typed [of L fd] by (auto simp: bind_eq_Some_conv split: option.splits)
next
  case (Hangup fd)
  assume "on_event L acc ev s = Some s'" "typed s"
  with Hangup show ?thesis by (auto simp: on_client_disconnected_def)
qed

lemma loop_reaches_typed: "loop_reaches L st st' \<Longrightarrow> typed (fst st) \<Longrightarrow> typed (fst st')"
proof (induction rule: rtranclp_induct)
  case (step st' st'')
  from step(2,3,4) show ?case by (cases rule: loop_step.cases) (auto dest: on_event_typed)
qed simp

lemma server_init_typed:
  assumes run: "server_init L b = Some (Some s)" and none: "users (man b) = Map.empty"
  shows "typed s"
proof -
  obtain r b1 where m: "fs_mkdir STORAGE_DIR b = (r, b1)" by fastforce
  obtain dir b2 where d: "opendir STORAGE_DIR b1 = (dir, b2)" by fastforce
  have same: "man b1 = man b" "man b2 = man b1"
    using io_state [OF conjunct2 [OF fs_mkdir_files [OF m]]] io_state [OF opendir_same [OF d]]
    by (simp_all add: state_same_def)
  from run m d obtain stack g where
    g: "uman_init (uuid_compare L) (uuid_generate L) (uuid_parse L) stack (map_option (map fst) dir) (man b2) = Some g"
      "s = b2\<lparr>man := g\<rparr>"
    by (auto simp: server_init_def Let_def bind_eq_Some_conv split: if_splits)
  have "\<forall>a u. users ((man b2)\<lparr>user_map := umap_init 256\<rparr>) a = Some u \<longrightarrow> user_ok (objs s) u" using same none by simp
  with g(1) uman_load_ok [OF this] have "\<forall>a u. users g a = Some u \<longrightarrow> user_ok (objs s) u"
    by (cases dir) (simp_all add: uman_init_def)
  with g(2) show ?thesis by (simp add: typed_def)
qed

text \<open>A server that starts with the directory of one user.\<close>

lemma sample_init:
  "\<exists>s user. server_init client_lib (sample_server (sample_storage []) [] (uman_start (\<lambda>_ _. 0)) no_objects) = Some (Some s) \<and>
     users (man s) user = Some (user_init (sample_token 0 1) (\<lambda>_. 0) (Some (sample_token 0 1)))"
proof -
  let ?b = "sample_server (sample_storage []) [] (uman_start (\<lambda>_ _. 0)) no_objects"
  have "sample_compare (sample_token 0 1) (sample_token 0 1) = 0" by (simp add: sample_compare_def)
  from start_known [where cmp = sample_compare and g = "sample_token 0 1", OF this, of "\<lambda>_ _. 0"] obtain m user where
    m: "uman_register_user sample_compare (sample_token 0 1) (sample_token 0 1) (uman_start (\<lambda>_ _. 0)) = Some m"
      "users m user = Some (user_init (sample_token 0 1) (\<lambda>_. 0) (Some (sample_token 0 1)))" by blast
  have path: "resolve c STORAGE_DIR = walk (fs c) [] storage_segs" "strip_slashes STORAGE_DIR = STORAGE_DIR" for c :: server
    by (simp_all add: resolve_def path_comps_def STORAGE_DIR_def storage_segs_def PATH_MAX_def strip_slashes_def)
  have "fs_mkdir STORAGE_DIR ?b = (-1, fail_with EEXIST ?b)"
    by (simp add: fs_mkdir_def at_path_def fs_next_def path sample_storage_def storage_segs_def sample_server_def)
  moreover have "opendir STORAGE_DIR (fail_with EEXIST ?b) =
      (Some [(''.'', NDir []), (''..'', NDir []), (sample_uuid True, NDir [])], fail_with EEXIST ?b)"
    by (simp add: opendir_def at_path_def fs_next_def path sample_storage_def storage_segs_def sample_server_def fail_with_def)
  moreover have "sample_uuid True \<noteq> ''.''" "sample_uuid True \<noteq> ''..''"
    using uuid_text_seg [OF sample_uuid_text, of True] by (auto simp: plain_seg_def)
  moreover have "(uman_start (\<lambda>_ _. 0))\<lparr>user_map := umap_init 256\<rparr> = uman_start (\<lambda>_ _. 0)" by (simp add: uman_start_def)
  ultimately obtain s where s: "server_init client_lib ?b = Some (Some s)" "man s = m"
    using m(1) by (simp add: server_init_def uman_init_def fail_with_def)
  with m(2) show ?thesis by blast
qed

section \<open>Properties\<close>

text \<open>
  C8. The memory of the server keeps its type. From the start on, through any events with any
  messages of any clients and any answers of the system calls, every user has a well-formed session
  table whose pointers all lead to sessions with a named file, so looking a transfer up never
  faults; and the space a user has used, which the check of an upload looks at, is always 0.
\<close>

theorem server_memory_typed:
  assumes "server_init L b = Some (Some s0)" "users (man b) = Map.empty" "loop_reaches L (s0, []) (s, evs)"
    and "users (man s) user = Some u"
  shows "wf_user u \<and> readable (objs s) u \<and> u_used_space u = 0 \<and> user_get_session (objs s) u ty f \<noteq> None"
proof -
  from loop_reaches_typed [OF assms(3)] server_init_typed [OF assms(1,2)] have "typed s" by simp
  from typed_user [OF this assms(4)] have ok: "wf_user u" "readable (objs s) u" "u_used_space u = 0"
    by (simp_all add: user_ok_def)
  with get_session_from_list [OF ok(1,2), of ty f 0] show ?thesis by (simp add: user_get_session_def)
qed

theorem server_memory_typed_witness:
  "\<exists>s user u. server_init client_lib (sample_server (sample_storage []) [] (uman_start (\<lambda>_ _. 0)) no_objects) = Some (Some s) \<and>
     users (man s) user = Some u \<and> u_token u = sample_token 0 1 \<and> wf_user u \<and>
     user_get_session (objs s) u SESS_UPLOAD ''f'' \<noteq> None"
proof -
  let ?b = "sample_server (sample_storage []) [] (uman_start (\<lambda>_ _. 0)) no_objects"
  from sample_init obtain s user where s: "server_init client_lib ?b = Some (Some s)"
    and u: "users (man s) user = Some (user_init (sample_token 0 1) (\<lambda>_. 0) (Some (sample_token 0 1)))" by blast
  have "users (man ?b) = Map.empty" by (simp add: uman_start_def)
  note server_memory_typed [OF s(1) this rtranclp.rtrancl_refl u, where ty = SESS_UPLOAD and f = "''f''"] s(1) u
  moreover have "u_token (user_init (sample_token 0 1) (\<lambda>_. 0) (Some (sample_token 0 1))) = sample_token 0 1"
    by (simp add: user_init_def)
  ultimately show ?thesis by blast
qed

end
