(* ===== verification/Workers.thy ===== *)
theory Workers
  imports UserMap
begin

text \<open>
  The worker threads of src/server.c and how cleanup stops them. The threads run concurrently with
  main: a step relation interleaves their steps. Semaphores block, pthread_join waits for the end
  of the thread whose id it is given, and every access to the memory of a worker after its free is
  recorded. When pthread_join is given an id read from freed memory, the run is over: nothing says
  what the program does then. A sem_destroy in freed memory is recorded and the run goes on.
  The handler of SIGINT runs in the main thread, as one call.
\<close>

section \<open>State\<close>

definition NTHREADS :: nat where
  "NTHREADS = 10"

text \<open>
  A worker as far as its thread and cleanup look at it; nobody uses its session and socket. thread
  is the id that pthread_create stores; the thread of worker i has the id i.
\<close>

record Worker =
  w_id :: nat
  w_thread :: nat
  work_sem :: nat
  w_terminated :: bool
  w_func :: addr

text \<open>Where a thread stands: blocked in sem_wait, woken, in its task, about to free, returned.\<close>

datatype thread_pc = Asleep | Woken | Calling | Leaving | Exited

text \<open>
  Where main stands: in the event loop, or at a call of cleanup for one of the workers. Fetching is
  before workers[i]->thread is read, Joining in pthread_join with the worker and the id that was
  read, and Undefined after the id was read from freed memory.
\<close>

datatype main_pc = Serving | Visit nat | Posting nat | Fetching nat | Joining nat nat | Destroying nat
  | Stopped | Undefined nat

text \<open>
  workers[] is not null below made. cell is the memory of the workers, None when it is freed, and
  after_free lists the workers whose memory was accessed then.
\<close>

record threads =
  made :: nat
  cell :: "nat \<Rightarrow> Worker option"
  thread_at :: "nat \<Rightarrow> thread_pc"
  main_at :: main_pc
  after_free :: "nat list"

definition no_threads :: threads where
  "no_threads = \<lparr>made = 0, cell = (\<lambda>_. None), thread_at = (\<lambda>_. Exited), main_at = Serving, after_free = []\<rparr>"

section \<open>The operations\<close>

text \<open>The loop of main that makes the workers. func keeps what malloc has returned in its place.\<close>

definition create_worker :: "(nat \<Rightarrow> addr) \<Rightarrow> nat \<Rightarrow> threads \<Rightarrow> threads" where
  "create_worker mem i st = st\<lparr>made := i + 1,
     cell := (cell st)(i \<mapsto> \<lparr>w_id = i, w_thread = i, work_sem = 0, w_terminated = False, w_func = mem i\<rparr>),
     thread_at := (thread_at st)(i := Asleep)\<rparr>"

fun create_workers :: "(nat \<Rightarrow> addr) \<Rightarrow> nat \<Rightarrow> threads" where
  "create_workers mem 0 = no_threads"
| "create_workers mem (Suc n) = create_worker mem n (create_workers mem n)"

text \<open>One step of the function worker. None: the thread is blocked, has ended, or runs its task.\<close>

definition worker :: "nat \<Rightarrow> threads \<Rightarrow> threads option" where
  "worker i st = (case (thread_at st i, cell st i) of
     (Asleep, Some w) \<Rightarrow>
       if work_sem w = 0 then None
       else Some (st\<lparr>cell := (cell st)(i \<mapsto> w\<lparr>work_sem := work_sem w - 1\<rparr>), thread_at := (thread_at st)(i := Woken)\<rparr>)
   | (Woken, Some w) \<Rightarrow> Some (st\<lparr>thread_at := (thread_at st)(i :=
       if w_terminated w then Leaving else if w_func w = NULL then Asleep else Calling)\<rparr>)
   | (Leaving, Some w) \<Rightarrow> Some (st\<lparr>cell := (cell st)(i := None), thread_at := (thread_at st)(i := Exited)\<rparr>)
   | _ \<Rightarrow> None)"

text \<open>An access to the memory of a worker.\<close>

definition access :: "nat \<Rightarrow> (Worker \<Rightarrow> Worker) \<Rightarrow> threads \<Rightarrow> threads" where
  "access i f st = (case cell st i of
     None \<Rightarrow> st\<lparr>after_free := after_free st @ [i]\<rparr>
   | Some w \<Rightarrow> st\<lparr>cell := (cell st)(i \<mapsto> f w)\<rparr>)"

text \<open>
  One step of cleanup: the flag, sem_post, the argument of pthread_join, pthread_join itself and
  sem_destroy. None: it waits or has ended.
\<close>

definition cleanup :: "threads \<Rightarrow> threads option" where
  "cleanup st = (case main_at st of
     Serving \<Rightarrow> None
   | Visit i \<Rightarrow>
       if NTHREADS \<le> i then Some (st\<lparr>main_at := Stopped\<rparr>)
       else if made st \<le> i then Some (st\<lparr>main_at := Visit (i + 1)\<rparr>)
       else Some ((access i (\<lambda>w. w\<lparr>w_terminated := True\<rparr>) st)\<lparr>main_at := Posting i\<rparr>)
   | Posting i \<Rightarrow> Some ((access i (\<lambda>w. w\<lparr>work_sem := work_sem w + 1\<rparr>) st)\<lparr>main_at := Fetching i\<rparr>)
   | Fetching i \<Rightarrow> (case cell st i of
       None \<Rightarrow> Some (st\<lparr>after_free := after_free st @ [i], main_at := Undefined i\<rparr>)
     | Some w \<Rightarrow> Some (st\<lparr>main_at := Joining i (w_thread w)\<rparr>))
   | Joining i t \<Rightarrow> if thread_at st t = Exited then Some (st\<lparr>main_at := Destroying i\<rparr>) else None
   | Destroying i \<Rightarrow> Some ((access i id st)\<lparr>main_at := Visit (i + 1)\<rparr>)
   | Stopped \<Rightarrow> None
   | Undefined i \<Rightarrow> None)"

definition SIGINT :: int where
  "SIGINT = 2"

definition sighandler :: "int \<Rightarrow> threads \<Rightarrow> threads" where
  "sighandler sig st = (if sig = SIGINT then st\<lparr>main_at := Visit 0\<rparr> else st)"

inductive thread_step :: "threads \<Rightarrow> threads \<Rightarrow> bool" where
  worker_runs: "i < made st \<Longrightarrow> worker i st = Some st' \<Longrightarrow> thread_step st st'"
| main_runs: "cleanup st = Some st' \<Longrightarrow> thread_step st st'"

text \<open>The threads when main, with n workers made, has been interrupted.\<close>

abbreviation interrupted :: "nat \<Rightarrow> (nat \<Rightarrow> addr) \<Rightarrow> threads" where
  "interrupted n mem \<equiv> sighandler SIGINT (create_workers mem n)"

section \<open>The invariant\<close>

text \<open>How far cleanup is with a worker, and what that says of the worker.\<close>

datatype stage = Before | Marked | Posted | After

fun stage_of :: "main_pc \<Rightarrow> nat \<Rightarrow> stage" where
  "stage_of Serving i = Before"
| "stage_of (Visit k) i = (if k \<le> i then Before else After)"
| "stage_of (Posting k) i = (if i < k then After else if i = k then Marked else Before)"
| "stage_of (Fetching k) i = (if i < k then After else if i = k then Posted else Before)"
| "stage_of (Joining k t) i = (if i < k then After else if i = k then Posted else Before)"
| "stage_of (Destroying k) i = (if i \<le> k then After else Before)"
| "stage_of Stopped i = After"
| "stage_of (Undefined k) i = (if i \<le> k then After else Before)"

text \<open>The stages come one after the other, so they are ordered.\<close>

fun stage_rank :: "stage \<Rightarrow> nat" where
  "stage_rank Before = 0"
| "stage_rank Marked = 1"
| "stage_rank Posted = 2"
| "stage_rank After = 3"

lemma stage_rank_inj: "stage_rank a = stage_rank b \<Longrightarrow> a = b"
  by (cases a; cases b) simp_all

instantiation stage :: linorder
begin

definition less_eq_stage :: "stage \<Rightarrow> stage \<Rightarrow> bool" where
  "less_eq_stage a b \<longleftrightarrow> stage_rank a \<le> stage_rank b"

definition less_stage :: "stage \<Rightarrow> stage \<Rightarrow> bool" where
  "less_stage a b \<longleftrightarrow> stage_rank a < stage_rank b"

instance
  by standard (auto simp: less_eq_stage_def less_stage_def intro: stage_rank_inj)

end

fun worker_ok :: "nat \<Rightarrow> stage \<Rightarrow> thread_pc \<Rightarrow> Worker option \<Rightarrow> bool" where
  "worker_ok i s p None \<longleftrightarrow> p = Exited \<and> s \<in> {Posted, After}"
| "worker_ok i s p (Some w) \<longleftrightarrow> w_thread w = i \<and> (case s of
     Before \<Rightarrow> p = Asleep \<and> work_sem w = 0 \<and> \<not> w_terminated w
   | Marked \<Rightarrow> p = Asleep \<and> work_sem w = 0 \<and> w_terminated w
   | Posted \<Rightarrow> w_terminated w \<and> (p = Asleep \<and> work_sem w = 1 \<or> p \<in> {Woken, Leaving} \<and> work_sem w = 0)
   | After \<Rightarrow> False)"

text \<open>The accesses to freed memory that cleanup has made.\<close>

fun freed_uses :: "nat \<Rightarrow> main_pc \<Rightarrow> nat" where
  "freed_uses n Serving = 0"
| "freed_uses n (Visit k) = min k n"
| "freed_uses n (Posting k) = k"
| "freed_uses n (Fetching k) = k"
| "freed_uses n (Joining k t) = k"
| "freed_uses n (Destroying k) = k"
| "freed_uses n Stopped = n"
| "freed_uses n (Undefined k) = Suc k"

fun main_ok :: "nat \<Rightarrow> main_pc \<Rightarrow> bool" where
  "main_ok n (Visit k) \<longleftrightarrow> k \<le> NTHREADS"
| "main_ok n (Posting k) \<longleftrightarrow> k < n"
| "main_ok n (Fetching k) \<longleftrightarrow> k < n"
| "main_ok n (Joining k t) \<longleftrightarrow> k < n \<and> t = k"
| "main_ok n (Destroying k) \<longleftrightarrow> k < n"
| "main_ok n (Undefined k) \<longleftrightarrow> k < n"
| "main_ok n _ \<longleftrightarrow> True"

definition threads_inv :: "nat \<Rightarrow> threads \<Rightarrow> bool" where
  "threads_inv n st \<longleftrightarrow> made st = n \<and> main_ok n (main_at st) \<and> after_free st = [0..<freed_uses n (main_at st)] \<and>
     (\<forall>i < n. worker_ok i (stage_of (main_at st) i) (thread_at st i) (cell st i))"

lemma create_workers_state:
  "made (create_workers mem n) = n \<and> main_at (create_workers mem n) = Serving \<and> after_free (create_workers mem n) = [] \<and>
    (\<forall>i < n. worker_ok i Before (thread_at (create_workers mem n) i) (cell (create_workers mem n) i))"
  by (induction n) (auto simp: no_threads_def create_worker_def less_Suc_eq)

lemma sighandler_inv: "threads_inv n (sighandler SIGINT (create_workers mem n))"
  using create_workers_state [of mem n] by (simp add: threads_inv_def sighandler_def)

lemma worker_ok_stages:
  "worker_ok i Before p c \<longleftrightarrow> (\<exists>w. c = Some w \<and> w_thread w = i \<and> p = Asleep \<and> work_sem w = 0 \<and> \<not> w_terminated w)"
  "worker_ok i Marked p c \<longleftrightarrow> (\<exists>w. c = Some w \<and> w_thread w = i \<and> p = Asleep \<and> work_sem w = 0 \<and> w_terminated w)"
  "worker_ok i Posted p c \<longleftrightarrow> c = None \<and> p = Exited \<or>
     (\<exists>w. c = Some w \<and> w_thread w = i \<and> w_terminated w \<and> (p = Asleep \<and> work_sem w = 1 \<or> p \<in> {Woken, Leaving} \<and> work_sem w = 0))"
  "worker_ok i After p c \<longleftrightarrow> c = None \<and> p = Exited"
  by (cases c; auto)+

text \<open>A worker moves only between the flag and the join, and never as far as a task.\<close>

lemma worker_moves:
  assumes "worker_ok i s (thread_at st i) (cell st i)" "worker i st = Some st'"
  shows "\<exists>w p c. s = Posted \<and> cell st i = Some w \<and> st' = st\<lparr>cell := (cell st)(i := c), thread_at := (thread_at st)(i := p)\<rparr> \<and>
    worker_ok i Posted p c \<and> (thread_at st i, p) \<in> {(Asleep, Woken), (Woken, Leaving), (Leaving, Exited)}"
proof -
  have "s = Posted"
    using assms by (cases s) (auto simp: worker_ok_stages worker_def)
  have same: "st\<lparr>thread_at := t\<rparr> = st\<lparr>cell := (cell st)(i := cell st i), thread_at := t\<rparr>" for t by (cases st) simp
  from assms \<open>s = Posted\<close> show ?thesis
    by (auto simp: worker_ok_stages worker_def split: if_splits) (use same in auto)
qed

lemma worker_inv:
  assumes "threads_inv n st" "i < n" "worker i st = Some st'"
  shows "threads_inv n st'"
proof -
  from assms have "worker_ok i (stage_of (main_at st) i) (thread_at st i) (cell st i)" by (simp add: threads_inv_def)
  from worker_moves [OF this assms(3)] obtain p c where
    "stage_of (main_at st) i = Posted" "st' = st\<lparr>cell := (cell st)(i := c), thread_at := (thread_at st)(i := p)\<rparr>" "worker_ok i Posted p c"
    by blast
  with assms(1) show ?thesis by (simp add: threads_inv_def)
qed

text \<open>A step of cleanup concerns one worker; with all others it is as far as before.\<close>

lemma main_moves:
  assumes "threads_inv n st" "made st' = n" "thread_at st' = thread_at st" "main_ok n (main_at st')"
    "after_free st' = [0..<freed_uses n (main_at st')]"
    "\<And>i. i < n \<Longrightarrow> i \<noteq> k \<Longrightarrow> cell st' i = cell st i \<and> stage_of (main_at st') i = stage_of (main_at st) i"
    "k < n \<Longrightarrow> worker_ok k (stage_of (main_at st) k) (thread_at st k) (cell st k) \<Longrightarrow>
      worker_ok k (stage_of (main_at st') k) (thread_at st k) (cell st' k)"
  shows "threads_inv n st'"
  using assms unfolding threads_inv_def by metis

text \<open>cleanup only goes forward with each worker.\<close>

lemma cleanup_forward: "cleanup st = Some st' \<Longrightarrow> stage_of (main_at st) i \<le> stage_of (main_at st') i"
  by (cases "main_at st") (auto simp: cleanup_def less_eq_stage_def split: if_splits option.splits)

lemma thread_step_forward: "thread_step st st' \<Longrightarrow> stage_of (main_at st) i \<le> stage_of (main_at st') i"
proof (induction rule: thread_step.induct)
  case (worker_runs j st st')
  then have "main_at st' = main_at st" by (auto simp: worker_def split: thread_pc.splits option.splits if_splits)
  then show ?case by simp
qed (rule cleanup_forward)

lemma thread_run_forward: "(thread_step ^^ k) st st' \<Longrightarrow> stage_of (main_at st) i \<le> stage_of (main_at st') i"
  by (induction k arbitrary: st') (auto dest!: thread_step_forward [where i = i] intro: order_trans)

lemma access_simps [simp]:
  "made (access i f st) = made st" "thread_at (access i f st) = thread_at st" "main_at (access i f st) = main_at st"
  "after_free (access i f st) = after_free st @ (if cell st i = None then [i] else [])"
  "cell (access i f st) = (cell st)(i := map_option f (cell st i))"
  by (auto simp: access_def fun_eq_iff split: option.splits)

lemma cleanup_inv:
  assumes inv: "threads_inv n st" and n: "n \<le> NTHREADS" and run: "cleanup st = Some st'"
  shows "threads_inv n st'"
proof -
  have ok: "worker_ok k (stage_of (main_at st) k) (thread_at st k) (cell st k)" if "k < n" for k
    using inv that by (simp add: threads_inv_def)
  have m: "made st = n" "main_ok n (main_at st)" "after_free st = [0..<freed_uses n (main_at st)]"
    using inv by (simp_all add: threads_inv_def)
  consider k where "main_at st = Visit k" | k t where "main_at st \<in> {Posting k, Fetching k, Joining k t, Destroying k}"
    using run by (cases "main_at st") (auto simp: cleanup_def)
  then show ?thesis
  proof cases
    case (1 k)
    then show ?thesis
      using m n run ok [of k]
      by (intro main_moves [OF inv, where k = k]) (auto simp: cleanup_def worker_ok_stages split: if_splits)
  next
    case (2 k t)
    then have "k < n" using m(2) by auto
    with 2 show ?thesis
      using m n run ok [of k]
      by (intro main_moves [OF inv, where k = k]) (auto simp: cleanup_def worker_ok_stages split: if_splits)
  qed
qed

section \<open>The steps that are left\<close>

text \<open>
  Every step of a thread or of cleanup takes one off the number of steps still to be done; a run
  that has become undefined has some that it never does.
\<close>

fun worker_left :: "thread_pc \<Rightarrow> nat" where
  "worker_left Asleep = 3"
| "worker_left Woken = 2"
| "worker_left Calling = 0"
| "worker_left Leaving = 1"
| "worker_left Exited = 0"

fun main_left :: "nat \<Rightarrow> main_pc \<Rightarrow> nat" where
  "main_left n Serving = 0"
| "main_left n (Visit k) = 5 * (n - k) + (NTHREADS - max k n) + 1"
| "main_left n (Posting k) = 5 * (n - Suc k) + (NTHREADS - n) + 5"
| "main_left n (Fetching k) = 5 * (n - Suc k) + (NTHREADS - n) + 4"
| "main_left n (Joining k t) = 5 * (n - Suc k) + (NTHREADS - n) + 3"
| "main_left n (Destroying k) = 5 * (n - Suc k) + (NTHREADS - n) + 2"
| "main_left n Stopped = 0"
| "main_left n (Undefined k) = 5 * (n - Suc k) + (NTHREADS - n) + 3"

definition steps_left :: "nat \<Rightarrow> threads \<Rightarrow> nat" where
  "steps_left n st = main_left n (main_at st) + (\<Sum>i<n. worker_left (thread_at st i))"

lemma sum_move:
  fixes f :: "'a \<Rightarrow> nat" and i n :: nat
  assumes "i < n"
  shows "(\<Sum>j<n. f ((g(i := x)) j)) + f (g i) = (\<Sum>j<n. f (g j)) + f x"
proof -
  have "(\<Sum>j<n. f ((g(i := x)) j)) = f x + (\<Sum>j\<in>{..<n} - {i}. f (g j))"
    using assms by (subst sum.remove [of _ i]) auto
  moreover have "(\<Sum>j<n. f (g j)) = f (g i) + (\<Sum>j\<in>{..<n} - {i}. f (g j))"
    using assms by (subst sum.remove [of _ i]) auto
  ultimately show ?thesis by simp
qed

lemma worker_counts:
  assumes "threads_inv n st" "i < n" "worker i st = Some st'"
  shows "steps_left n st = Suc (steps_left n st')"
proof -
  from assms have "worker_ok i (stage_of (main_at st) i) (thread_at st i) (cell st i)" by (simp add: threads_inv_def)
  from worker_moves [OF this assms(3)] obtain p c where
    "st' = st\<lparr>cell := (cell st)(i := c), thread_at := (thread_at st)(i := p)\<rparr>" "worker_left (thread_at st i) = Suc (worker_left p)"
    by auto
  then show ?thesis
    using sum_move [OF assms(2), of worker_left "thread_at st" p] by (simp add: steps_left_def)
qed

lemma cleanup_counts:
  assumes "threads_inv n st" "n \<le> NTHREADS" "cleanup st = Some st'"
  shows "steps_left n st = Suc (steps_left n st')"
proof -
  have "main_ok n (main_at st)" "made st = n" using assms(1) by (simp_all add: threads_inv_def)
  with assms(2,3) have "main_left n (main_at st) = Suc (main_left n (main_at st'))"
  proof (cases "main_at st")
    case (Visit k)
    with assms(2,3) \<open>made st = n\<close> show ?thesis by (auto simp: cleanup_def split: if_splits)
  next
    case (Fetching k)
    with assms(3) show ?thesis by (auto simp: cleanup_def split: option.splits)
  qed (auto simp: cleanup_def split: if_splits)
  moreover have "thread_at st' = thread_at st"
    using assms(3) by (cases "main_at st") (auto simp: cleanup_def split: if_splits option.splits)
  ultimately show ?thesis by (simp add: steps_left_def)
qed

lemma thread_step_counts:
  assumes "thread_step st st'" "threads_inv n st" "n \<le> NTHREADS"
  shows "threads_inv n st' \<and> steps_left n st = Suc (steps_left n st')"
  using assms(1)
proof cases
  case (worker_runs i)
  then have i: "i < n" using assms(2) by (simp add: threads_inv_def)
  from worker_inv [OF assms(2) i worker_runs(2)] worker_counts [OF assms(2) i worker_runs(2)] show ?thesis by simp
next
  case main_runs
  from cleanup_inv [OF assms(2,3) this] cleanup_counts [OF assms(2,3) this] show ?thesis by simp
qed

lemma thread_run_counts:
  "(thread_step ^^ k) st st' \<Longrightarrow> threads_inv n st \<Longrightarrow> n \<le> NTHREADS \<Longrightarrow>
     threads_inv n st' \<and> steps_left n st = k + steps_left n st'"
proof (induction k arbitrary: st')
  case (Suc k)
  from Suc.prems(1) obtain t where "(thread_step ^^ k) st t" "thread_step t st'" by auto
  with Suc thread_step_counts [of t st' n] show ?case by auto
qed simp

text \<open>Until main is done or undefined, somebody can move: the join waits for a thread on its way.\<close>

fun over :: "main_pc \<Rightarrow> bool" where
  "over Stopped = True"
| "over (Undefined k) = True"
| "over _ = False"

lemma step_of_cleanup: "cleanup st \<noteq> None \<Longrightarrow> \<exists>st'. thread_step st st'"
  by (auto intro: main_runs)

lemma step_of_worker: "i < made st \<Longrightarrow> worker i st \<noteq> None \<Longrightarrow> \<exists>st'. thread_step st st'"
  by (auto intro: worker_runs)

lemma threads_progress:
  assumes "threads_inv n st" "main_at st \<noteq> Serving" "\<not> over (main_at st)"
  shows "\<exists>st'. thread_step st st'"
proof (cases "main_at st")
  case (Joining k t)
  then have k: "k < n" "t = k" "worker_ok k Posted (thread_at st k) (cell st k)" using assms(1) by (auto simp: threads_inv_def)
  then have "worker k st \<noteq> None \<or> cleanup st \<noteq> None"
    using Joining by (auto simp: worker_ok_stages worker_def cleanup_def)
  with k(1) assms(1) show ?thesis using step_of_cleanup step_of_worker by (auto simp: threads_inv_def)
next
  case (Fetching k)
  then show ?thesis by (cases "cell st k") (auto intro!: step_of_cleanup simp: cleanup_def)
qed (use assms(2,3) in \<open>auto intro!: step_of_cleanup simp: cleanup_def\<close>)

text \<open>And then nobody can move: the workers that cleanup has not come to are asleep.\<close>

lemma threads_end:
  assumes "threads_inv n st" "over (main_at st)"
  shows "\<not> thread_step st st'"
proof
  assume "thread_step st st'"
  then show False
  proof cases
    case (worker_runs i)
    with assms(1) have "worker_ok i (stage_of (main_at st) i) (thread_at st i) (cell st i)" by (simp add: threads_inv_def)
    moreover have "stage_of (main_at st) i \<noteq> Posted" using assms(2) by (cases "main_at st") auto
    ultimately show ?thesis using worker_moves [OF _ worker_runs(2)] by blast
  next
    case main_runs
    with assms(2) show ?thesis by (cases "main_at st") (auto simp: cleanup_def)
  qed
qed

lemma steps_left_start:
  assumes "n \<le> NTHREADS"
  shows "steps_left n (sighandler SIGINT (create_workers mem n)) = 7 * n + NTHREADS + 1"
proof -
  note st = create_workers_state [of mem n]
  then have "(\<Sum>i<n. worker_left (thread_at (create_workers mem n) i)) = (\<Sum>i<n. 3)"
    by (intro sum.cong) (auto simp: worker_ok_stages)
  with st assms show ?thesis by (simp add: steps_left_def sighandler_def)
qed

lemma steps_left_end:
  assumes "threads_inv n st" "main_at st = Stopped"
  shows "steps_left n st = 0 \<and> (\<forall>i < n. thread_at st i = Exited \<and> cell st i = None)"
  using assms by (simp add: threads_inv_def worker_ok_stages steps_left_def)

lemma main_at_run:
  "(thread_step ^^ k) st st' \<Longrightarrow> main_at st \<noteq> Serving \<Longrightarrow> main_at st' \<noteq> Serving"
proof (induction k arbitrary: st')
  case (Suc k)
  from Suc.prems(1) obtain t where "(thread_step ^^ k) st t" and t: "thread_step t st'" by auto
  with Suc have "main_at t \<noteq> Serving" by blast
  with t show ?case
    by cases (auto simp: worker_def cleanup_def split: thread_pc.splits option.splits main_pc.splits if_splits)
qed simp

section \<open>Runs there are\<close>

lemma reaches_main: "cleanup st = Some t \<Longrightarrow> thread_step\<^sup>*\<^sup>* t u \<Longrightarrow> thread_step\<^sup>*\<^sup>* st u"
  by (blast intro: converse_rtranclp_into_rtranclp main_runs)

lemma reaches_worker: "worker i st = Some t \<Longrightarrow> i < made st \<Longrightarrow> thread_step\<^sup>*\<^sup>* t u \<Longrightarrow> thread_step\<^sup>*\<^sup>* st u"
  by (blast intro: converse_rtranclp_into_rtranclp worker_runs)

lemma reaches_inv: "thread_step\<^sup>*\<^sup>* st st' \<Longrightarrow> threads_inv n st \<Longrightarrow> n \<le> NTHREADS \<Longrightarrow> threads_inv n st'"
  by (induction rule: rtranclp_induct) (blast dest: thread_step_counts)+

text \<open>cleanup wakes a worker: the flag and sem_post.\<close>

lemma reaches_fetching:
  assumes "threads_inv n st" "n \<le> NTHREADS" "main_at st = Visit k" "k < n"
  shows "\<exists>t w. thread_step\<^sup>*\<^sup>* st t \<and> main_at t = Fetching k \<and> made t = n \<and> thread_at t k = Asleep \<and>
    cell t k = Some w \<and> w_terminated w \<and> work_sem w = 1 \<and> w_thread w = k"
proof -
  from assms have "worker_ok k Before (thread_at st k) (cell st k)" "made st = n" by (auto simp: threads_inv_def)
  then obtain w where w: "made st = n" "cell st k = Some w" "w_thread w = k" "thread_at st k = Asleep" "work_sem w = 0"
    by (auto simp: worker_ok_stages)
  then obtain t where t: "cleanup st = Some t" "main_at t = Posting k" "made t = n" "thread_at t k = Asleep"
      "cell t k = Some (w\<lparr>w_terminated := True\<rparr>)"
    using assms by (simp add: cleanup_def access_def)
  then obtain u where "cleanup t = Some u" "main_at u = Fetching k" "made u = n" "thread_at u k = Asleep"
      "cell u k = Some (w\<lparr>w_terminated := True, work_sem := 1\<rparr>)"
    using w by (simp add: cleanup_def access_def)
  moreover from this(1) t(1) have "thread_step\<^sup>*\<^sup>* st u" by (blast intro: reaches_main)
  ultimately show ?thesis using w(3) by (intro exI [of _ u]) simp
qed

text \<open>A worker that was woken comes to its end, wherever main is.\<close>

lemma reaches_freed:
  assumes "cell st k = Some w" "thread_at st k = Asleep" "w_terminated w" "work_sem w = 1" "k < made st"
  shows "\<exists>t. thread_step\<^sup>*\<^sup>* st t \<and> main_at t = main_at st \<and> cell t k = None \<and> thread_at t k = Exited"
proof -
  from assms obtain t where t: "worker k st = Some t" "main_at t = main_at st" "made t = made st"
      "cell t k = Some (w\<lparr>work_sem := 0\<rparr>)" "thread_at t k = Woken"
    by (simp add: worker_def)
  with assms(3) obtain u where u: "worker k t = Some u" "main_at u = main_at st" "made u = made st"
      "cell u k = Some (w\<lparr>work_sem := 0\<rparr>)" "thread_at u k = Leaving"
    by (simp add: worker_def)
  then obtain v where v: "worker k u = Some v" "main_at v = main_at st" "cell v k = None" "thread_at v k = Exited"
    by (simp add: worker_def)
  have "thread_step st t" "thread_step t u" "thread_step u v"
    using t(1,3) u(1,3) v(1) assms(5) by (auto intro: worker_runs)
  then have "thread_step\<^sup>*\<^sup>* st v" by (meson converse_rtranclp_into_rtranclp rtranclp.rtrancl_refl)
  with v show ?thesis by blast
qed

text \<open>When the worker is faster than the read of its thread id, the id is read from freed memory.\<close>

lemma reaches_undefined:
  assumes "threads_inv n st" "n \<le> NTHREADS" "main_at st = Visit k" "k < n"
  shows "\<exists>t. thread_step\<^sup>*\<^sup>* st t \<and> main_at t = Undefined k"
proof -
  from reaches_fetching [OF assms] obtain t w where
    t: "thread_step\<^sup>*\<^sup>* st t" "main_at t = Fetching k" "made t = n" "thread_at t k = Asleep" "cell t k = Some w"
      "w_terminated w" "work_sem w = 1" by blast
  with reaches_freed [of t k w] assms(4) obtain u where u: "thread_step\<^sup>*\<^sup>* t u" "main_at u = Fetching k" "cell u k = None" by auto
  then obtain v where "cleanup u = Some v" and v: "main_at v = Undefined k" by (simp add: cleanup_def)
  then have "thread_step u v" by (blast intro: main_runs)
  with t(1) u(1) v show ?thesis by (meson rtranclp.rtrancl_into_rtrancl rtranclp_trans)
qed

text \<open>When it is slower, cleanup comes to the next worker.\<close>

lemma reaches_next:
  assumes "threads_inv n st" "n \<le> NTHREADS" "main_at st = Visit k" "k < n"
  shows "\<exists>t. thread_step\<^sup>*\<^sup>* st t \<and> main_at t = Visit (Suc k)"
proof -
  from reaches_fetching [OF assms] obtain t w where
    t: "thread_step\<^sup>*\<^sup>* st t" "main_at t = Fetching k" "made t = n" "thread_at t k = Asleep" "cell t k = Some w"
      "w_terminated w" "work_sem w = 1" "w_thread w = k" by blast
  then obtain t' where t': "cleanup t = Some t'" "main_at t' = Joining k k" "made t' = n" "thread_at t' k = Asleep" "cell t' k = Some w"
    by (simp add: cleanup_def)
  with reaches_freed [of t' k w] t(6,7) assms(4) obtain u where
    u: "thread_step\<^sup>*\<^sup>* t' u" "main_at u = Joining k k" "thread_at u k = Exited" by auto
  then obtain v where v: "cleanup u = Some v" "main_at v = Destroying k" by (simp add: cleanup_def)
  then obtain x where x: "cleanup v = Some x" "main_at x = Visit (Suc k)" by (simp add: cleanup_def)
  from t'(1) v(1) x(1) have "thread_step t t'" "thread_step u v" "thread_step v x" by (simp_all add: main_runs)
  with t(1) u(1) x(2) show ?thesis by (meson rtranclp.rtrancl_into_rtrancl rtranclp_trans)
qed

lemma reaches_visit:
  assumes "threads_inv n st" "n \<le> NTHREADS" "main_at st = Visit 0"
  shows "k \<le> n \<Longrightarrow> \<exists>t. thread_step\<^sup>*\<^sup>* st t \<and> main_at t = Visit k"
proof (induction k)
  case (Suc k)
  then obtain t where "thread_step\<^sup>*\<^sup>* st t" "main_at t = Visit k" by auto
  with reaches_next [OF reaches_inv [OF _ assms(1,2)] assms(2)] Suc.prems show ?case by (meson Suc_le_lessD rtranclp_trans)
qed (use assms(3) in auto)

lemma reaches_stopped:
  assumes "made st \<le> k" "main_at st = Visit k"
  shows "\<exists>t. thread_step\<^sup>*\<^sup>* st t \<and> main_at t = Stopped"
  using assms
proof (induction "NTHREADS - k" arbitrary: k st)
  case 0
  then have "cleanup st = Some (st\<lparr>main_at := Stopped\<rparr>)" by (simp add: cleanup_def)
  then show ?case by (intro exI [of _ "st\<lparr>main_at := Stopped\<rparr>"]) (auto intro: reaches_main)
next
  case (Suc d)
  then have "cleanup st = Some (st\<lparr>main_at := Visit (Suc k)\<rparr>)" by (simp add: cleanup_def)
  moreover have "\<exists>t. thread_step\<^sup>*\<^sup>* (st\<lparr>main_at := Visit (Suc k)\<rparr>) t \<and> main_at t = Stopped"
    by (rule Suc.hyps(1)) (use Suc in auto)
  ultimately show ?case by (blast intro: reaches_main)
qed

section \<open>Properties\<close>

text \<open>
  C9. The end of the server. However the threads and main are interleaved after SIGINT, cleanup
  never waits for ever: with n workers no run has more than 7 n + NTHREADS + 1 steps, and somebody
  can move until cleanup is done or has read the id of a thread from freed memory. When cleanup is
  done, every worker has returned and is freed. When it read freed memory, it was the memory of a
  worker that has returned. No worker ever calls its task, which main has left uninitialised.
\<close>

theorem cleanup_stops_workers:
  assumes "n \<le> NTHREADS" "(thread_step ^^ k) (interrupted n mem) st"
  shows "k \<le> 7 * n + NTHREADS + 1 \<and>
    ((\<exists>st'. thread_step st st') \<longleftrightarrow> main_at st \<noteq> Stopped \<and> (\<forall>i. main_at st \<noteq> Undefined i)) \<and>
    (main_at st = Stopped \<longrightarrow> k = 7 * n + NTHREADS + 1 \<and> (\<forall>i < n. thread_at st i = Exited \<and> cell st i = None)) \<and>
    (\<forall>i. main_at st = Undefined i \<longrightarrow> i < n \<and> thread_at st i = Exited \<and> cell st i = None) \<and>
    (\<forall>i < n. thread_at st i \<noteq> Calling)"
proof -
  from thread_run_counts [OF assms(2) sighandler_inv assms(1)] have
    inv: "threads_inv n st" and k: "7 * n + NTHREADS + 1 = k + steps_left n st"
    unfolding steps_left_start [OF assms(1)] by simp_all
  have main: "main_at st \<noteq> Serving" by (rule main_at_run [OF assms(2)]) (simp add: sighandler_def)
  have "over (main_at st) \<longleftrightarrow> main_at st = Stopped \<or> (\<exists>i. main_at st = Undefined i)" by (cases "main_at st") auto
  then have "(\<exists>st'. thread_step st st') \<longleftrightarrow> main_at st \<noteq> Stopped \<and> (\<forall>i. main_at st \<noteq> Undefined i)"
    using threads_progress [OF inv main] threads_end [OF inv] by blast
  moreover have "thread_at st i \<noteq> Calling" if "i < n" for i
  proof -
    have "worker_ok i (stage_of (main_at st) i) (thread_at st i) (cell st i)" using inv that by (simp add: threads_inv_def)
    then show ?thesis by (cases "stage_of (main_at st) i") (auto simp: worker_ok_stages)
  qed
  moreover have "i < n \<and> thread_at st i = Exited \<and> cell st i = None" if "main_at st = Undefined i" for i
    using inv that by (auto simp: threads_inv_def worker_ok_stages)
  ultimately show ?thesis using k steps_left_end [OF inv] by simp
qed

theorem cleanup_stops_workers_witness:
  "\<exists>st. (thread_step ^^ 18) (interrupted 1 (\<lambda>_. 7)) st \<and> main_at st = Stopped \<and>
     thread_at st 0 = Exited \<and> \<not> (\<exists>st'. thread_step st st')"
proof -
  let ?s = "interrupted 1 (\<lambda>_. 7)"
  have n: "1 \<le> NTHREADS" "7 * 1 + NTHREADS + 1 = 18" by (simp_all add: NTHREADS_def)
  have "main_at ?s = Visit 0" by (simp add: sighandler_def)
  with reaches_visit [OF sighandler_inv n(1), of "\<lambda>_. 7" 1] obtain t where t: "thread_step\<^sup>*\<^sup>* ?s t" "main_at t = Visit 1" by auto
  with reaches_inv [OF t(1) sighandler_inv n(1)] reaches_stopped [of t 1] obtain st where
    "thread_step\<^sup>*\<^sup>* t st" "main_at st = Stopped" by (auto simp: threads_inv_def)
  with t(1) have "thread_step\<^sup>*\<^sup>* ?s st" by (blast intro: rtranclp_trans)
  with \<open>main_at st = Stopped\<close> obtain k where st: "(thread_step ^^ k) ?s st" "main_at st = Stopped" by (blast dest: rtranclp_imp_relpowp)
  from cleanup_stops_workers [OF n(1) st(1)] n(2) st show ?thesis by (intro exI [of _ st]) (simp del: create_workers.simps add: NTHREADS_def)
qed

text \<open>
  C39. The memory errors of cleanup. A worker frees its own structure when it ends. For every
  worker there is a run in which it has done so before cleanup reads the id of its thread there, and
  that run ends undefined. In the runs that end well so far, and there are such runs, cleanup
  destroys the semaphore of every worker in freed memory, in the order of the workers. So no run
  of the server with a worker ends without a use of freed memory.
\<close>

theorem cleanup_uses_freed_workers:
  assumes "n \<le> NTHREADS"
  shows "(\<forall>i < n. \<exists>st. thread_step\<^sup>*\<^sup>* (interrupted n mem) st \<and> main_at st = Undefined i \<and> after_free st = [0..<i + 1]) \<and>
    (\<exists>st. thread_step\<^sup>*\<^sup>* (interrupted n mem) st \<and> main_at st = Stopped) \<and>
    (\<forall>st. thread_step\<^sup>*\<^sup>* (interrupted n mem) st \<and> main_at st = Stopped \<longrightarrow> after_free st = [0..<n])"
proof (intro conjI allI impI)
  let ?start = "interrupted n mem"
  have start: "threads_inv n ?start" "main_at ?start = Visit 0" by (rule sighandler_inv, simp add: sighandler_def)
  note inv = reaches_inv [OF _ start(1) assms(1)]
  fix i assume i: "i < n"
  with reaches_visit [OF start(1) assms(1) start(2), of i] obtain t where t: "thread_step\<^sup>*\<^sup>* ?start t" "main_at t = Visit i" by auto
  from reaches_undefined [OF inv [OF t(1)] assms(1) t(2) i] obtain st where
    "thread_step\<^sup>*\<^sup>* t st" "main_at st = Undefined i" by blast
  with t(1) have st: "thread_step\<^sup>*\<^sup>* ?start st" "main_at st = Undefined i" by simp_all
  with inv [OF st(1)] show "\<exists>st. thread_step\<^sup>*\<^sup>* ?start st \<and> main_at st = Undefined i \<and> after_free st = [0..<i + 1]"
    by (auto simp: threads_inv_def)
next
  let ?start = "interrupted n mem"
  have start: "threads_inv n ?start" "main_at ?start = Visit 0" by (rule sighandler_inv, simp add: sighandler_def)
  from reaches_visit [OF start(1) assms(1) start(2), of n] obtain t where t: "thread_step\<^sup>*\<^sup>* ?start t" "main_at t = Visit n" by auto
  with reaches_inv [OF t(1) start(1) assms(1)] reaches_stopped [of t n]
  show "\<exists>st. thread_step\<^sup>*\<^sup>* ?start st \<and> main_at st = Stopped" by (auto simp: threads_inv_def dest: rtranclp_trans)
next
  let ?start = "interrupted n mem"
  fix st assume "thread_step\<^sup>*\<^sup>* ?start st \<and> main_at st = Stopped"
  with reaches_inv [of ?start st n] sighandler_inv [of n mem] assms(1) show "after_free st = [0..<n]"
    by (auto simp: threads_inv_def)
qed

theorem cleanup_uses_freed_workers_witness:
  "\<exists>s t. thread_step\<^sup>*\<^sup>* (interrupted 2 (\<lambda>_. 7)) s \<and> main_at s = Undefined 1 \<and> after_free s = [0, 1] \<and>
     thread_step\<^sup>*\<^sup>* (interrupted 2 (\<lambda>_. 7)) t \<and> main_at t = Stopped \<and> after_free t = [0, 1]"
proof -
  have n: "2 \<le> NTHREADS" "(1 :: nat) < 2" "[0..<1 + 1] = [0, 1]" "[0..<2] = [0, 1]" by (simp_all add: NTHREADS_def upt_rec)
  from cleanup_uses_freed_workers [OF n(1), of "\<lambda>_. 7"] n(2-) show ?thesis by metis
qed

end
