(* ===== verification/ServerMain.thy ===== *)
theory ServerMain
  imports ServerTypes Workers
begin

text \<open>
  The start of main in src/server.c up to the event loop, with create_server_socket: the storage
  directory and the users, the workers, and the listening socket. Failing system calls end the
  program with status 1, and atexit then runs cleanup for the workers there are.
\<close>

section \<open>The listening socket\<close>

text \<open>
  What the system calls answer: socket, setsockopt, fcntl, inet_pton, bind, listen, epoll_create1
  and epoll_ctl, and calloc.
\<close>

record listener =
  new_socket :: "nat option"
  reuse_ok :: bool
  fcntl_ok :: bool
  pton :: "string \<Rightarrow> int"
  bind_ok :: "string \<Rightarrow> int \<Rightarrow> bool"
  listen_ok :: bool
  epoll_ok :: bool
  epoll_add_ok :: bool
  calloc_ok :: bool

definition new_connection :: socket where
  "new_connection = \<lparr>so_rx = [], so_tx_plan = [], so_tx = []\<rparr>"

text \<open>
  The descriptor, -1 or -2. Only a failing bind closes the socket again; None is the exit with
  status 1 in set_blocking.
\<close>

definition create_server_socket :: "listener \<Rightarrow> string \<Rightarrow> int \<Rightarrow> server \<Rightarrow> (int \<times> server) option" where
  "create_server_socket N server_ip port s = (case new_socket N of
     None \<Rightarrow> Some (-1, s)
   | Some fd \<Rightarrow>
       let s = s\<lparr>open_fds := (open_fds s)(fd \<mapsto> new_connection)\<rparr>
       in if \<not> reuse_ok N then Some (-1, s)
          else if \<not> fcntl_ok N then None
          else let s = set_blocking fd False s; ret = pton N server_ip
               in if ret = 0 then Some (-2, s)
                  else if ret = -1 then Some (-1, s)
                  else if \<not> bind_ok N server_ip port then Some (-1, close_fd fd s)
                  else Some (int fd, s))"

definition PORT :: int where
  "PORT = 1234"

text \<open>
  main up to the loop: the exit status and the number of workers that are there then, or the
  state in which the loop starts. The result of create_server_socket is not looked at, but listen
  fails for what is no descriptor. The listening socket is watched all the time; the set epoll of
  the state holds the other descriptors.
\<close>

definition server_main :: "lib \<Rightarrow> listener \<Rightarrow> server \<Rightarrow> ((int \<times> nat) + server) option" where
  "server_main L N s = do {
     r \<leftarrow> server_init L s;
     case r of None \<Rightarrow> Some (Inl (1, 0))
     | Some s \<Rightarrow>
         if \<not> calloc_ok N then Some (Inl (1, 0))
         else case create_server_socket N ''0.0.0.0'' PORT s of
           None \<Rightarrow> Some (Inl (1, NTHREADS))
         | Some (server_fd, s) \<Rightarrow>
             if server_fd < 0 \<or> \<not> listen_ok N then Some (Inl (1, NTHREADS))
             else if \<not> epoll_ok N then Some (Inl (1, NTHREADS))
             else if \<not> epoll_add_ok N then Some (Inl (1, NTHREADS))
             else Some (Inr s)
   }"

section \<open>The listening socket in the loop\<close>

lemma server_init_fds:
  assumes "server_init L b = Some (Some s)"
  shows "open_fds s = open_fds b \<and> epoll s = epoll b \<and> nonblock s = nonblock b"
proof -
  obtain r b1 where m: "fs_mkdir STORAGE_DIR b = (r, b1)" by fastforce
  obtain dir b2 where d: "opendir STORAGE_DIR b1 = (dir, b2)" by fastforce
  from assms m d obtain g where "s = b2\<lparr>man := g\<rparr>"
    by (auto simp: server_init_def Let_def bind_eq_Some_conv split: if_splits)
  with io_srv [OF conjunct2 [OF fs_mkdir_files [OF m, of "\<lambda>_. True"]]] io_srv [OF opendir_same [OF d]] show ?thesis
    by (simp add: srv_rel_def)
qed

text \<open>main reaches the loop only with the listening socket open and not blocking.\<close>

lemma server_main_loop:
  assumes "server_main L N b = Some (Inr s)" "users (man b) = Map.empty"
  shows "\<exists>fd. new_socket N = Some fd \<and> open_fds s fd \<noteq> None \<and> fd \<in> nonblock s \<and> epoll s = epoll b \<and> typed s"
proof -
  from assms(1) obtain s1 where i: "server_init L b = Some (Some s1)"
    by (auto simp: server_main_def bind_eq_Some_conv split: option.splits)
  with assms(1) obtain server_fd where
    s1: "server_init L b = Some (Some s1)" "create_server_socket N ''0.0.0.0'' PORT s1 = Some (server_fd, s)" "\<not> server_fd < 0"
    by (auto simp: server_main_def split: option.splits if_splits)
  from s1(2,3) obtain fd where fd: "new_socket N = Some fd"
    "s = set_blocking fd False (s1\<lparr>open_fds := (open_fds s1)(fd \<mapsto> new_connection)\<rparr>)"
    by (auto simp: create_server_socket_def Let_def split: option.splits if_splits)
  with server_init_fds [OF s1(1)] server_init_typed [OF s1(1) assms(2)] show ?thesis
    by (simp add: set_blocking_def typed_def)
qed

definition listening_ok :: "nat \<Rightarrow> server \<times> event list \<Rightarrow> bool" where
  "listening_ok fd st \<longleftrightarrow> loop_inv st \<and> open_fds (fst st) fd \<noteq> None \<and> fd \<in> nonblock (fst st) \<and> fd \<notin> epoll (fst st)"

lemma fd_step_other:
  "fd_step fd s t \<Longrightarrow> fd \<noteq> x \<Longrightarrow> (open_fds t x = None \<longleftrightarrow> open_fds s x = None) \<and>
     (x \<in> nonblock t \<longleftrightarrow> x \<in> nonblock s) \<and> (x \<in> epoll t \<longleftrightarrow> x \<in> epoll s)"
  unfolding fd_step_def by (elim disjE conjE; simp)

lemma listening_step:
  assumes step: "loop_step L st st'" and ok: "listening_ok x st"
  shows "listening_ok x st'"
proof -
  have inv: "loop_inv st'" using loop_step_inv [OF step] ok by (simp add: listening_ok_def)
  from step show ?thesis
  proof cases
    case (wait s evs)
    with ok inv show ?thesis by (simp add: listening_ok_def)
  next
    case (next_event s acc ev s' evs)
    show ?thesis
    proof (cases ev)
      case Listening
      then have s': "s' = on_listening acc s" using next_event(4) by simp
      have "open_fds (on_listening acc s) x \<noteq> None \<and> x \<in> nonblock (on_listening acc s) \<and> x \<notin> epoll (on_listening acc s)"
      proof (cases acc)
        case (AcceptErr e)
        with next_event(1) ok show ?thesis by (simp add: listening_ok_def)
      next
        case (Accepted fd so added)
        with next_event(1,3) ok have "fd \<noteq> x" by (auto simp: listening_ok_def)
        with Accepted next_event(1) ok show ?thesis
          by (simp add: listening_ok_def set_blocking_def close_fd_def Let_def)
      qed
      with s' next_event(2) inv show ?thesis by (simp add: listening_ok_def)
    next
      case (Readable fd)
      with next_event(1) ok have fd: "fd \<noteq> x" "open_fds s fd \<noteq> None"
        by (auto simp: listening_ok_def loop_inv_def)
      then obtain so s1 where r: "open_fds s fd = Some so" "on_readable L fd (focus so s) = Some s1" "s' = unfocus fd s1"
        using next_event(4) Readable by (auto simp: bind_eq_Some_conv)
      have "fd_step fd s s1" using on_readable_fds [OF r(2)] by (simp add: fd_step_def focus_def)
      from fd_step_other [OF this fd(1)] ok inv next_event(1,2) r(3) fd(1) show ?thesis
        by (auto simp: listening_ok_def unfocus_def)
    next
      case (Hangup fd)
      with next_event(1) ok have fd: "fd \<noteq> x" by (auto simp: listening_ok_def loop_inv_def)
      have "fd_step fd s s'" using next_event(4) Hangup
        by (auto simp: fd_step_def on_client_disconnected_def close_fd_def epoll_del_def)
      from fd_step_other [OF this fd] ok inv next_event(1,2) show ?thesis by (auto simp: listening_ok_def)
    qed
  qed
qed

lemma listening_reaches: "loop_reaches L st st' \<Longrightarrow> listening_ok x st \<Longrightarrow> listening_ok x st'"
  by (induction rule: rtranclp_induct) (blast intro: listening_step)+

section \<open>Properties\<close>

text \<open>
  C40. From main into the loop and on. When main gets as far as the event loop, no client is watched
  yet and the listening socket is open, non-blocking and watched; and whatever clients connect,
  send or do, and whatever descriptors they are given, it stays open and non-blocking, is never
  taken for a client's, and no event that is still to be handled concerns it.
\<close>

theorem listening_socket_stays:
  assumes "server_main L N b = Some (Inr s0)" "users (man b) = Map.empty" "epoll b = {}"
    and "loop_reaches L (s0, []) (s, evs)"
  shows "\<exists>fd. new_socket N = Some fd \<and> open_fds s fd \<noteq> None \<and> fd \<in> nonblock s \<and> fd \<notin> epoll s \<and>
    fd \<notin> set (concat (map event_fds evs)) \<and> epoll s0 = {}"
proof -
  from server_main_loop [OF assms(1,2)] assms(3) obtain fd where
    fd: "new_socket N = Some fd" "open_fds s0 fd \<noteq> None" "fd \<in> nonblock s0" "epoll s0 = {}" by auto
  then have "listening_ok fd (s0, [])" by (simp add: listening_ok_def loop_inv_def)
  from listening_reaches [OF assms(4) this] fd(1,4) show ?thesis by (auto simp: listening_ok_def loop_inv_def)
qed

definition sample_listener :: listener where
  "sample_listener = \<lparr>new_socket = Some 3, reuse_ok = True, fcntl_ok = True, pton = (\<lambda>_. 1), bind_ok = (\<lambda>_ _. True),
     listen_ok = True, epoll_ok = True, epoll_add_ok = True, calloc_ok = True\<rparr>"

theorem listening_socket_stays_witness:
  "\<exists>s0 s. server_main client_lib sample_listener (sample_server (sample_storage []) [] (uman_start (\<lambda>_ _. 0)) no_objects) =
       Some (Inr s0) \<and>
     loop_reaches client_lib (s0, []) (s, []) \<and> epoll s = {7} \<and> open_fds s 3 \<noteq> None \<and> 3 \<in> nonblock s"
proof -
  let ?b = "sample_server (sample_storage []) [] (uman_start (\<lambda>_ _. 0)) no_objects"
  let ?acc = "Accepted 7 new_connection True"
  from sample_init obtain s1 where s1: "server_init client_lib ?b = Some (Some s1)" by blast
  let ?s0 = "set_blocking 3 False (s1\<lparr>open_fds := (open_fds s1)(3 \<mapsto> new_connection)\<rparr>)"
  have fds: "open_fds s1 = (\<lambda>_. None)" "epoll s1 = {}" using server_init_fds [OF s1] by (simp_all add: sample_server_def)
  have m: "server_main client_lib sample_listener ?b = Some (Inr ?s0)"
    using s1 by (simp add: server_main_def create_server_socket_def sample_listener_def)
  have "loop_step client_lib (?s0, []) (?s0, [Listening])" by (rule wait) (simp add: reported_def MAX_EVENTS_def)
  moreover have "loop_step client_lib (?s0, [Listening]) (on_listening ?acc ?s0, [])"
    by (rule next_event [where acc = ?acc, OF _ on_event.simps(1)]) (simp add: set_blocking_def fds)
  ultimately have r: "loop_reaches client_lib (?s0, []) (on_listening ?acc ?s0, [])" by simp
  have "users (man ?b) = Map.empty" "epoll ?b = {}" by (simp_all add: uman_start_def sample_server_def)
  from listening_socket_stays [OF m this r] have "open_fds (on_listening ?acc ?s0) 3 \<noteq> None \<and> 3 \<in> nonblock (on_listening ?acc ?s0)"
    by (simp add: sample_listener_def)
  moreover have "epoll (on_listening ?acc ?s0) = {7}" by (simp add: set_blocking_def Let_def fds)
  ultimately show ?thesis using m r by blast
qed

end
