(* ===== verification/Printing.thy ===== *)
theory Printing
  imports ServerTypes
begin

text \<open>
  The functions that print the data of the program: msg_print (src/msg.c), checksum_print
  (src/util.c), chunk_print (src/chunk.c), fileinfo_print (src/file.c), session_print
  (src/session.c) and user_print (src/user.c). Each one gives the text it writes, None when it
  reads through a bad pointer, a string without an end, or an unknown message type. They change
  nothing; what has to be shown is that they do not fail on the data the server prints, and that
  what they write tells different data apart. The text of a pointer (%p) is an argument.
\<close>

section \<open>Formats\<close>

definition nl :: string where
  "nl = [CHR 0x0A]"

definition zu :: "u64 \<Rightarrow> string" where
  "zu w = dec (unat w)"

definition hex_digit :: "nat \<Rightarrow> char" where
  "hex_digit n = (if n < 10 then char_of (48 + n) else char_of (87 + n))"

definition hex2 :: "byte \<Rightarrow> string" where
  "hex2 b = [hex_digit (unat b div 16), hex_digit (unat b mod 16)]"

section \<open>The functions\<close>

definition msg_print :: "lib \<Rightarrow> Message \<Rightarrow> string option" where
  "msg_print L self = do {
     let token = uuid_unparse L (hdr_token (hdr self));
     type \<leftarrow> msg_type_to_str (hdr_type (hdr self));
     Some (''Received message: '' @ nl @
       ''    type: '' @ type @ nl @
       ''    length: '' @ zu (hdr_length (hdr self)) @ nl @
       ''    sent_at: '' @ zu (tv_sec (hdr_sent_at (hdr self))) @ ''s, '' @ zu (tv_nsec (hdr_sent_at (hdr self))) @ ''ns'' @ nl @
       ''    token: '' @ token @ nl @
       ''    rcvd_at: '' @ zu (tv_sec (rcvd_at self)) @ ''s, '' @ zu (tv_nsec (rcvd_at self)) @ ''ns'' @ nl)
   }"

fun checksum_print :: "byte list \<Rightarrow> string" where
  "checksum_print [] = nl"
| "checksum_print (b # bs) = hex2 b @ checksum_print bs"

definition chunk_print :: "string \<Rightarrow> Chunk \<Rightarrow> string" where
  "chunk_print p self = ''Chunk:'' @ nl @
     ''    seq: '' @ zu (ch_seq (ck_hdr self)) @ nl @
     ''    start_byte: '' @ zu (ch_start_byte (ck_hdr self)) @ nl @
     ''    end_byte: '' @ zu (ch_end_byte (ck_hdr self)) @ nl @
     ''    length: '' @ zu (ch_length (ck_hdr self)) @ nl @
     ''    checksum: '' @ checksum_print (ch_checksum (ck_hdr self)) @
     ''    data: '' @ p @ nl"

definition fileinfo_print :: "FileInfo \<Rightarrow> string option" where
  "fileinfo_print info = do {
     filename \<leftarrow> info_name info;
     Some (''FileInfo: '' @ nl @
       ''    size: '' @ zu (fi_size info) @ nl @
       ''    chunk_count: '' @ zu (fi_chunk_count info) @ nl @
       ''    checksum: '' @ checksum_print (fi_checksum info) @
       ''    filename: '' @ filename @ nl)
   }"

definition session_print :: "objects \<Rightarrow> addr \<Rightarrow> string option" where
  "session_print m a =
     (if a = NULL then Some (''Session:'' @ '' NULL'' @ nl)
      else do {
        self \<leftarrow> sess m a;
        info \<leftarrow> infos m (s_file_info self);
        filename \<leftarrow> info_name info;
        Some (''Session:'' @ nl @
          ''  type: '' @ sesstype_to_str (s_type self) @ nl @
          ''  state: '' @ sstate_to_str (s_state self) @ nl @
          ''  filename: '' @ filename @ nl @
          ''  chunks_transferred: '' @ zu (s_last_transfered_chunk self) @ nl @
          ''  started_at: '' @ zu (tv_sec (s_started_at self)) @ ''s '' @ zu (tv_nsec (s_started_at self)) @ ''ns'' @ nl)
      })"

definition user_print :: "lib \<Rightarrow> string \<Rightarrow> uman \<Rightarrow> addr \<Rightarrow> string option" where
  "user_print L p m a =
     (if a = NULL then Some (''User:'' @ '' NULL'' @ nl)
      else do {
        self \<leftarrow> users m a;
        let token = uuid_unparse L (u_token self);
        Some (''User:'' @ nl @ ''  token: '' @ token @ nl @
          ''  total_space: '' @ zu (u_total_space self) @ nl @
          ''  used_space: '' @ zu (u_used_space self) @ nl @
          ''  sessions: '' @ p @ nl @
          ''  sessions_count: '' @ zu (u_sessions_count self) @ nl @
          ''  sessions_capacity: '' @ zu (u_sessions_capacity self) @ nl)
      })"

section \<open>What is written tells the data apart\<close>

lemma dec_digits: "set (dec n) \<subseteq> char_of ` {48..<58 :: nat}"
proof (induction n rule: dec.induct)
  case (1 n)
  have "48 + n mod 10 \<in> {48..<58}" by auto
  with 1 show ?case by (subst dec.simps) (auto split: if_splits)
qed

lemma nl_not_digit: "CHR 0x0A \<notin> set (dec n)"
proof
  assume "CHR 0x0A \<in> set (dec n)"
  with dec_digits obtain k :: nat where "48 \<le> k" "k < 58" "CHR 0x0A = char_of k" by fastforce
  then have "of_char (CHR 0x0A) = k mod 256" by (simp add: of_char_of)
  with \<open>48 \<le> k\<close> \<open>k < 58\<close> show False by simp
qed

lemma dec_not_Nil: "dec n \<noteq> []"
  by (subst dec.simps) simp

lemma dec_inj: "dec m = dec n \<Longrightarrow> m = n"
proof (induction m arbitrary: n rule: dec.induct)
  case (1 m)
  have d: "dec m = (if m < 10 then [] else dec (m div 10)) @ [char_of (48 + m mod 10)]"
    "dec n = (if n < 10 then [] else dec (n div 10)) @ [char_of (48 + n mod 10)]" by (rule dec.simps)+
  have "(char_of (48 + m mod 10) :: char) = char_of (48 + n mod 10)" using 1(2) unfolding d by simp
  then have "of_char (char_of (48 + m mod 10) :: char) = (of_char (char_of (48 + n mod 10) :: char) :: nat)" by simp
  then have r: "m mod 10 = n mod 10" unfolding of_char_of by (simp add: mod_less)
  show ?case
  proof (cases "m < 10")
    case True
    then have "n < 10" using 1(2) d dec_not_Nil [of "n div 10"] by (auto split: if_splits)
    with True r show ?thesis by simp
  next
    case False
    then have n: "\<not> n < 10" using 1(2) d dec_not_Nil [of "m div 10"] by (auto split: if_splits)
    with 1(2) d False have "dec (m div 10) = dec (n div 10)" by simp
    with 1(1) False have "m div 10 = n div 10" by blast
    with r show ?thesis using div_mult_mod_eq [of m 10] div_mult_mod_eq [of n 10] by metis
  qed
qed

lemma split_at_first:
  assumes "c \<notin> set a" "c \<notin> set b" "a @ c # x = b @ c # y"
  shows "a = b \<and> x = y"
proof -
  have t: "takeWhile (\<lambda>d. d \<noteq> c) (a @ c # x) = a" "takeWhile (\<lambda>d. d \<noteq> c) (b @ c # y) = b"
    using assms(1,2) by (subst takeWhile_append2; auto)+
  with assms(3) have "a = b" by metis
  with assms(3) show ?thesis by simp
qed

lemma zu_line: "zu v @ nl @ x = zu w @ nl @ y \<longleftrightarrow> v = w \<and> x = y"
  using split_at_first [OF nl_not_digit nl_not_digit, of "unat v" x "unat w" y] dec_inj [of "unat v" "unat w"]
  by (auto simp: zu_def nl_def word_unat_eq_iff)

lemma hex_digit_code: "n < 16 \<Longrightarrow> (of_char (hex_digit n) :: nat) = (if n < 10 then 48 + n else 87 + n)"
  by (simp add: hex_digit_def)

lemma hex_digit_inj: "m < 16 \<Longrightarrow> n < 16 \<Longrightarrow> hex_digit m = hex_digit n \<Longrightarrow> m = n"
proof -
  assume "m < 16" "n < 16" "hex_digit m = hex_digit n"
  then have "(if m < 10 then 48 + m else 87 + m) = (if n < 10 then 48 + n else 87 + n)"
    using hex_digit_code by metis
  then show "m = n" by (simp split: if_splits)
qed

lemma hex_digit_not_nl: "n < 16 \<Longrightarrow> hex_digit n \<noteq> CHR 0x0A"
proof
  assume n: "n < 16" "hex_digit n = CHR 0x0A"
  then have "(of_char (CHR 0x0A) :: nat) = (if n < 10 then 48 + n else 87 + n)" using hex_digit_code by metis
  then show False by (simp split: if_splits)
qed

lemma hex2_nl: "hex_digit (unat (c :: byte) div 16) \<noteq> CHR 0x0A"
proof -
  have "unat c < 256" using unsigned_less [of c, where 'a = nat] by simp
  then show ?thesis by (intro hex_digit_not_nl) simp
qed

lemma hex2_inj: "hex2 a = hex2 b \<Longrightarrow> a = b"
proof -
  assume h: "hex2 a = hex2 b"
  have "unat a < 256" "unat b < 256" using unsigned_less [of a, where 'a = nat] unsigned_less [of b, where 'a = nat] by simp_all
  then have "unat a div 16 = unat b div 16" "unat a mod 16 = unat b mod 16"
    using h by (auto simp: hex2_def intro!: hex_digit_inj)
  then have "unat a = unat b" using div_mult_mod_eq [of "unat a" 16] div_mult_mod_eq [of "unat b" 16] by metis
  then show ?thesis by (simp add: word_unat_eq_iff)
qed

text \<open>Two digests are written alike only if they are the same, whatever follows them.\<close>

lemma checksum_line: "checksum_print a @ x = checksum_print b @ y \<longleftrightarrow> a = b \<and> x = y"
proof (induction a arbitrary: b)
  case Nil
  have "nl @ x \<noteq> hex2 c @ z" for c z
    using hex2_nl [of c] by (auto simp: nl_def hex2_def)
  then show ?case by (cases b) auto
next
  case (Cons c a)
  have "hex2 c @ z \<noteq> nl @ y" for z
    using hex2_nl [of c] by (auto simp: nl_def hex2_def)
  moreover have "length (hex2 c) = length (hex2 d)" for d by (simp add: hex2_def)
  ultimately show ?case using Cons.IH hex2_inj by (cases b) (auto simp: append_eq_append_conv)
qed

lemma fileinfo_print_determines:
  assumes "fileinfo_print i = Some t" "fileinfo_print j = Some t"
  shows "fi_size i = fi_size j \<and> fi_chunk_count i = fi_chunk_count j \<and> fi_checksum i = fi_checksum j \<and> info_name i = info_name j"
proof -
  from assms(1) obtain a where a: "info_name i = Some a"
    "t = ''FileInfo: '' @ nl @ ''    size: '' @ zu (fi_size i) @ nl @ ''    chunk_count: '' @ zu (fi_chunk_count i) @ nl @
       ''    checksum: '' @ checksum_print (fi_checksum i) @ ''    filename: '' @ a @ nl"
    by (auto simp: fileinfo_print_def bind_eq_Some_conv)
  from assms(2) obtain b where b: "info_name j = Some b"
    "t = ''FileInfo: '' @ nl @ ''    size: '' @ zu (fi_size j) @ nl @ ''    chunk_count: '' @ zu (fi_chunk_count j) @ nl @
       ''    checksum: '' @ checksum_print (fi_checksum j) @ ''    filename: '' @ b @ nl"
    by (auto simp: fileinfo_print_def bind_eq_Some_conv)
  from a(2) b(2) have "zu (fi_size i) @ nl @ ''    chunk_count: '' @ zu (fi_chunk_count i) @ nl @
       ''    checksum: '' @ checksum_print (fi_checksum i) @ ''    filename: '' @ a @ nl =
     zu (fi_size j) @ nl @ ''    chunk_count: '' @ zu (fi_chunk_count j) @ nl @
       ''    checksum: '' @ checksum_print (fi_checksum j) @ ''    filename: '' @ b @ nl"
    by (simp only: same_append_eq)
  then show ?thesis unfolding zu_line same_append_eq checksum_line append_same_eq using a(1) b(1) by simp
qed

section \<open>Printing does not fail\<close>

lemma msg_print_fails: "msg_print L m = None \<longleftrightarrow> msg_type_to_str (hdr_type (hdr m)) = None"
  by (simp add: msg_print_def bind_eq_None_conv)

lemma session_print_at: "a = NULL \<or> session_at m a \<noteq> None \<Longrightarrow> session_print m a \<noteq> None"
  by (auto simp: session_at_def session_print_def bind_eq_Some_conv)

text \<open>In the server the user that was found and each session of the table can be printed.\<close>

lemma server_prints:
  assumes "typed s" "users (man s) a = Some u"
  shows "user_print L p (man s) a \<noteq> None" "x \<in> set (session_list u) \<Longrightarrow> session_print (objs s) x \<noteq> None"
  using assms(2) typed_user [OF assms] session_print_at by (auto simp: user_print_def user_ok_def readable_def)

end
